(* ===== verification/Float64.thy ===== *)
theory Float64
  imports Complex_Main "HOL-Library.Log_Nat"
begin

text \<open>
  The float64 arithmetic of Go, as far as the program uses it: a finite value is a rational, and
  the sum or difference of two values is the exact result rounded to the nearest binary64 number,
  ties to even, subnormal numbers included. Overflow to an infinity and NaN are left out: the
  program reads its numbers from JSON or from literals, which hold neither.
\<close>

definition pow2 :: "int \<Rightarrow> rat" where
  "pow2 e = (if 0 \<le> e then 2 ^ nat e else 1 / 2 ^ nat (- e))"

definition ilog2 :: "rat \<Rightarrow> int" where
  "ilog2 q = (let (a, b) = quotient_of q; e = bitlen a - bitlen b
              in if q < pow2 e then e - 1 else e)"

definition round_even :: "rat \<Rightarrow> int" where
  "round_even m = (let f = \<lfloor>m\<rfloor>; r = m - of_int f
     in if r < 1 / 2 \<or> (r = 1 / 2 \<and> even f) then f else f + 1)"

definition exp64 :: "rat \<Rightarrow> int" where
  "exp64 q = max (ilog2 q) (- 1022) - 52"

definition round64 :: "rat \<Rightarrow> rat" where
  "round64 q = (if q = 0 then 0
     else if 0 < q then of_int (round_even (q / pow2 (exp64 q))) * pow2 (exp64 q)
     else - (of_int (round_even (- q / pow2 (exp64 (- q)))) * pow2 (exp64 (- q))))"

lemma pow2_powi: "pow2 e = 2 powi e"
  by (simp add: pow2_def power_int_def field_simps)

lemma pow2_pos [simp]: "0 < pow2 e"
  by (simp add: pow2_powi)

lemma pow2_neq0 [simp]: "pow2 e \<noteq> 0"
  using pow2_pos less_irrefl by metis

lemma pow2_add: "pow2 (a + b) = pow2 a * pow2 b"
  by (simp add: pow2_powi power_int_add)

lemma pow2_mono: "a \<le> b \<Longrightarrow> pow2 a \<le> pow2 b"
  by (simp add: pow2_powi power_int_increasing)

lemma pow2_strict: "pow2 a < pow2 b \<longleftrightarrow> a < b"
proof
  show "a < b \<Longrightarrow> pow2 a < pow2 b" by (simp add: pow2_powi power_int_strict_increasing)
  show "pow2 a < pow2 b \<Longrightarrow> a < b" by (metis pow2_mono not_le)
qed

lemma ilog2_bounds:
  assumes "0 < q" shows "pow2 (ilog2 q) \<le> q \<and> q < pow2 (ilog2 q + 1)"
proof -
  obtain a b where ab: "quotient_of q = (a, b)" by (cases "quotient_of q") auto
  have b: "0 < b" using ab by (rule quotient_of_denom_pos)
  have q: "q = of_int a / of_int b" using ab by (rule quotient_of_div)
  have a: "0 < a" using assms b by (simp add: q zero_less_divide_iff)
  have ba: "2 ^ nat (bitlen a - 1) \<le> a \<and> a < 2 ^ nat (bitlen a)" using a bitlen_bounds by blast
  have bb: "2 ^ nat (bitlen b - 1) \<le> b \<and> b < 2 ^ nat (bitlen b)" using b bitlen_bounds by blast
  have p: "0 < bitlen a" "0 < bitlen b"
    using a b bitlen_bounds [of a] bitlen_bounds [of b] bitlen_nonneg [of a] bitlen_nonneg [of b]
    by (auto simp: le_less)
  have A: "pow2 (bitlen a - 1) \<le> of_int a" "of_int a < pow2 (bitlen a)"
  proof -
    show "pow2 (bitlen a - 1) \<le> of_int a" using ba p of_int_le_iff [of "2 ^ nat (bitlen a - 1)" a, where ?'a = rat]
      by (simp add: pow2_def)
    show "of_int a < pow2 (bitlen a)" using ba p of_int_less_iff [of a "2 ^ nat (bitlen a)", where ?'a = rat]
      by (simp add: pow2_def)
  qed
  have B: "pow2 (bitlen b - 1) \<le> of_int b" "of_int b < pow2 (bitlen b)"
  proof -
    show "pow2 (bitlen b - 1) \<le> of_int b" using bb p of_int_le_iff [of "2 ^ nat (bitlen b - 1)" b, where ?'a = rat]
      by (simp add: pow2_def)
    show "of_int b < pow2 (bitlen b)" using bb p of_int_less_iff [of b "2 ^ nat (bitlen b)", where ?'a = rat]
      by (simp add: pow2_def)
  qed
  let ?e = "bitlen a - bitlen b"
  have bp: "(0::rat) < of_int b" using b by simp
  have hi: "q < pow2 (?e + 1)"
  proof -
    have "pow2 (?e + 1) * pow2 (bitlen b - 1) = pow2 (bitlen a)"
      by (simp flip: pow2_add)
    moreover have "pow2 (?e + 1) * pow2 (bitlen b - 1) \<le> pow2 (?e + 1) * of_int b"
      using B by (simp add: mult_left_mono)
    ultimately have "of_int a < pow2 (?e + 1) * of_int b" using A by linarith
    then show ?thesis using bp by (simp add: q divide_less_eq)
  qed
  have lo: "pow2 (?e - 1) \<le> q"
  proof -
    have "pow2 (?e - 1) * pow2 (bitlen b) = pow2 (bitlen a - 1)"
      by (simp flip: pow2_add)
    moreover have "pow2 (?e - 1) * of_int b \<le> pow2 (?e - 1) * pow2 (bitlen b)"
      using B by (simp add: mult_left_mono)
    ultimately have "pow2 (?e - 1) * of_int b \<le> of_int a" using A by linarith
    then show ?thesis using bp by (simp add: q le_divide_eq)
  qed
  show ?thesis
    using hi lo by (auto simp: ilog2_def ab Let_def)
qed

lemma ilog2_unique:
  assumes "pow2 e \<le> q" "q < pow2 (e + 1)" shows "ilog2 q = e"
proof -
  have "0 < q" using assms(1) pow2_pos less_le_trans by blast
  from ilog2_bounds [OF this] have "pow2 e < pow2 (ilog2 q + 1)" "pow2 (ilog2 q) < pow2 (e + 1)"
    using assms by linarith+
  then show ?thesis by (simp add: pow2_strict)
qed

lemma ilog2_mono:
  assumes "0 < p" "p \<le> q" shows "ilog2 p \<le> ilog2 q"
proof -
  have "pow2 (ilog2 p) < pow2 (ilog2 q + 1)"
    using ilog2_bounds [of p] ilog2_bounds [of q] assms by fastforce
  then show ?thesis by (simp add: pow2_strict)
qed

lemma round_even_int [simp]: "round_even (of_int n) = n"
  by (simp add: round_even_def)

lemma round_even_bounds: "\<lfloor>m\<rfloor> \<le> round_even m" "round_even m \<le> \<lfloor>m\<rfloor> + 1"
  by (simp_all add: round_even_def Let_def)

lemma round_even_mono: assumes "a \<le> b" shows "round_even a \<le> round_even b"
proof (cases "\<lfloor>a\<rfloor> = \<lfloor>b\<rfloor>")
  case True
  then show ?thesis using assms by (auto simp: round_even_def Let_def)
next
  case False
  then have "\<lfloor>a\<rfloor> + 1 \<le> \<lfloor>b\<rfloor>" using assms floor_mono [of a b] by linarith
  then show ?thesis using round_even_bounds(2) [of a] round_even_bounds(1) [of b] by linarith
qed

lemma round_even_le: "m \<le> of_int n \<Longrightarrow> round_even m \<le> n"
  using round_even_mono [of m "of_int n"] by simp

lemma round_even_ge: "of_int n \<le> m \<Longrightarrow> n \<le> round_even m"
  using round_even_mono [of "of_int n" m] by simp

lemma round64_pos:
  "0 < q \<Longrightarrow> round64 q = of_int (round_even (q / pow2 (exp64 q))) * pow2 (exp64 q)"
  by (simp add: round64_def)

lemma round64_0 [simp]: "round64 0 = 0"
  by (simp add: round64_def)

lemma round64_minus: "round64 (- q) = - round64 q"
  by (auto simp: round64_def)

lemma round64_nonneg: "0 \<le> q \<Longrightarrow> 0 \<le> round64 q"
proof (cases "q = 0")
  case False
  assume "0 \<le> q"
  with False have "0 < q" by simp
  then have "0 \<le> round_even (q / pow2 (exp64 q))"
    by (intro round_even_ge) (simp add: less_imp_le)
  then show ?thesis using \<open>0 < q\<close> by (simp add: round64_pos less_imp_le)
qed simp

lemma scaled_bounds:
  assumes "0 < q" shows "q / pow2 (exp64 q) < 2 ^ 53"
    and "- 1022 \<le> ilog2 q \<Longrightarrow> 2 ^ 52 \<le> q / pow2 (exp64 q)"
proof -
  have "q < pow2 (exp64 q + 53)"
    using ilog2_bounds [OF assms] pow2_mono [of "ilog2 q + 1" "exp64 q + 53"]
    by (simp add: exp64_def)
  also have "\<dots> = pow2 (exp64 q) * 2 ^ 53" unfolding pow2_add by (simp add: pow2_def)
  finally show "q / pow2 (exp64 q) < 2 ^ 53" by (simp add: divide_less_eq mult.commute)
  assume "- 1022 \<le> ilog2 q"
  then have "ilog2 q = exp64 q + 52" by (simp add: exp64_def)
  then have "pow2 (exp64 q) * 2 ^ 52 \<le> q"
    using ilog2_bounds [OF assms] pow2_add [of "exp64 q" 52] by (simp add: pow2_def)
  then show "2 ^ 52 \<le> q / pow2 (exp64 q)" by (simp add: le_divide_eq mult.commute)
qed

lemma round64_mono_pos:
  assumes p: "0 < p" and pq: "p \<le> q" shows "round64 p \<le> round64 q"
proof -
  have q: "0 < q" using assms by simp
  have ee: "exp64 p \<le> exp64 q" using ilog2_mono [OF p pq] by (simp add: exp64_def)
  show ?thesis
  proof (cases "exp64 p = exp64 q")
    case True
    have "round_even (p / pow2 (exp64 q)) \<le> round_even (q / pow2 (exp64 q))"
      by (rule round_even_mono) (simp add: divide_right_mono less_imp_le pq)
    then show ?thesis using True p q by (simp add: round64_pos mult_right_mono less_imp_le)
  next
    case False
    then have lt: "exp64 p + 1 \<le> exp64 q" using ee by simp
    then have big: "- 1022 \<le> ilog2 q" by (auto simp: exp64_def)
    have P: "round_even (p / pow2 (exp64 p)) \<le> 2 ^ 53"
      using scaled_bounds(1) [OF p] by (intro round_even_le) simp
    have Q: "2 ^ 52 \<le> round_even (q / pow2 (exp64 q))"
      using scaled_bounds(2) [OF q big] by (intro round_even_ge) simp
    have "round64 p \<le> 2 ^ 53 * pow2 (exp64 p)"
      using P of_int_le_iff [of _ "2 ^ 53", where ?'a = rat] p
      by (simp add: round64_pos mult_right_mono less_imp_le)
    also have "\<dots> = 2 ^ 52 * pow2 (exp64 p + 1)" unfolding pow2_add by (simp add: pow2_def)
    also have "\<dots> \<le> 2 ^ 52 * pow2 (exp64 q)" using pow2_mono [OF lt] by simp
    also have "\<dots> \<le> round64 q"
      using Q of_int_le_iff [of "2 ^ 52", where ?'a = rat] q
      by (simp add: round64_pos mult_right_mono less_imp_le)
    finally show ?thesis .
  qed
qed

lemma round64_mono: assumes "p \<le> q" shows "round64 p \<le> round64 q"
proof -
  consider "0 < p" | "p \<le> 0" "0 \<le> q" | "q < 0" by linarith
  then show ?thesis
  proof cases
    case 1 then show ?thesis using assms by (rule round64_mono_pos)
  next
    case 2
    then show ?thesis using round64_nonneg [of "- p"] round64_nonneg [of q]
      by (simp add: round64_minus)
  next
    case 3
    then show ?thesis using round64_mono_pos [of "- q" "- p"] assms by (simp add: round64_minus)
  qed
qed

lemma round64_representable:
  assumes n: "0 < n" "n \<le> 2 ^ 53" and k: "- 1074 \<le> k"
  shows "round64 (of_int n * pow2 k) = of_int n * pow2 k"
proof -
  have fits: "round64 (of_int m * pow2 j) = of_int m * pow2 j"
    if m: "0 < m" "m < 2 ^ 53" and j: "- 1074 \<le> j" for m j
  proof -
    let ?r = "of_int m * pow2 j"
    have r: "0 < ?r" using m by simp
    have "(of_int m :: rat) < 2 ^ 53" using m(2) of_int_less_iff [of m "2 ^ 53", where ?'a = rat] by simp
    then have "?r < 2 ^ 53 * pow2 j" by simp
    also have "\<dots> = pow2 (j + 53)" unfolding pow2_add by (simp add: pow2_def)
    finally have "pow2 (ilog2 ?r) < pow2 (j + 53)" using ilog2_bounds [OF r] by linarith
    then have le: "exp64 ?r \<le> j" using j by (simp add: pow2_strict exp64_def)
    define d where "d = nat (j - exp64 ?r)"
    have j': "j = exp64 ?r + int d" using le by (simp add: d_def)
    have pj: "pow2 j = pow2 (exp64 ?r) * 2 ^ d"
      using pow2_add [of "exp64 ?r" "int d"] j' by (simp add: pow2_def [of "int d"])
    have "?r = of_int (m * 2 ^ d) * pow2 (exp64 ?r)"
      by (subst pj) simp
    then have s: "?r / pow2 (exp64 ?r) = of_int (m * 2 ^ d)"
      using pow2_pos [of "exp64 ?r"] by (metis nonzero_mult_div_cancel_right less_irrefl)
    have "round64 ?r = of_int (round_even (?r / pow2 (exp64 ?r))) * pow2 (exp64 ?r)"
      using r by (rule round64_pos)
    also have "\<dots> = (?r / pow2 (exp64 ?r)) * pow2 (exp64 ?r)" by (simp only: s round_even_int)
    also have "\<dots> = ?r" by simp
    finally show ?thesis .
  qed
  show ?thesis
  proof (cases "n = 2 ^ 53")
    case True
    have "of_int n * pow2 k = of_int (2 ^ 52) * pow2 (k + 1)"
      unfolding pow2_add True by (simp add: pow2_def [of 1])
    then show ?thesis using fits [of "2 ^ 52" "k + 1"] k by simp
  next
    case False
    then show ?thesis using fits [of n k] n k by simp
  qed
qed

lemma round64_int: "\<bar>n\<bar> \<le> 2 ^ 53 \<Longrightarrow> round64 (of_int n) = of_int n"
proof -
  assume a: "\<bar>n\<bar> \<le> 2 ^ 53"
  consider "n = 0" | "0 < n" | "0 < - n" by linarith
  then show ?thesis
  proof cases
    case 2 then show ?thesis using round64_representable [of n 0] a by (simp add: pow2_def)
  next
    case 3
    then have "round64 (of_int (- n)) = of_int (- n)"
      using round64_representable [of "- n" 0] a by (simp add: pow2_def)
    then show ?thesis by (simp add: round64_minus)
  qed simp
qed

lemma round64_idem [simp]: "round64 (round64 q) = round64 q"
proof -
  have pos: "round64 (round64 x) = round64 x" if x: "0 < x" for x
  proof -
    let ?n = "round_even (x / pow2 (exp64 x))"
    have "0 \<le> ?n" using x by (intro round_even_ge) (simp add: less_imp_le)
    moreover have "?n \<le> 2 ^ 53" using scaled_bounds(1) [OF x] by (intro round_even_le) simp
    moreover have "- 1074 \<le> exp64 x" by (simp add: exp64_def)
    ultimately show ?thesis using round64_representable [of ?n "exp64 x"] x
      by (cases "?n = 0") (simp_all add: round64_pos)
  qed
  consider "q = 0" | "0 < q" | "0 < - q" by linarith
  then show ?thesis
  proof cases
    case 3 then show ?thesis using pos [of "- q"] by (simp add: round64_minus)
  qed (simp_all add: pos)
qed

definition is_float64 :: "rat \<Rightarrow> bool" where
  "is_float64 q \<longleftrightarrow> round64 q = q"

definition fadd :: "rat \<Rightarrow> rat \<Rightarrow> rat" where
  "fadd a b = round64 (a + b)"

definition fsub :: "rat \<Rightarrow> rat \<Rightarrow> rat" where
  "fsub a b = round64 (a - b)"

lemma fadd_float64 [simp]: "is_float64 (fadd a b)"
  by (simp add: is_float64_def fadd_def)

lemma is_float64_0 [simp]: "is_float64 0"
  by (simp add: is_float64_def)

lemma is_float64_1 [simp]: "is_float64 1"
  using round64_int [of 1] by (simp add: is_float64_def)

lemma fadd_mono: "a \<le> a' \<Longrightarrow> b \<le> b' \<Longrightarrow> fadd a b \<le> fadd a' b'"
  by (simp add: fadd_def round64_mono add_mono)

lemma fadd_ge: "is_float64 a \<Longrightarrow> 0 \<le> b \<Longrightarrow> a \<le> fadd a b"
  using round64_mono [of a "a + b"] by (simp add: is_float64_def fadd_def)

lemma fadd_0: "is_float64 a \<Longrightarrow> fadd a 0 = a"
  by (simp add: is_float64_def fadd_def)

text \<open>
  Evaluation: a sum or difference that is a small integer needs no rounding.
\<close>

lemma round64_code [code]:
  "round64 q = (let (a, b) = quotient_of q in
     if b = 1 \<and> \<bar>a\<bar> \<le> 2 ^ 53 then of_int a
     else if q = 0 then 0
     else if 0 < q then of_int (round_even (q / pow2 (exp64 q))) * pow2 (exp64 q)
     else - (of_int (round_even (- q / pow2 (exp64 (- q)))) * pow2 (exp64 (- q))))"
proof -
  obtain a b where ab: "quotient_of q = (a, b)" by (cases "quotient_of q") auto
  show ?thesis
  proof (cases "b = 1 \<and> \<bar>a\<bar> \<le> 2 ^ 53")
    case True
    then have "q = of_int a" using quotient_of_div [OF ab] by simp
    then show ?thesis using True ab round64_int [of a] by simp
  next
    case False
    then show ?thesis using ab by (auto simp: round64_def)
  qed
qed

end
