(* ===== verification/Prelude.thy ===== *)
theory Prelude
  imports Complex_Main "HOL-Library.List_Lexorder" "HOL-Library.Char_ord"
    "HOL-Library.Product_Lexorder" "HOL-Library.AList" "HOL-Library.Multiset"
begin

text \<open>
  What the components share: Go maps as association lists, the dynamic values (any) that travel
  as JSON, the slice and string helpers of Go's standard library the program calls, and a stable
  sort with the locale of the comparators it is given.
\<close>

subsection \<open>Collections of facts\<close>

named_theorems go_map \<open>lookup in Go maps\<close>
named_theorems go_slice \<open>slice helpers\<close>

type_synonym time = int \<comment> \<open>nanoseconds since the zero instant, so IsZero is t = 0\<close>

subsection \<open>Go maps\<close>

text \<open>
  A map is an association list: a lookup takes the first entry of a key, a write replaces it.
  The iteration order of Go is not used by the code modelled here: wherever it ranges over a map
  it sorts the keys or builds another map.
\<close>

type_synonym ('k, 'v) gomap = "('k \<times> 'v) list"

definition mput :: "'k \<Rightarrow> 'v \<Rightarrow> ('k, 'v) gomap \<Rightarrow> ('k, 'v) gomap" where
  "mput k v m = AList.update k v m"

definition mdel :: "'k \<Rightarrow> ('k, 'v) gomap \<Rightarrow> ('k, 'v) gomap" where
  "mdel k m = AList.delete k m"

definition mcopy :: "('k, 'v) gomap \<Rightarrow> ('k, 'v) gomap \<Rightarrow> ('k, 'v) gomap" where
  "mcopy dst src = foldr (\<lambda>(k, v). mput k v) src dst"

definition mkeys :: "('k::linorder, 'v) gomap \<Rightarrow> 'k list" where
  "mkeys m = sort (remdups (map fst m))"

definition msize :: "('k, 'v) gomap \<Rightarrow> nat" where
  "msize m = length (remdups (map fst m))"

lemma map_of_mput [simp, go_map]: "map_of (mput k v m) = (map_of m)(k \<mapsto> v)"
  by (simp add: mput_def update_conv')

lemma map_of_mdel [simp, go_map]: "map_of (mdel k m) = (map_of m)(k := None)"
  by (simp add: mdel_def delete_conv')

lemma map_of_mcopy [simp, go_map]: "map_of (mcopy dst src) = map_of dst ++ map_of src"
  by (induction src) (auto simp: mcopy_def fun_eq_iff map_add_def)

lemma set_mkeys [simp, go_map]: "set (mkeys m) = dom (map_of m)"
  by (simp add: mkeys_def dom_map_of_conv_image_fst)

lemma distinct_mkeys [simp, go_map]: "distinct (mkeys m)"
  by (simp add: mkeys_def)

lemma sorted_mkeys [simp, go_map]: "sorted (mkeys m)"
  by (simp add: mkeys_def)

lemma mkeys_cong: "dom (map_of m) = dom (map_of m') \<Longrightarrow> mkeys m = mkeys m'"
  by (rule sorted_distinct_set_unique) simp_all

lemma msize_card: "msize m = card (dom (map_of m))"
  by (simp add: msize_def length_remdups_card_conv dom_map_of_conv_image_fst)

lemma distinct_mput: "distinct (map fst m) \<Longrightarrow> distinct (map fst (mput k v m))"
  by (simp add: mput_def distinct_update)

lemma distinct_mdel: "distinct (map fst m) \<Longrightarrow> distinct (map fst (mdel k m))"
  by (simp add: mdel_def distinct_delete)

subsection \<open>Dynamic values\<close>

text \<open>
  An \<open>any\<close> of the code: nil, a boolean, a number, a string, the slices and maps it
  switches on, and a duration. Two values have the same JSON text when their JSON trees are equal
  (the keys of an object are sorted by the encoder). Numbers are compared by value; the text of a
  float64 above 2^53 and of the equal integer differ, which the tree does not tell.
\<close>

datatype gval = GNil | GBool bool | GInt int | GFloat rat | GStr string
  | GStrs "string list" | GList "gval list" | GMap "(string \<times> gval) list"
  | GStrMap "(string \<times> string) list" | GDur int

datatype json = JNull | JBool bool | JNum rat | JStr string
  | JArr "json list" | JObj "(string \<times> json) list"

definition obj :: "(string \<times> json) list \<Rightarrow> json" where
  "obj m = JObj (map (\<lambda>k. (k, the (map_of m k))) (mkeys m))"

primrec json_of :: "gval \<Rightarrow> json" where
  "json_of GNil = JNull"
| "json_of (GBool b) = JBool b"
| "json_of (GInt n) = JNum (of_int n)"
| "json_of (GFloat q) = JNum q"
| "json_of (GStr s) = JStr s"
| "json_of (GStrs ss) = JArr (map JStr ss)"
| "json_of (GList vs) = JArr (map json_of vs)"
| "json_of (GMap m) = obj (map (map_prod id json_of) m)"
| "json_of (GStrMap m) = obj (map (map_prod id JStr) m)"
| "json_of (GDur d) = JNum (of_int d)"

fun same_value :: "gval option \<Rightarrow> gval option \<Rightarrow> bool" where
  "same_value None None = True"
| "same_value (Some a) (Some b) = (json_of a = json_of b)"
| "same_value _ _ = False"

lemma same_value_alt: "same_value a b \<longleftrightarrow> map_option json_of a = map_option json_of b"
  by (cases a; cases b) auto

lemma same_value_refl [simp]: "same_value a a"
  by (simp add: same_value_alt)

lemma same_value_sym: "same_value a b \<Longrightarrow> same_value b a"
  by (simp add: same_value_alt)

lemma same_value_trans: "same_value a b \<Longrightarrow> same_value b c \<Longrightarrow> same_value a c"
  by (simp add: same_value_alt)

lemma same_value_None [simp]: "same_value None b \<longleftrightarrow> b = None" "same_value a None \<longleftrightarrow> a = None"
  by (cases b; simp) (cases a; simp)

text \<open>A map of properties may be nil (null in JSON) or empty (an empty object).\<close>

type_synonym props = "(string, gval) gomap option"

definition pmap :: "props \<Rightarrow> (string, gval) gomap" where
  "pmap p = (case p of None \<Rightarrow> [] | Some m \<Rightarrow> m)"

definition pget :: "props \<Rightarrow> string \<Rightarrow> gval option" where
  "pget p = map_of (pmap p)"

definition pany :: "props \<Rightarrow> gval" where
  "pany p = (case p of None \<Rightarrow> GNil | Some m \<Rightarrow> GMap m)"

lemma pmap_simps [simp]: "pmap None = []" "pmap (Some m) = m"
  by (simp_all add: pmap_def)

lemma pget_simps [simp]: "pget None k = None" "pget (Some m) k = map_of m k"
  by (simp_all add: pget_def)

lemma pany_simps [simp]: "pany None = GNil" "pany (Some m) = GMap m"
  by (simp_all add: pany_def)

subsection \<open>Type assertions\<close>

text \<open>The comma-ok form with the result dropped: the zero value when the type differs.\<close>

fun str_of :: "gval option \<Rightarrow> string" where
  "str_of (Some (GStr s)) = s"
| "str_of _ = []"

fun bool_of :: "gval option \<Rightarrow> bool" where
  "bool_of (Some (GBool b)) = b"
| "bool_of _ = False"

fun as_str :: "gval \<Rightarrow> string option" where
  "as_str (GStr s) = Some s"
| "as_str _ = None"

fun strs_of :: "gval option \<Rightarrow> string list" where
  "strs_of (Some (GStrs ss)) = ss"
| "strs_of (Some (GList vs)) = List.map_filter as_str vs"
| "strs_of _ = []"

fun map_of_val :: "gval option \<Rightarrow> (string, gval) gomap option" where
  "map_of_val (Some (GMap m)) = Some m"
| "map_of_val _ = None"

subsection \<open>Slices\<close>

fun index_of :: "('a \<Rightarrow> bool) \<Rightarrow> 'a list \<Rightarrow> nat option" where
  "index_of p [] = None"
| "index_of p (x # xs) = (if p x then Some 0 else map_option Suc (index_of p xs))"

definition delete_at :: "nat \<Rightarrow> 'a list \<Rightarrow> 'a list" where
  "delete_at i xs = take i xs @ drop (Suc i) xs"

lemma index_of_None [go_slice]: "index_of p xs = None \<longleftrightarrow> (\<forall>x \<in> set xs. \<not> p x)"
  by (induction xs) auto

lemma index_of_Some:
  "index_of p xs = Some i \<Longrightarrow> i < length xs \<and> p (xs ! i) \<and> (\<forall>j < i. \<not> p (xs ! j))"
proof (induction xs arbitrary: i)
  case Nil
  then show ?case by simp
next
  case (Cons x xs)
  show ?case
  proof (cases "p x")
    case True
    with Cons.prems show ?thesis by simp
  next
    case False
    with Cons.prems obtain j where j: "index_of p xs = Some j" "i = Suc j" by auto
    show ?thesis
      unfolding j(2) using Cons.IH [OF j(1)] False
      by (auto simp: nth_Cons split: nat.splits)
  qed
qed

lemma index_of_find: "map_option (\<lambda>i. xs ! i) (index_of p xs) = find p xs"
  by (induction xs) (auto simp: option.map_comp comp_def)

lemma length_delete_at [go_slice]: "i < length xs \<Longrightarrow> length (delete_at i xs) = length xs - 1"
  by (simp add: delete_at_def)

lemma delete_at_Cons [simp, go_slice]:
  "delete_at 0 (x # xs) = xs" "delete_at (Suc i) (x # xs) = x # delete_at i xs"
  by (simp_all add: delete_at_def)

lemma mset_delete_at: "i < length xs \<Longrightarrow> mset xs = add_mset (xs ! i) (mset (delete_at i xs))"
  by (subst id_take_nth_drop [of i xs]) (simp_all add: delete_at_def)

lemma set_delete_at_subset: "set (delete_at i xs) \<subseteq> set xs"
  by (auto simp: delete_at_def dest: in_set_takeD in_set_dropD)

lemma index_of_update: "i < length xs \<Longrightarrow> k x = k (xs ! i)
    \<Longrightarrow> index_of (\<lambda>s. k s = y) (xs[i := x]) = index_of (\<lambda>s. k s = y) xs"
proof (induction xs arbitrary: i)
  case (Cons a xs)
  then show ?case by (cases i) simp_all
qed simp

lemma index_of_snoc: "index_of p (xs @ [x]) = (case index_of p xs of Some i \<Rightarrow> Some i
    | None \<Rightarrow> if p x then Some (length xs) else None)"
  by (induction xs) (auto split: option.splits)

text \<open>
  A slice with the map of the positions of its keys, which the code keeps beside it: the keys are
  distinct and the map holds the position of each.
\<close>

definition indexed :: "('a \<Rightarrow> 'k) \<Rightarrow> ('k, nat) gomap \<Rightarrow> 'a list \<Rightarrow> bool" where
  "indexed key pos xs \<longleftrightarrow> distinct (map key xs) \<and> (\<forall>k. map_of pos k = index_of (\<lambda>x. key x = k) xs)"

lemma indexed_Nil [simp]: "indexed key [] []"
  by (simp add: indexed_def)

lemma indexed_distinct: "indexed key pos xs \<Longrightarrow> distinct (map key xs)"
  by (simp add: indexed_def)

lemma indexed_Some: "indexed key pos xs \<Longrightarrow> map_of pos k = Some i \<Longrightarrow> i < length xs \<and> key (xs ! i) = k"
  using index_of_Some [of "\<lambda>x. key x = k" xs i] by (simp add: indexed_def)

lemma indexed_None: "indexed key pos xs \<Longrightarrow> map_of pos k = None \<longleftrightarrow> k \<notin> key ` set xs"
  by (auto simp: indexed_def index_of_None)

lemma indexed_nth:
  assumes "indexed key pos xs" and "i < length xs"
  shows "map_of pos (key (xs ! i)) = Some i"
proof -
  obtain j where j: "map_of pos (key (xs ! i)) = Some j"
    using assms by (metis image_eqI indexed_None not_None_eq nth_mem)
  then have "j < length xs" "map key xs ! j = map key xs ! i"
    using indexed_Some [OF assms(1) j] assms(2) by simp_all
  then show ?thesis using j assms by (metis indexed_distinct length_map nth_eq_iff_index_eq)
qed

lemma indexed_keys: "indexed key pos xs \<longleftrightarrow> indexed (\<lambda>k. k) pos (map key xs)"
proof -
  have "index_of (\<lambda>x. key x = k) xs = index_of (\<lambda>i. i = k) (map key xs)" for k by (induction xs) auto
  then show ?thesis by (simp add: indexed_def)
qed

lemma indexed_update: "indexed key pos xs \<Longrightarrow> i < length xs \<Longrightarrow> key x = key (xs ! i) \<Longrightarrow> indexed key pos (xs[i := x])"
  by (simp add: indexed_def index_of_update) (metis list_update_id map_update)

lemma indexed_snoc:
  assumes "indexed key pos xs" and "map_of pos (key x) = None"
  shows "indexed key (mput (key x) (length xs) pos) (xs @ [x])"
proof -
  have "key x \<notin> key ` set xs" using assms indexed_None by metis
  then show ?thesis using assms by (auto simp: indexed_def index_of_snoc split: option.splits)
qed

subsection \<open>Strings\<close>

text \<open>
  strings.Cut on a one-character separator, and strings.TrimSpace (the white space of ASCII).
\<close>

fun cut :: "char \<Rightarrow> string \<Rightarrow> (string \<times> string) option" where
  "cut c [] = None"
| "cut c (x # xs) = (if x = c then Some ([], xs) else map_option (apfst (Cons x)) (cut c xs))"

definition is_space :: "char \<Rightarrow> bool" where
  "is_space c \<longleftrightarrow> c \<in> set [CHR 0x20, CHR 0x09, CHR 0x0A, CHR 0x0B, CHR 0x0C, CHR 0x0D]"

definition trim :: "string \<Rightarrow> string" where
  "trim s = rev (dropWhile is_space (rev (dropWhile is_space s)))"

lemma cut_append: "c \<notin> set a \<Longrightarrow> cut c (a @ c # b) = Some (a, b)"
  by (induction a) auto

lemma cut_None: "cut c s = None \<longleftrightarrow> c \<notin> set s"
  by (induction s) auto

lemma cut_SomeD: "cut c s = Some (a, b) \<Longrightarrow> s = a @ c # b \<and> c \<notin> set a"
  by (induction s arbitrary: a) (auto split: if_splits)

lemma cut_Some: "cut c s = Some (a, b) \<longleftrightarrow> s = a @ c # b \<and> c \<notin> set a"
  using cut_SomeD cut_append by metis

lemma trim_idem [simp]: "trim (trim s) = trim s"
proof -
  have "dropWhile is_space (rev (dropWhile is_space (rev t))) = rev (dropWhile is_space (rev t))"
    if t: "dropWhile is_space t = t" for t
  proof (cases "dropWhile is_space (rev t) = []")
    case True then show ?thesis by (metis dropWhile.simps(1) rev.simps(1))
  next
    case False
    obtain p where p: "rev t = p @ dropWhile is_space (rev t)" by (metis takeWhile_dropWhile_id)
    then have "t = rev (dropWhile is_space (rev t)) @ rev p" by (metis rev_append rev_rev_ident)
    then have "hd t = hd (rev (dropWhile is_space (rev t)))" "t \<noteq> []"
      using False by (metis hd_append2 rev_is_Nil_conv, metis False append_is_Nil_conv rev_is_Nil_conv)
    moreover from this(2) have "\<not> is_space (hd t)" using t by (metis hd_dropWhile)
    ultimately have "\<not> is_space (hd (rev (dropWhile is_space (rev t))))" by simp
    then show ?thesis using False by (cases "rev (dropWhile is_space (rev t))") auto
  qed
  then show ?thesis by (simp add: trim_def dropWhile_idem)
qed

subsection \<open>Stable sort\<close>

text \<open>sort.SliceStable and slices.SortStableFunc, on the less function they are given.\<close>

fun ins_by :: "('a \<Rightarrow> 'a \<Rightarrow> bool) \<Rightarrow> 'a \<Rightarrow> 'a list \<Rightarrow> 'a list" where
  "ins_by lt x [] = [x]"
| "ins_by lt x (y # ys) = (if lt y x then y # ins_by lt x ys else x # y # ys)"

definition stable_sort :: "('a \<Rightarrow> 'a \<Rightarrow> bool) \<Rightarrow> 'a list \<Rightarrow> 'a list" where
  "stable_sort lt xs = foldr (ins_by lt) xs []"

lemma mset_ins_by: "mset (ins_by lt x ys) = add_mset x (mset ys)"
  by (induction ys) auto

lemma mset_stable_sort [simp]: "mset (stable_sort lt xs) = mset xs"
  by (induction xs) (simp_all add: stable_sort_def mset_ins_by)

lemma set_stable_sort [simp]: "set (stable_sort lt xs) = set xs"
  by (metis mset_stable_sort set_mset_mset)

lemma length_stable_sort [simp]: "length (stable_sort lt xs) = length xs"
  by (metis mset_stable_sort size_mset)

text \<open>What a comparator promises: a strict weak order.\<close>

locale weak_order =
  fixes lt :: "'a \<Rightarrow> 'a \<Rightarrow> bool"
  assumes asym: "lt x y \<Longrightarrow> \<not> lt y x"
    and neg_trans: "\<not> lt y x \<Longrightarrow> \<not> lt z y \<Longrightarrow> \<not> lt z x"
begin

lemma ins_sorted:
  "sorted_wrt (\<lambda>a b. \<not> lt b a) ys \<Longrightarrow> sorted_wrt (\<lambda>a b. \<not> lt b a) (ins_by lt x ys)"
proof (induction ys)
  case Nil
  then show ?case by simp
next
  case (Cons y ys)
  have s: "set (ins_by lt x ys) = insert x (set ys)"
    by (metis mset_ins_by set_mset_add_mset_insert set_mset_mset)
  show ?case
  proof (cases "lt y x")
    case True
    then show ?thesis using Cons s asym by auto
  next
    case False
    then show ?thesis using Cons.prems neg_trans [of y x] by auto
  qed
qed

lemma sort_sorted: "sorted_wrt (\<lambda>a b. \<not> lt b a) (stable_sort lt xs)"
  by (induction xs) (simp_all add: stable_sort_def ins_sorted)

lemma sort_head_least:
  "xs \<noteq> [] \<Longrightarrow> y \<in> set xs \<Longrightarrow> \<not> lt y (hd (stable_sort lt xs))"
proof -
  assume ne: "xs \<noteq> []" and y: "y \<in> set xs"
  have irr: "\<not> lt z z" for z using asym by blast
  obtain h t where ht: "stable_sort lt xs = h # t"
    using ne by (metis length_0_conv length_stable_sort neq_Nil_conv)
  have "y \<in> set (h # t)" using y ht by (metis set_stable_sort)
  then show ?thesis using sort_sorted [of xs] irr ht by auto
qed

lemma sort_head_in: "xs \<noteq> [] \<Longrightarrow> hd (stable_sort lt xs) \<in> set xs"
  by (metis hd_in_set length_0_conv length_stable_sort set_stable_sort)

end

text \<open>A comparator through a key of a linear order is a strict weak order.\<close>

lemma weak_order_key: "weak_order (\<lambda>x y. f x < (f y :: 'b::linorder))"
  by unfold_locales auto

end
