(* ===== verification/Heap.thy ===== *)
theory Heap
  imports Prelude
begin

text \<open>
  The binary heap of Go's container/heap on the slice it is given, as the planner uses it: up,
  down, Push and Pop, with the loops of the library. The lemmas are proved once for any strict
  weak order and used through the planner's own order.
\<close>

definition swap :: "nat \<Rightarrow> nat \<Rightarrow> 'a list \<Rightarrow> 'a list" where
  "swap i j h = h[i := h ! j, j := h ! i]"

definition parent :: "nat \<Rightarrow> nat" where
  "parent j = (j - 1) div 2"

lemma parent_less [simp]: "0 < j \<Longrightarrow> parent j < j"
  by (simp add: parent_def)

function heap_up :: "('a \<Rightarrow> 'a \<Rightarrow> bool) \<Rightarrow> 'a list \<Rightarrow> nat \<Rightarrow> 'a list" where
  "heap_up lt h j = (let i = parent j in
     if i = j \<or> \<not> lt (h ! j) (h ! i) then h else heap_up lt (swap i j h) i)"
  by pat_completeness auto
termination
  by (relation "measure (\<lambda>(lt, h, j). j)") (auto simp: parent_def)

function heap_down :: "('a \<Rightarrow> 'a \<Rightarrow> bool) \<Rightarrow> 'a list \<Rightarrow> nat \<Rightarrow> nat \<Rightarrow> 'a list" where
  "heap_down lt h i n = (let j1 = 2 * i + 1 in
     if n \<le> j1 then h
     else let j = (if j1 + 1 < n \<and> lt (h ! (j1 + 1)) (h ! j1) then j1 + 1 else j1) in
       if \<not> lt (h ! j) (h ! i) then h else heap_down lt (swap i j h) j n)"
  by pat_completeness auto
termination
  by (relation "measure (\<lambda>(lt, h, i, n). n - i)") auto

declare heap_up.simps [simp del] heap_down.simps [simp del]

definition heap_push :: "('a \<Rightarrow> 'a \<Rightarrow> bool) \<Rightarrow> 'a \<Rightarrow> 'a list \<Rightarrow> 'a list" where
  "heap_push lt x h = heap_up lt (h @ [x]) (length h)"

definition heap_pop :: "('a \<Rightarrow> 'a \<Rightarrow> bool) \<Rightarrow> 'a list \<Rightarrow> 'a \<times> 'a list" where
  "heap_pop lt h = (let n = length h - 1; h' = heap_down lt (swap 0 n h) 0 n
     in (h' ! n, take n h'))"

lemma length_swap [simp]: "length (swap i j h) = length h"
  by (simp add: swap_def)

lemma mset_swap_eq [simp]: "i < length h \<Longrightarrow> j < length h \<Longrightarrow> mset (swap i j h) = mset h"
  by (simp add: swap_def mset_swap)

lemma nth_swap: "i < length h \<Longrightarrow> j < length h \<Longrightarrow>
    swap i j h ! k = (if k = i then h ! j else if k = j then h ! i else h ! k)"
  by (auto simp: swap_def nth_list_update)

lemma heap_up_mset: "j < length h \<Longrightarrow>
    mset (heap_up lt h j) = mset h \<and> length (heap_up lt h j) = length h"
proof (induction lt h j rule: heap_up.induct)
  case (1 lt h j)
  show ?case
  proof (cases "parent j = j \<or> \<not> lt (h ! j) (h ! parent j)")
    case True
    then show ?thesis by (subst (1 2) heap_up.simps) (simp add: Let_def)
  next
    case False
    then have p: "parent j < length h"
      using "1.prems" by (metis le_less_trans not_le parent_less less_imp_le neq0_conv parent_def
          diff_is_0_eq' div_0 less_or_eq_imp_le)
    with 1 False show ?thesis by (subst (1 2) heap_up.simps) (simp add: Let_def)
  qed
qed

lemma heap_down_mset: "i < n \<Longrightarrow> n \<le> length h \<Longrightarrow>
    mset (heap_down lt h i n) = mset h \<and> length (heap_down lt h i n) = length h
    \<and> (\<forall>k \<ge> n. heap_down lt h i n ! k = h ! k)"
proof (induction lt h i n rule: heap_down.induct)
  case (1 lt h i n)
  define j where "j = (if 2 * i + 1 + 1 < n \<and> lt (h ! (2 * i + 1 + 1)) (h ! (2 * i + 1))
      then 2 * i + 1 + 1 else 2 * i + 1)"
  have eq: "heap_down lt h i n = (if n \<le> 2 * i + 1 \<or> \<not> lt (h ! j) (h ! i) then h
      else heap_down lt (swap i j h) j n)"
    by (subst heap_down.simps) (simp add: Let_def j_def)
  show ?case
  proof (cases "n \<le> 2 * i + 1 \<or> \<not> lt (h ! j) (h ! i)")
    case True
    then show ?thesis by (simp add: eq)
  next
    case False
    then have j: "j < n" "j \<noteq> i" by (auto simp: j_def)
    have "mset (heap_down lt (swap i j h) j n) = mset (swap i j h)
        \<and> length (heap_down lt (swap i j h) j n) = length (swap i j h)
        \<and> (\<forall>k \<ge> n. heap_down lt (swap i j h) j n ! k = swap i j h ! k)"
      using False j "1.prems" by (intro "1.IH" [OF refl _ j_def]) auto
    then show ?thesis using False j "1.prems" by (simp add: eq nth_swap)
  qed
qed

context weak_order
begin

definition le :: "'a \<Rightarrow> 'a \<Rightarrow> bool" where
  "le a b \<longleftrightarrow> \<not> lt b a"

definition heap :: "'a list \<Rightarrow> nat \<Rightarrow> bool" where
  "heap h n \<longleftrightarrow> (\<forall>k. 0 < k \<and> k < n \<longrightarrow> le (h ! parent k) (h ! k))"

definition up_inv :: "'a list \<Rightarrow> nat \<Rightarrow> nat \<Rightarrow> bool" where
  "up_inv h j n \<longleftrightarrow> (\<forall>k. 0 < k \<and> k < n \<and> k \<noteq> j \<longrightarrow> le (h ! parent k) (h ! k))
     \<and> (\<forall>k. 0 < k \<and> k < n \<and> parent k = j \<and> 0 < j \<longrightarrow> le (h ! parent j) (h ! k))"

definition down_inv :: "'a list \<Rightarrow> nat \<Rightarrow> nat \<Rightarrow> bool" where
  "down_inv h i n \<longleftrightarrow> (\<forall>k. 0 < k \<and> k < n \<and> parent k \<noteq> i \<longrightarrow> le (h ! parent k) (h ! k))
     \<and> (\<forall>k. 0 < k \<and> k < n \<and> parent k = i \<and> 0 < i \<longrightarrow> le (h ! parent i) (h ! k))"

lemma le_refl: "le a a"
  using asym by (auto simp: le_def)

lemma le_trans: "le a b \<Longrightarrow> le b c \<Longrightarrow> le a c"
  using neg_trans by (auto simp: le_def)

lemma lt_le: "lt a b \<Longrightarrow> le a b"
  using asym by (auto simp: le_def)

lemma heap_root: "heap h n \<Longrightarrow> k < n \<Longrightarrow> le (h ! 0) (h ! k)"
proof (induction k rule: less_induct)
  case (less k)
  show ?case
  proof (cases "k = 0")
    case True then show ?thesis by (simp add: le_refl)
  next
    case False
    then have "le (h ! 0) (h ! parent k)" using less by (meson less_trans neq0_conv parent_less)
    moreover have "le (h ! parent k) (h ! k)" using False less.prems by (simp add: heap_def)
    ultimately show ?thesis by (rule le_trans)
  qed
qed

lemma up_inv_swap:
  assumes inv: "up_inv h j n" and j: "0 < j" "j < n" "n \<le> length h" and l: "lt (h ! j) (h ! parent j)"
  shows "up_inv (swap (parent j) j h) (parent j) n"
proof -
  let ?i = "parent j" and ?h = "swap (parent j) j h"
  have i: "?i < j" using j by simp
  have nth: "?h ! k = (if k = ?i then h ! j else if k = j then h ! ?i else h ! k)" for k
    using i j less_trans [OF i j(2)] by (simp add: nth_swap)
  have up: "le (h ! parent k) (h ! k)" if "0 < k" "k < n" "k \<noteq> j" for k
    using inv that by (simp add: up_inv_def)
  have gp: "le (h ! ?i) (h ! k)" if "0 < k" "k < n" "parent k = j" for k
    using inv that j by (simp add: up_inv_def)
  have "le (?h ! parent k) (?h ! k)" if k: "0 < k" "k < n" "k \<noteq> ?i" for k
  proof -
    have pk: "parent k < k" using k by simp
    consider "k = j" | "k \<noteq> j" "parent k = j" | "k \<noteq> j" "parent k = ?i"
      | "k \<noteq> j" "parent k \<noteq> j" "parent k \<noteq> ?i" by blast
    then show ?thesis
    proof cases
      case 1 then show ?thesis using i l by (simp add: nth lt_le)
    next
      case 2 then show ?thesis using i k gp [OF k(1,2)] pk by (simp add: nth)
    next
      case 3 then show ?thesis using i k up [OF k(1,2)] lt_le [OF l] le_trans by (auto simp: nth)
    next
      case 4 then show ?thesis using k up [OF k(1,2)] by (simp add: nth)
    qed
  qed
  moreover have "le (?h ! parent ?i) (?h ! k)" if k: "0 < k" "k < n" "parent k = ?i" "0 < ?i" for k
  proof -
    have pi: "parent ?i < ?i" using k by simp
    have a: "le (h ! parent ?i) (h ! ?i)" using up [of ?i] i j k by simp
    show ?thesis
    proof (cases "k = j")
      case True then show ?thesis using a pi i by (simp add: nth)
    next
      case False
      have "k \<noteq> ?i" using k parent_less [of k] by auto
      then show ?thesis using False a up [OF k(1,2) False] k(3) pi i le_trans by (auto simp: nth)
    qed
  qed
  ultimately show ?thesis by (simp add: up_inv_def)
qed

lemma heap_up_heap: "up_inv h j n \<Longrightarrow> j < n \<Longrightarrow> n \<le> length h \<Longrightarrow> heap (heap_up lt h j) n"
proof (induction j arbitrary: h rule: less_induct)
  case (less j)
  show ?case
  proof (cases "parent j = j \<or> \<not> lt (h ! j) (h ! parent j)")
    case True
    have "heap h n"
    proof (cases "j = 0")
      case True then show ?thesis using less.prems by (simp add: up_inv_def heap_def)
    next
      case False
      then have "parent j \<noteq> j" by (metis less_irrefl neq0_conv parent_less)
      then have "le (h ! parent j) (h ! j)" using True by (simp add: le_def)
      then show ?thesis using less.prems by (auto simp: up_inv_def heap_def)
    qed
    then show ?thesis using True by (subst heap_up.simps) (simp add: Let_def)
  next
    case False
    then have j: "0 < j" by (auto simp: parent_def)
    then have "heap (heap_up lt (swap (parent j) j h) (parent j)) n"
      using less False up_inv_swap [of h j n] by (intro less.IH) (simp_all add: less_trans [OF parent_less])
    then show ?thesis using False by (subst heap_up.simps) (simp add: Let_def)
  qed
qed

lemma down_inv_swap:
  assumes inv: "down_inv h i n" and j: "parent j = i" "0 < j" "j < n" "n \<le> length h"
    and l: "lt (h ! j) (h ! i)" and least: "\<And>k. 0 < k \<Longrightarrow> k < n \<Longrightarrow> parent k = i \<Longrightarrow> le (h ! j) (h ! k)"
  shows "down_inv (swap i j h) j n"
proof -
  have i: "i < j" using parent_less [of j] j by simp
  have nth: "swap i j h ! k = (if k = i then h ! j else if k = j then h ! i else h ! k)" for k
    using i j by (simp add: nth_swap)
  have dn: "le (h ! parent k) (h ! k)" if "0 < k" "k < n" "parent k \<noteq> i" for k
    using inv that by (simp add: down_inv_def)
  have gp: "le (h ! parent i) (h ! k)" if "0 < k" "k < n" "parent k = i" "0 < i" for k
    using inv that by (simp add: down_inv_def)
  have "le (swap i j h ! parent k) (swap i j h ! k)" if k: "0 < k" "k < n" "parent k \<noteq> j" for k
  proof -
    have pk: "parent k < k" using k by simp
    consider "k = j" | "k \<noteq> j" "parent k = i" | "k = i" | "k \<noteq> j" "k \<noteq> i" "parent k \<noteq> i" by blast
    then show ?thesis
    proof cases
      case 1 then show ?thesis using i j l by (simp add: nth lt_le)
    next
      case 2 then show ?thesis using k least [OF k(1,2)] pk by (simp add: nth)
    next
      case 3 then show ?thesis using k gp [of j] j pk by (simp add: nth)
    next
      case 4 then show ?thesis using k dn [OF k(1,2)] by (simp add: nth)
    qed
  qed
  moreover have "le (swap i j h ! parent j) (swap i j h ! k)" if k: "0 < k" "k < n" "parent k = j" for k
  proof -
    have "j < k" using parent_less [of k] k by simp
    then show ?thesis using i j k dn [of k] by (simp add: nth)
  qed
  ultimately show ?thesis by (simp add: down_inv_def)
qed

lemma heap_down_heap: "down_inv h i n \<Longrightarrow> n \<le> length h \<Longrightarrow> heap (heap_down lt h i n) n"
proof (induction "n - i" arbitrary: h i rule: less_induct)
  case less
  define j where "j = (if 2 * i + 1 + 1 < n \<and> lt (h ! (2 * i + 1 + 1)) (h ! (2 * i + 1))
      then 2 * i + 1 + 1 else 2 * i + 1)"
  have eq: "heap_down lt h i n = (if n \<le> 2 * i + 1 \<or> \<not> lt (h ! j) (h ! i) then h
      else heap_down lt (swap i j h) j n)"
    by (subst heap_down.simps) (simp add: Let_def j_def)
  have kids: "parent k = i \<and> 0 < k \<longleftrightarrow> k = 2 * i + 1 \<or> k = 2 * i + 2" for k
    by (auto simp: parent_def)
  have least: "le (h ! j) (h ! k)" if "0 < k" "k < n" "parent k = i" for k
    using that kids [of k] by (auto simp: j_def le_refl lt_le) (auto simp: le_def)
  show ?case
  proof (cases "n \<le> 2 * i + 1 \<or> \<not> lt (h ! j) (h ! i)")
    case True
    have "le (h ! parent k) (h ! k)" if k: "0 < k" "k < n" for k
    proof (cases "parent k = i")
      case True': True
      then have "\<not> n \<le> 2 * i + 1" using kids [of k] k by auto
      then have "le (h ! i) (h ! j)" using True by (auto simp: le_def)
      then show ?thesis using least [OF k True'] True' le_trans by simp
    next
      case False then show ?thesis using less.prems k by (simp add: down_inv_def)
    qed
    then show ?thesis using True by (simp add: eq heap_def)
  next
    case False
    then have j: "j < n" "parent j = i" "0 < j" "i < j" by (auto simp: j_def parent_def)
    then have "down_inv (swap i j h) j n"
      using less.prems False least by (intro down_inv_swap) auto
    then have "heap (heap_down lt (swap i j h) j n) n"
      using less.prems j by (intro less.hyps) auto
    then show ?thesis using False by (simp add: eq)
  qed
qed

lemma push_heap: "heap h (length h) \<Longrightarrow>
    heap (heap_push lt x h) (Suc (length h)) \<and> mset (heap_push lt x h) = add_mset x (mset h)
    \<and> length (heap_push lt x h) = Suc (length h)"
proof -
  assume "heap h (length h)"
  have "le ((h @ [x]) ! parent k) ((h @ [x]) ! k)" if "0 < k" "k < length h" for k
    using that \<open>heap h (length h)\<close> less_trans [OF parent_less, of k "length h"]
    by (simp add: heap_def nth_append)
  moreover have "parent k \<noteq> length h" if "0 < k" "k < Suc (length h)" for k
    using parent_less [OF that(1)] that(2) by linarith
  ultimately have "up_inv (h @ [x]) (length h) (Suc (length h))"
    by (auto simp: up_inv_def)
  then show ?thesis
    using heap_up_heap [of "h @ [x]" "length h" "Suc (length h)"] heap_up_mset [of "length h" "h @ [x]"]
    by (simp add: heap_push_def)
qed

lemma pop_heap:
  assumes h: "heap h (length h)" "h \<noteq> []" and pop: "heap_pop lt h = (x, h')"
  shows "heap h' (length h')" and "mset h = add_mset x (mset h')"
    and "length h = Suc (length h')" and "y \<in> set h \<Longrightarrow> le x y"
proof -
  define n where "n = length h - 1"
  have n: "n < length h" "length h = Suc n" using h by (simp_all add: n_def)
  let ?s = "swap 0 n h"
  let ?d = "heap_down lt ?s 0 n"
  have nth: "?s ! k = (if k = 0 then h ! n else if k = n then h ! 0 else h ! k)" for k
    using n by (simp add: nth_swap)
  have "le (?s ! parent k) (?s ! k)" if k: "0 < k" "k < n" "parent k \<noteq> 0" for k
    using h(1) n k less_trans [OF parent_less [OF k(1)] k(2)] by (simp add: nth heap_def)
  then have "down_inv ?s 0 n" by (simp add: down_inv_def)
  then have hp: "heap ?d n" using n by (intro heap_down_heap) simp_all
  have d: "mset ?d = mset h \<and> length ?d = Suc n \<and> ?d ! n = h ! 0"
  proof (cases "n = 0")
    case True
    then have "?d = ?s" by (subst heap_down.simps) simp
    then show ?thesis using True n by (simp add: swap_def)
  next
    case False
    then show ?thesis using heap_down_mset [of 0 n ?s lt] n by (simp add: nth)
  qed
  have x: "x = h ! 0" and h': "h' = take n ?d"
    using pop d by (simp_all add: heap_pop_def n_def Let_def)
  show len: "length h = Suc (length h')" using d n h' by simp
  show "heap h' (length h')" using hp d h' by (simp add: heap_def less_trans [OF parent_less])
  have "?d = h' @ [?d ! n]" using d h' by (metis take_Suc_conv_app_nth lessI take_all_iff order_refl)
  then have "mset ?d = add_mset (?d ! n) (mset h')"
    by (metis mset_append mset.simps(1,2) union_mset_add_mset_right add.right_neutral)
  then show "mset h = add_mset x (mset h')" using d x by simp
  show "y \<in> set h \<Longrightarrow> le x y"
    using heap_root [OF h(1)] x by (auto simp: in_set_conv_nth)
qed

end

end
