(* ===== verification/Planner.thy ===== *)
theory Planner
  imports Float64 Heap
begin

text \<open>
  engine/goap/planner.go: the A* planner over boolean world states. A world state maps condition
  names to truth values, an absent name is unknown. The open list is the heap of container/heap,
  the cheapest known cost of a state is kept by the text key of the state, costs are float64.
\<close>

subsection \<open>World states\<close>

type_synonym world = "(string, bool) gomap"

definition satisfies :: "world \<Rightarrow> world \<Rightarrow> bool" where
  "satisfies w req = list_all (\<lambda>k. map_of w k = map_of req k) (mkeys req)"

definition unsatisfied :: "world \<Rightarrow> world \<Rightarrow> nat" where
  "unsatisfied w req = length (filter (\<lambda>k. map_of w k \<noteq> map_of req k) (mkeys req))"

definition apply_effects :: "world \<Rightarrow> world \<Rightarrow> world" where
  "apply_effects w effects = mcopy w effects"

definition world_key :: "world \<Rightarrow> string" where
  "world_key w = concat (map (\<lambda>k. k @ (if map_of w k = Some True then ''=1;'' else ''=0;'')) (mkeys w))"

subsection \<open>Actions, goals, plans\<close>

record action =
  a_name :: string
  a_pre :: world
  a_effects :: world
  a_cost :: rat

record goal =
  g_name :: string
  g_pre :: world
  g_value :: rat

record goal_plan =
  p_goal :: goal
  p_actions :: "action list"
  p_cost :: rat

definition net_value :: "goal_plan \<Rightarrow> rat" where
  "net_value p = fsub (g_value (p_goal p)) (p_cost p)"

definition cost :: "action \<Rightarrow> rat" where
  "cost a = (if a_cost a \<le> 0 then 1 else a_cost a)"

datatype plan_error = NoPlan | SearchExceeded nat

subsection \<open>The open list\<close>

datatype search_node = Node (nstate: world) (ng: rat) (nparent: "search_node option") (naction: "action option")

record pq_item =
  it_node :: search_node
  priority :: rat
  tie :: string
  seq :: nat

definition pq_less :: "pq_item \<Rightarrow> pq_item \<Rightarrow> bool" where
  "pq_less a b = (if priority a \<noteq> priority b then priority a < priority b
     else if tie a \<noteq> tie b then tie a < tie b else seq a < seq b)"

definition pq_push :: "search_node \<Rightarrow> rat \<Rightarrow> string \<Rightarrow> pq_item list \<Rightarrow> pq_item list" where
  "pq_push nd f t q = heap_push pq_less \<lparr>it_node = nd, priority = f, tie = t, seq = length q\<rparr> q"

definition pq_pop :: "pq_item list \<Rightarrow> pq_item \<times> pq_item list" where
  "pq_pop q = heap_pop pq_less q"

subsection \<open>The search\<close>

definition min_cost :: "action list \<Rightarrow> rat" where
  "min_cost actions = (case actions of [] \<Rightarrow> 0
     | a # as \<Rightarrow> foldl (\<lambda>m b. if cost b < m then cost b else m) (cost a) as)"

definition heuristic :: "action list \<Rightarrow> goal \<Rightarrow> world \<Rightarrow> rat" where
  "heuristic actions goal w = (if satisfies w (g_pre goal) then 0 else min_cost actions)"

fun path_of :: "search_node \<Rightarrow> action list" where
  "path_of (Node s g p (Some a)) = a # (case p of Some n \<Rightarrow> path_of n | None \<Rightarrow> [])"
| "path_of (Node s g p None) = []"

definition expand_one :: "action list \<Rightarrow> goal \<Rightarrow> search_node \<Rightarrow> pq_item list \<times> (string, rat) gomap
    \<Rightarrow> action \<Rightarrow> pq_item list \<times> (string, rat) gomap" where
  "expand_one actions goal cur ob a = (let (op, best) = ob in
     if \<not> satisfies (nstate cur) (a_pre a) then (op, best)
     else let next = apply_effects (nstate cur) (a_effects a); k = world_key next;
            g = fadd (ng cur) (cost a) in
       if (case map_of best k of Some old \<Rightarrow> old \<le> g | None \<Rightarrow> False) then (op, best)
       else (pq_push (Node next g (Some cur) (Some a)) (fadd g (heuristic actions goal next)) (a_name a) op,
             mput k g best))"

definition expand :: "action list \<Rightarrow> goal \<Rightarrow> search_node \<Rightarrow> pq_item list \<times> (string, rat) gomap
    \<Rightarrow> pq_item list \<times> (string, rat) gomap" where
  "expand actions goal cur ob = foldl (expand_one actions goal cur) ob actions"

definition stale :: "(string, rat) gomap \<Rightarrow> search_node \<Rightarrow> bool" where
  "stale best cur = (case map_of best (world_key (nstate cur)) of Some g \<Rightarrow> g < ng cur | None \<Rightarrow> False)"

lemma pq_pop_shorter: "op \<noteq> [] \<Longrightarrow> pq_pop op = (it, op1) \<Longrightarrow> length op1 < length op"
proof -
  assume "op \<noteq> []" "pq_pop op = (it, op1)"
  then have "op1 = take (length op - 1) (heap_down pq_less (swap 0 (length op - 1) op) 0 (length op - 1))"
    by (simp add: pq_pop_def heap_pop_def Let_def)
  then have "length op1 \<le> length op - 1" by simp
  then show ?thesis using \<open>op \<noteq> []\<close> by (cases op) auto
qed

function plan_loop :: "nat \<Rightarrow> action list \<Rightarrow> goal \<Rightarrow> pq_item list \<Rightarrow> (string, rat) gomap \<Rightarrow> nat
    \<Rightarrow> plan_error + goal_plan" where
  "plan_loop mx actions goal op best expansions =
     (if op = [] then Inl NoPlan
      else let (it, op1) = pq_pop op; cur = it_node it in
        if satisfies (nstate cur) (g_pre goal)
        then Inr \<lparr>p_goal = goal, p_actions = rev (path_of cur), p_cost = ng cur\<rparr>
        else if stale best cur then plan_loop mx actions goal op1 best expansions
        else if mx < expansions + 1 then Inl (SearchExceeded mx)
        else let (op2, best2) = expand actions goal cur (op1, best)
          in plan_loop mx actions goal op2 best2 (expansions + 1))"
  by pat_completeness auto
termination
  by (relation "measures [\<lambda>(mx, actions, goal, op, best, e). mx - e,
      \<lambda>(mx, actions, goal, op, best, e). length op]") (auto dest: pq_pop_shorter [OF _ sym])

declare plan_loop.simps [simp del]

definition max_expansions :: "int \<Rightarrow> nat" where
  "max_expansions m = (if m \<le> 0 then 10000 else nat m)"

definition plan :: "int \<Rightarrow> world \<Rightarrow> action list \<Rightarrow> goal \<Rightarrow> plan_error + goal_plan" where
  "plan m start actions goal = plan_loop (max_expansions m) actions goal
     (pq_push (Node start 0 None None) 0 [] []) [(world_key start, 0)] 0"

definition plan_less :: "goal_plan \<Rightarrow> goal_plan \<Rightarrow> bool" where
  "plan_less a b = (if net_value a \<noteq> net_value b then net_value b < net_value a
     else if p_cost a \<noteq> p_cost b then p_cost a < p_cost b
     else g_name (p_goal a) < g_name (p_goal b))"

definition best_plan :: "int \<Rightarrow> world \<Rightarrow> action list \<Rightarrow> goal list \<Rightarrow> plan_error + goal_plan" where
  "best_plan m start actions goals =
     (let plans = List.map_filter (\<lambda>g. case plan m start actions g of Inr p \<Rightarrow> Some p | Inl _ \<Rightarrow> None) goals
      in if plans = [] then Inl NoPlan else Inr (hd (stable_sort plan_less plans)))"

subsection \<open>The orders of the heap and of Best\<close>

interpretation pq: weak_order pq_less
  by unfold_locales (auto simp: pq_less_def split: if_splits)

interpretation pl: weak_order plan_less
  by unfold_locales (auto simp: plan_less_def split: if_splits)

subsection \<open>World states as partial functions\<close>

lemma satisfies_iff: "satisfies w req \<longleftrightarrow> (\<forall>k \<in> dom (map_of req). map_of w k = map_of req k)"
  by (simp add: satisfies_def list_all_iff)

lemma satisfies_cong: "map_of w = map_of w' \<Longrightarrow> satisfies w req = satisfies w' req"
  by (simp add: satisfies_iff)

lemma map_of_apply_effects [simp]: "map_of (apply_effects w e) = map_of w ++ map_of e"
  by (simp add: apply_effects_def)

lemma unsatisfied_0: "unsatisfied w req = 0 \<longleftrightarrow> satisfies w req"
  by (auto simp: unsatisfied_def satisfies_def list_all_iff filter_empty_conv)

text \<open>Keys tell states apart when no condition name holds the separator.\<close>

definition plain :: "world \<Rightarrow> bool" where
  "plain w \<longleftrightarrow> (\<forall>k \<in> dom (map_of w). CHR ''='' \<notin> set k)"

definition enc :: "(string \<times> bool) list \<Rightarrow> string" where
  "enc l = concat (map (\<lambda>(k, b). k @ CHR ''='' # (if b then CHR ''1'' else CHR ''0'') # '';'') l)"

lemma enc_inj:
  "\<forall>(k, b) \<in> set l. CHR ''='' \<notin> set k \<Longrightarrow> \<forall>(k, b) \<in> set l'. CHR ''='' \<notin> set k \<Longrightarrow> enc l = enc l' \<Longrightarrow> l = l'"
proof (induction l arbitrary: l')
  case Nil
  then show ?case by (cases l') (auto simp: enc_def)
next
  case (Cons kb l)
  obtain k b where kb: "kb = (k, b)" by (cases kb)
  obtain k' b' r where l': "l' = (k', b') # r"
    using Cons.prems(3) by (cases l') (auto simp: enc_def kb)
  have "cut CHR ''='' (enc (kb # l)) = Some (k, (if b then CHR ''1'' else CHR ''0'') # CHR '';'' # enc l)"
    using Cons.prems(1) by (simp add: enc_def kb cut_append)
  moreover have "cut CHR ''='' (enc l') = Some (k', (if b' then CHR ''1'' else CHR ''0'') # CHR '';'' # enc r)"
    using Cons.prems(2) by (simp add: enc_def l' cut_append)
  ultimately have "k = k'" "b = b'" "enc l = enc r"
    using Cons.prems(3) by (auto split: if_splits)
  then show ?case using Cons.IH [of r] Cons.prems kb l' by auto
qed

lemma world_key_enc: "world_key w = enc (map (\<lambda>k. (k, map_of w k = Some True)) (mkeys w))"
  by (auto simp: world_key_def enc_def comp_def intro!: arg_cong [where f = concat] map_cong)

lemma world_key_inj:
  assumes "plain w" "plain w'" "world_key w = world_key w'"
  shows "map_of w = map_of w'"
proof -
  let ?l = "\<lambda>w. map (\<lambda>k. (k, map_of w k = Some True)) (mkeys w)"
  have eq: "?l w = ?l w'"
    using assms by (intro enc_inj) (auto simp: world_key_enc plain_def)
  then have "map fst (?l w) = map fst (?l w')" by simp
  then have keys: "mkeys w = mkeys w'" by (simp add: comp_def)
  have tr: "\<forall>k \<in> set (mkeys w). (map_of w k = Some True) = (map_of w' k = Some True)"
    using eq keys by simp
  have dom: "dom (map_of w) = dom (map_of w')" using keys by (metis set_mkeys)
  show ?thesis
  proof
    fix k
    show "map_of w k = map_of w' k"
      using tr dom by (cases "map_of w k"; cases "map_of w' k") (force simp: domIff)+
  qed
qed

lemma world_key_cong: "map_of w = map_of w' \<Longrightarrow> world_key w = world_key w'"
  using mkeys_cong [of w w'] by (simp add: world_key_def)

lemma plain_apply: "plain w \<Longrightarrow> plain e \<Longrightarrow> plain (apply_effects w e)"
  by (auto simp: plain_def)

subsection \<open>Plans as paths\<close>

fun run :: "world \<Rightarrow> action list \<Rightarrow> world option" where
  "run w [] = Some w"
| "run w (a # as) = (if satisfies w (a_pre a) then run (apply_effects w (a_effects a)) as else None)"

definition path_cost :: "rat \<Rightarrow> action list \<Rightarrow> rat" where
  "path_cost g as = foldl (\<lambda>g a. fadd g (cost a)) g as"

definition reaches :: "world \<Rightarrow> action list \<Rightarrow> goal \<Rightarrow> bool" where
  "reaches start as goal = (case run start as of Some w \<Rightarrow> satisfies w (g_pre goal) | None \<Rightarrow> False)"

lemma run_append: "run w (as @ bs) = (case run w as of Some v \<Rightarrow> run v bs | None \<Rightarrow> None)"
  by (induction as arbitrary: w) auto

lemma path_cost_simps [simp]:
  "path_cost g [] = g" "path_cost g (a # as) = path_cost (fadd g (cost a)) as"
  "path_cost g (as @ bs) = path_cost (path_cost g as) bs"
  by (simp_all add: path_cost_def)

text \<open>What the search needs of the addition of costs: rounding may lose digits, never the order.\<close>

locale cost_addition =
  fixes add :: "rat \<Rightarrow> rat \<Rightarrow> rat" and repr :: "rat \<Rightarrow> bool"
  assumes mono: "a \<le> a' \<Longrightarrow> b \<le> b' \<Longrightarrow> add a b \<le> add a' b'"
    and grows: "repr a \<Longrightarrow> 0 \<le> b \<Longrightarrow> a \<le> add a b"
    and closed: "repr (add a b)"
    and unit: "repr a \<Longrightarrow> add a 0 = a"
begin

lemma fold_mono: "a \<le> b \<Longrightarrow> foldl add a cs \<le> foldl add b cs"
  by (induction cs arbitrary: a b) (auto intro: mono)

lemma fold_grows: "repr a \<Longrightarrow> \<forall>c \<in> set cs. 0 \<le> c \<Longrightarrow> a \<le> foldl add a cs"
proof (induction cs arbitrary: a)
  case (Cons c cs)
  then have "a \<le> add a c" by (simp add: grows)
  also have "\<dots> \<le> foldl add (add a c) cs" using Cons by (simp add: closed)
  finally show ?case by simp
qed simp

lemma fold_repr: "repr a \<Longrightarrow> repr (foldl add a cs)"
  by (induction cs arbitrary: a) (simp_all add: closed)

end

interpretation fc: cost_addition fadd is_float64
  by unfold_locales (simp_all add: fadd_mono fadd_ge fadd_0)

lemma path_cost_fold: "path_cost g as = foldl fadd g (map cost as)"
  by (simp add: path_cost_def foldl_map)

lemma cost_pos [simp]: "0 < cost a"
  by (simp add: cost_def)

lemma path_cost_grows: "is_float64 g \<Longrightarrow> g \<le> path_cost g as"
  unfolding path_cost_fold by (rule fc.fold_grows) (auto intro: less_imp_le)

lemma path_cost_repr: "is_float64 g \<Longrightarrow> is_float64 (path_cost g as)"
  unfolding path_cost_fold by (rule fc.fold_repr)

lemma foldl_cost_least: "foldl (\<lambda>m b. if cost b < m then cost b else m) m as \<le> m \<and>
    (\<forall>b \<in> set as. foldl (\<lambda>m b. if cost b < m then cost b else m) m as \<le> cost b)"
proof (induction as arbitrary: m)
  case (Cons a as)
  show ?case using Cons [of "if cost a < m then cost a else m"] by (auto split: if_splits)
qed simp

lemma min_cost_least: "a \<in> set actions \<Longrightarrow> min_cost actions \<le> cost a"
proof (cases actions)
  case (Cons b as)
  assume "a \<in> set actions"
  then show ?thesis using foldl_cost_least [of "cost b" as] Cons by (auto simp: min_cost_def)
qed simp

lemma min_cost_nonneg: "0 \<le> min_cost actions"
proof -
  have fold: "0 \<le> foldl (\<lambda>m b. if cost b < m then cost b else m) m as" if "0 \<le> m" for m as
    using that
  proof (induction as arbitrary: m)
    case (Cons a as)
    have "0 \<le> cost a" by (rule less_imp_le) (rule cost_pos)
    then show ?case using Cons.IH [of "if cost a < m then cost a else m"] Cons.prems by simp
  qed simp
  show ?thesis
  proof (cases actions)
    case (Cons a as)
    have "0 \<le> cost a" by (rule less_imp_le) (rule cost_pos)
    then show ?thesis using fold Cons by (simp add: min_cost_def)
  qed (simp add: min_cost_def)
qed

lemma heuristic_le: "a \<in> set actions \<Longrightarrow> \<not> satisfies w (g_pre goal) \<Longrightarrow> heuristic actions goal w \<le> cost a"
  by (simp add: heuristic_def min_cost_least)

subsection \<open>The invariant of the search\<close>

definition node_ok :: "world \<Rightarrow> action list \<Rightarrow> search_node \<Rightarrow> bool" where
  "node_ok start actions nd \<longleftrightarrow> run start (rev (path_of nd)) = Some (nstate nd)
     \<and> set (path_of nd) \<subseteq> set actions \<and> ng nd = path_cost 0 (rev (path_of nd)) \<and> plain (nstate nd)"

definition item_ok :: "world \<Rightarrow> action list \<Rightarrow> goal \<Rightarrow> (string, rat) gomap \<Rightarrow> pq_item \<Rightarrow> bool" where
  "item_ok start actions goal best it \<longleftrightarrow> node_ok start actions (it_node it)
     \<and> priority it \<le> fadd (ng (it_node it)) (heuristic actions goal (nstate (it_node it)))
     \<and> (satisfies (nstate (it_node it)) (g_pre goal) \<longrightarrow> priority it = ng (it_node it))
     \<and> (\<exists>g. map_of best (world_key (nstate (it_node it))) = Some g \<and> g \<le> ng (it_node it))"

definition opened :: "pq_item set \<Rightarrow> string \<Rightarrow> rat \<Rightarrow> bool" where
  "opened Q k g \<longleftrightarrow> (\<exists>it \<in> Q. world_key (nstate (it_node it)) = k \<and> ng (it_node it) = g)"

definition succ_known :: "(string, rat) gomap \<Rightarrow> world \<Rightarrow> rat \<Rightarrow> action \<Rightarrow> bool" where
  "succ_known best w g a \<longleftrightarrow> (satisfies w (a_pre a) \<longrightarrow>
     (\<exists>g'. map_of best (world_key (apply_effects w (a_effects a))) = Some g' \<and> g' \<le> fadd g (cost a)))"

definition closed_key :: "action list \<Rightarrow> goal \<Rightarrow> (string, rat) gomap \<Rightarrow> string \<Rightarrow> rat \<Rightarrow> bool" where
  "closed_key actions goal best k g \<longleftrightarrow> (\<exists>w. world_key w = k \<and> plain w \<and> \<not> satisfies w (g_pre goal)
     \<and> (\<forall>a \<in> set actions. succ_known best w g a))"

definition search_inv :: "world \<Rightarrow> action list \<Rightarrow> goal \<Rightarrow> pq_item list \<Rightarrow> (string, rat) gomap \<Rightarrow> bool" where
  "search_inv start actions goal op best \<longleftrightarrow> pq.heap op (length op)
     \<and> (\<forall>it \<in> set op. item_ok start actions goal best it)
     \<and> (\<forall>k g. map_of best k = Some g \<longrightarrow> opened (set op) k g \<or> closed_key actions goal best k g)
     \<and> (\<exists>g. map_of best (world_key start) = Some g \<and> g \<le> 0)"

definition plain_problem :: "world \<Rightarrow> action list \<Rightarrow> bool" where
  "plain_problem start actions \<longleftrightarrow> plain start \<and> (\<forall>a \<in> set actions. plain (a_effects a))"

text \<open>Lower known costs keep what is known.\<close>

definition lowered :: "(string, rat) gomap \<Rightarrow> (string, rat) gomap \<Rightarrow> bool" where
  "lowered best best' \<longleftrightarrow> (\<forall>k g. map_of best k = Some g \<longrightarrow> (\<exists>g'. map_of best' k = Some g' \<and> g' \<le> g))"

lemma lowered_refl: "lowered b b"
  by (auto simp: lowered_def)

lemma lowered_trans: "lowered a b \<Longrightarrow> lowered b c \<Longrightarrow> lowered a c"
  unfolding lowered_def by (meson order_trans)

lemma succ_known_lowered: "lowered best best' \<Longrightarrow> succ_known best w g a \<Longrightarrow> succ_known best' w g a"
  unfolding lowered_def succ_known_def by (meson order_trans)

lemma closed_key_lowered: "lowered best best' \<Longrightarrow> closed_key actions goal best k g \<Longrightarrow> closed_key actions goal best' k g"
  unfolding closed_key_def by (blast intro: succ_known_lowered)

lemma item_ok_lowered:
  "lowered best best' \<Longrightarrow> item_ok start actions goal best it \<Longrightarrow> item_ok start actions goal best' it"
  unfolding item_ok_def lowered_def by (meson order_trans)

subsection \<open>One expansion\<close>

text \<open>What expanding a node by some of the actions leaves, from the open list and costs it found.\<close>

definition expanded :: "world \<Rightarrow> action list \<Rightarrow> goal \<Rightarrow> search_node \<Rightarrow> action set
    \<Rightarrow> pq_item list \<times> (string, rat) gomap \<Rightarrow> pq_item list \<times> (string, rat) gomap \<Rightarrow> bool" where
  "expanded start actions goal cur A ob ob' \<longleftrightarrow> (case (ob, ob') of ((op, best), (op', best')) \<Rightarrow>
     pq.heap op' (length op') \<and> set op \<subseteq> set op' \<and> lowered best best'
     \<and> (\<forall>it \<in> set op'. item_ok start actions goal best' it)
     \<and> (\<forall>k g. map_of best' k = Some g \<longrightarrow> map_of best k = Some g \<or> opened (set op') k g)
     \<and> map_of best' (world_key (nstate cur)) = map_of best (world_key (nstate cur))
     \<and> (\<forall>a \<in> A. succ_known best' (nstate cur) (ng cur) a))"

lemma pq_push_facts:
  assumes "pq.heap q (length q)"
  shows "pq.heap (pq_push nd f t q) (length (pq_push nd f t q))"
    and "set (pq_push nd f t q) = insert \<lparr>it_node = nd, priority = f, tie = t, seq = length q\<rparr> (set q)"
proof -
  let ?it = "\<lparr>it_node = nd, priority = f, tie = t, seq = length q\<rparr>"
  note p = pq.push_heap [OF assms, of ?it]
  show "pq.heap (pq_push nd f t q) (length (pq_push nd f t q))" using p by (simp add: pq_push_def)
  have "set_mset (mset (pq_push nd f t q)) = set_mset (add_mset ?it (mset q))"
    using p by (simp add: pq_push_def)
  then show "set (pq_push nd f t q) = insert ?it (set q)" by simp
qed

lemma node_ok_child:
  assumes "node_ok start actions cur" "plain_problem start actions" "a \<in> set actions"
    "satisfies (nstate cur) (a_pre a)"
  shows "node_ok start actions (Node (apply_effects (nstate cur) (a_effects a))
      (fadd (ng cur) (cost a)) (Some cur) (Some a))"
  using assms by (auto simp: node_ok_def plain_problem_def run_append plain_apply)

lemma node_repr: "node_ok start actions nd \<Longrightarrow> is_float64 (ng nd)"
  by (simp add: node_ok_def path_cost_repr)

lemma expand_one_step:
  assumes cur: "node_ok start actions cur" and pr: "plain_problem start actions"
    and a: "a \<in> set actions" and known: "map_of (snd ob0) (world_key (nstate cur)) = Some (ng cur)"
    and ex: "expanded start actions goal cur A ob0 ob"
  shows "expanded start actions goal cur (insert a A) ob0 (expand_one actions goal cur ob a)"
proof -
  obtain op best where ob: "ob = (op, best)" by (cases ob)
  obtain op0 best0 where ob0: "ob0 = (op0, best0)" by (cases ob0)
  define nx where "nx = apply_effects (nstate cur) (a_effects a)"
  define k where "k = world_key nx"
  define g where "g = fadd (ng cur) (cost a)"
  have known0: "map_of best0 (world_key (nstate cur)) = Some (ng cur)" using known ob0 by simp
  have E: "pq.heap op (length op)" "set op0 \<subseteq> set op" "lowered best0 best"
      "\<forall>it \<in> set op. item_ok start actions goal best it"
      "\<forall>k g. map_of best k = Some g \<longrightarrow> map_of best0 k = Some g \<or> opened (set op) k g"
      "map_of best (world_key (nstate cur)) = Some (ng cur)"
      "\<forall>a \<in> A. succ_known best (nstate cur) (ng cur) a"
    using ex known by (simp_all add: expanded_def ob ob0)
  consider "\<not> satisfies (nstate cur) (a_pre a)"
    | old where "satisfies (nstate cur) (a_pre a)" "map_of best k = Some old" "old \<le> g"
    | "satisfies (nstate cur) (a_pre a)" "\<forall>old. map_of best k = Some old \<longrightarrow> g < old"
    by (meson not_le)
  then show ?thesis
  proof cases
    case 1
    then show ?thesis using ex by (simp add: expand_one_def ob expanded_def succ_known_def split: prod.splits)
  next
    case 2
    then have "succ_known best (nstate cur) (ng cur) a"
      by (auto simp: succ_known_def nx_def k_def g_def)
    moreover have "expand_one actions goal cur ob a = ob"
      using 2 by (simp add: expand_one_def ob Let_def nx_def [symmetric] k_def [symmetric] g_def [symmetric])
    ultimately show ?thesis using ex by (simp add: expanded_def ob split: prod.splits)
  next
    case 3
    define nd where "nd = Node nx g (Some cur) (Some a)"
    define f where "f = fadd g (heuristic actions goal nx)"
    define op' where "op' = pq_push nd f (a_name a) op"
    define best' where "best' = mput k g best"
    have step: "expand_one actions goal cur ob a = (op', best')"
      using 3 by (auto simp: expand_one_def ob Let_def nx_def [symmetric] k_def [symmetric] g_def [symmetric]
          nd_def op'_def best'_def f_def split: option.splits)
    note push = pq_push_facts [OF E(1), of nd f "a_name a", folded op'_def]
    have low: "lowered best best'" using 3 by (auto simp: lowered_def best'_def)
    have nd: "node_ok start actions nd"
      using node_ok_child [OF cur pr a] 3 by (simp add: nd_def nx_def g_def)
    have new: "item_ok start actions goal best' \<lparr>it_node = nd, priority = f, tie = a_name a, seq = length op\<rparr>"
      using nd node_repr [OF nd]
      by (simp add: item_ok_def nd_def f_def best'_def k_def heuristic_def fadd_0)
    have neq: "k \<noteq> world_key (nstate cur)"
      using 3(2) E(6) fadd_ge [OF node_repr [OF cur], of "cost a"] by (auto simp: g_def less_imp_le)
    have "\<forall>k' g'. map_of best' k' = Some g' \<longrightarrow> map_of best0 k' = Some g' \<or> opened (set op') k' g'"
      using E(5) by (auto simp: best'_def opened_def push nd_def k_def split: if_splits)
    moreover have "succ_known best' (nstate cur) (ng cur) a"
      by (auto simp: succ_known_def best'_def k_def nx_def g_def)
    ultimately show ?thesis
      using E low neq push new unfolding step expanded_def ob0
      by (auto intro: lowered_trans item_ok_lowered succ_known_lowered simp: best'_def known0)
  qed
qed

lemma expand_steps:
  assumes "node_ok start actions cur" "plain_problem start actions"
    and known: "map_of best (world_key (nstate cur)) = Some (ng cur)"
    and "pq.heap op (length op)" "\<forall>it \<in> set op. item_ok start actions goal best it"
  shows "expanded start actions goal cur (set actions) (op, best) (expand actions goal cur (op, best))"
proof -
  have "expanded start actions goal cur (set as) (op, best) (foldl (expand_one actions goal cur) (op, best) as)"
    if "set as \<subseteq> set actions" for as
    using that
  proof (induction as rule: rev_induct)
    case Nil
    then show ?case using assms by (simp add: expanded_def lowered_refl)
  next
    case (snoc a as)
    then show ?case using expand_one_step [OF assms(1,2), of a "(op, best)"] known by simp
  qed
  then show ?thesis by (simp add: expand_def)
qed

subsection \<open>The loop keeps the invariant\<close>

lemma pop_facts:
  assumes "search_inv start actions goal op best" "op \<noteq> []" "pq_pop op = (it, op1)"
  shows "pq.heap op1 (length op1)" "mset op = add_mset it (mset op1)" "set op = insert it (set op1)"
    "\<And>y. y \<in> set op \<Longrightarrow> priority it \<le> priority y"
proof -
  have h: "pq.heap op (length op)" using assms(1) by (simp add: search_inv_def)
  note p = pq.pop_heap [OF h assms(2) assms(3) [unfolded pq_pop_def]]
  show "pq.heap op1 (length op1)" "mset op = add_mset it (mset op1)" by (fact p)+
  then show "set op = insert it (set op1)" by (metis set_mset_add_mset_insert set_mset_mset)
  fix y assume "y \<in> set op"
  then have "\<not> pq_less y it" using p(4) by (simp add: pq.le_def)
  then show "priority it \<le> priority y" by (simp add: pq_less_def split: if_splits)
qed

lemma inv_skip_stale:
  assumes inv: "search_inv start actions goal op best" and "op \<noteq> []" "pq_pop op = (it, op1)"
    and st: "stale best (it_node it)"
  shows "search_inv start actions goal op1 best"
proof -
  note pop = pop_facts [OF assms(1-3)]
  have "opened (set op1) k g" if "map_of best k = Some g" "opened (set op) k g" for k g
    using that st by (auto simp: opened_def pop(3) stale_def)
  then have "\<forall>k g. map_of best k = Some g \<longrightarrow> opened (set op1) k g \<or> closed_key actions goal best k g"
    using inv unfolding search_inv_def by blast
  then show ?thesis using inv pop(1,3) by (simp add: search_inv_def)
qed

lemma inv_expand:
  assumes inv: "search_inv start actions goal op best" and ne: "op \<noteq> []" and p: "pq_pop op = (it, op1)"
    and st: "\<not> stale best (it_node it)" and ng: "\<not> satisfies (nstate (it_node it)) (g_pre goal)"
    and pr: "plain_problem start actions" and ex: "expand actions goal (it_node it) (op1, best) = (op2, best2)"
  shows "search_inv start actions goal op2 best2"
proof -
  note pop = pop_facts [OF inv ne p]
  let ?cur = "it_node it"
  have it: "item_ok start actions goal best it" using inv pop(3) by (auto simp: search_inv_def)
  then have cur: "node_ok start actions ?cur" by (simp add: item_ok_def)
  have known: "map_of best (world_key (nstate ?cur)) = Some (ng ?cur)"
    using it st by (auto simp: item_ok_def stale_def)
  have items: "\<forall>x \<in> set op1. item_ok start actions goal best x"
    using inv pop(3) by (auto simp: search_inv_def)
  have E: "pq.heap op2 (length op2)" "set op1 \<subseteq> set op2" "lowered best best2"
      "\<forall>x \<in> set op2. item_ok start actions goal best2 x"
      "\<forall>k g. map_of best2 k = Some g \<longrightarrow> map_of best k = Some g \<or> opened (set op2) k g"
      "\<forall>a \<in> set actions. succ_known best2 (nstate ?cur) (ng ?cur) a"
    using expand_steps [OF cur pr known pop(1) items] by (simp_all add: expanded_def ex)
  have self: "closed_key actions goal best2 (world_key (nstate ?cur)) (ng ?cur)"
    using E(6) ng cur by (auto simp: closed_key_def node_ok_def)
  have "opened (set op2) k g \<or> closed_key actions goal best2 k g" if k: "map_of best2 k = Some g" for k g
  proof (cases "opened (set op2) k g")
    case False
    then have b: "map_of best k = Some g" using E(5) k by blast
    then consider "opened (set op) k g" | "closed_key actions goal best k g"
      using inv by (auto simp: search_inv_def)
    then show ?thesis
    proof cases
      case 1
      then show ?thesis using False self pop(3) E(2) by (auto simp: opened_def)
    next
      case 2 then show ?thesis using E(3) closed_key_lowered by blast
    qed
  qed simp
  moreover have "\<exists>g. map_of best2 (world_key start) = Some g \<and> g \<le> 0"
    using inv E(3) unfolding search_inv_def lowered_def by (meson order_trans)
  ultimately show ?thesis using E by (simp add: search_inv_def)
qed

subsection \<open>What an open list says of every plan\<close>

text \<open>
  Along any plan there is an open item whose priority is at most the cost of the plan; so an
  empty open list means there is no plan, and a goal popped first is cheapest.
\<close>

lemma frontier:
  assumes inv: "search_inv start actions goal op best" and pr: "plain_problem start actions"
  shows "run w as = Some v \<Longrightarrow> satisfies v (g_pre goal) \<Longrightarrow> set as \<subseteq> set actions \<Longrightarrow> plain w
    \<Longrightarrow> map_of best (world_key w) = Some g \<Longrightarrow> g \<le> c \<Longrightarrow> is_float64 c
    \<Longrightarrow> \<exists>it \<in> set op. priority it \<le> path_cost c as"
proof (induction as arbitrary: w g c)
  case Nil
  then have goal: "satisfies w (g_pre goal)" by simp
  have "\<not> closed_key actions goal best (world_key w) g"
    unfolding closed_key_def using goal Nil.prems(4) world_key_inj satisfies_cong by blast
  then have "opened (set op) (world_key w) g" using inv Nil.prems(5) by (auto simp: search_inv_def)
  then obtain it where it: "it \<in> set op" "world_key (nstate (it_node it)) = world_key w" "ng (it_node it) = g"
    by (auto simp: opened_def)
  have ok: "item_ok start actions goal best it" using inv it(1) by (simp add: search_inv_def)
  then have "map_of (nstate (it_node it)) = map_of w"
    using it(2) Nil.prems(4) by (intro world_key_inj) (simp_all add: item_ok_def node_ok_def)
  then have "satisfies (nstate (it_node it)) (g_pre goal)" using goal satisfies_cong by blast
  then have "priority it = g" using ok it(3) by (simp add: item_ok_def)
  then show ?case using it(1) Nil.prems(6) by auto
next
  case (Cons a as)
  have a: "a \<in> set actions" and pre: "satisfies w (a_pre a)"
    and rest: "run (apply_effects w (a_effects a)) as = Some v"
    using Cons.prems(1,3) by (auto split: if_splits)
  let ?c = "fadd c (cost a)"
  have total: "?c \<le> path_cost ?c as" by (rule path_cost_grows) simp
  have "opened (set op) (world_key w) g \<or> closed_key actions goal best (world_key w) g"
    using inv Cons.prems(5) by (auto simp: search_inv_def)
  then show ?case
  proof
    assume "opened (set op) (world_key w) g"
    then obtain it where it: "it \<in> set op" "ng (it_node it) = g" by (auto simp: opened_def)
    have ok: "item_ok start actions goal best it" using inv it(1) by (simp add: search_inv_def)
    have "priority it \<le> ?c"
    proof (cases "satisfies (nstate (it_node it)) (g_pre goal)")
      case True
      have "priority it \<le> c" using True ok it(2) Cons.prems(6) by (auto simp: item_ok_def)
      also have "c \<le> ?c" using Cons.prems(7) by (simp add: fadd_ge less_imp_le)
      finally show ?thesis .
    next
      case False
      have "priority it \<le> fadd g (heuristic actions goal (nstate (it_node it)))"
        using ok it(2) by (auto simp: item_ok_def)
      also have "\<dots> \<le> ?c" using heuristic_le [OF a False] Cons.prems(6) by (intro fadd_mono)
      finally show ?thesis .
    qed
    then show ?thesis using it(1) total by (auto intro: order_trans)
  next
    assume "closed_key actions goal best (world_key w) g"
    then obtain w' where w': "world_key w' = world_key w" "plain w'" "succ_known best w' g a"
      using a by (auto simp: closed_key_def)
    then have same: "map_of w' = map_of w" using Cons.prems(4) world_key_inj by blast
    then have "satisfies w' (a_pre a)" using pre satisfies_cong by blast
    then obtain g' where g': "map_of best (world_key (apply_effects w' (a_effects a))) = Some g'"
      "g' \<le> fadd g (cost a)" using w'(3) by (auto simp: succ_known_def)
    have "world_key (apply_effects w' (a_effects a)) = world_key (apply_effects w (a_effects a))"
      using same by (intro world_key_cong) simp
    moreover have "g' \<le> ?c" using g'(2) fadd_mono [OF Cons.prems(6), of "cost a" "cost a"] by simp
    ultimately have "\<exists>it \<in> set op. priority it \<le> path_cost ?c as"
      using Cons.prems g'(1) rest a pr
      by (intro Cons.IH [of "apply_effects w (a_effects a)" g'])
        (auto simp: plain_problem_def plain_apply)
    then show ?thesis by simp
  qed
qed

lemma frontier_start:
  assumes inv: "search_inv start actions goal op best" and pr: "plain_problem start actions"
    and "reaches start as goal" "set as \<subseteq> set actions"
  shows "\<exists>it \<in> set op. priority it \<le> path_cost 0 as"
  using assms frontier [OF inv pr, of start as _ _ 0]
  by (auto simp: reaches_def search_inv_def plain_problem_def split: option.splits)

lemma inv_start: "plain_problem start actions \<Longrightarrow>
    search_inv start actions goal (pq_push (Node start 0 None None) 0 [] []) [(world_key start, 0)]"
proof -
  assume pr: "plain_problem start actions"
  let ?nd = "Node start 0 None None"
  have h: "pq.heap [] (length ([]::pq_item list))" by (simp add: pq.heap_def)
  note push = pq_push_facts [OF h, of ?nd 0 "[]"]
  note nonneg = min_cost_nonneg [of actions]
  define it where "it = \<lparr>it_node = ?nd, priority = 0, tie = [], seq = length ([]::pq_item list)\<rparr>"
  have ok: "item_ok start actions goal [(world_key start, 0)] it"
    using pr fadd_ge [OF is_float64_0, of "heuristic actions goal start"] nonneg
    by (simp add: it_def item_ok_def node_ok_def plain_problem_def heuristic_def)
  have "set (pq_push ?nd 0 [] []) = {it}" using push(2) by (simp add: it_def)
  moreover have "opened {it} (world_key start) 0" by (simp add: opened_def it_def)
  ultimately show ?thesis using push(1) ok by (simp add: search_inv_def)
qed

text \<open>The loop, from any state of it: what it returns, judged against every plan of the actions.\<close>

definition correct_result :: "world \<Rightarrow> action list \<Rightarrow> goal \<Rightarrow> plan_error + goal_plan \<Rightarrow> bool" where
  "correct_result start actions goal r \<longleftrightarrow> (case r of
     Inr p \<Rightarrow> p_goal p = goal \<and> set (p_actions p) \<subseteq> set actions \<and> reaches start (p_actions p) goal
       \<and> p_cost p = path_cost 0 (p_actions p)
       \<and> (\<forall>as. set as \<subseteq> set actions \<longrightarrow> reaches start as goal \<longrightarrow> p_cost p \<le> path_cost 0 as)
   | Inl NoPlan \<Rightarrow> (\<forall>as. set as \<subseteq> set actions \<longrightarrow> \<not> reaches start as goal)
   | Inl (SearchExceeded n) \<Rightarrow> True)"

lemma loop_correct:
  "search_inv start actions goal op best \<Longrightarrow> plain_problem start actions
    \<Longrightarrow> correct_result start actions goal (plan_loop mx actions goal op best e)"
proof (induction mx actions goal op best e rule: plan_loop.induct)
  case (1 mx actions goal op best e)
  note inv = "1.prems"(1) and pr = "1.prems"(2)
  show ?case
  proof (cases "op = []")
    case True
    then have "plan_loop mx actions goal op best e = Inl NoPlan" by (simp add: plan_loop.simps)
    then show ?thesis using frontier_start [OF inv pr] True by (auto simp: correct_result_def)
  next
    case False
    obtain it op1 where pop: "pq_pop op = (it, op1)" by (cases "pq_pop op")
    note P = pop_facts [OF inv False pop]
    let ?cur = "it_node it"
    have ok: "item_ok start actions goal best it" using inv P(3) by (auto simp: search_inv_def)
    consider "satisfies (nstate ?cur) (g_pre goal)"
      | "\<not> satisfies (nstate ?cur) (g_pre goal)" "stale best ?cur"
      | "\<not> satisfies (nstate ?cur) (g_pre goal)" "\<not> stale best ?cur" "mx < e + 1"
      | "\<not> satisfies (nstate ?cur) (g_pre goal)" "\<not> stale best ?cur" "\<not> mx < e + 1" by blast
    then show ?thesis
    proof cases
      case 1
      then have r: "plan_loop mx actions goal op best e
          = Inr \<lparr>p_goal = goal, p_actions = rev (path_of ?cur), p_cost = ng ?cur\<rparr>"
        using False pop by (simp add: plan_loop.simps Let_def)
      have "ng ?cur \<le> path_cost 0 as" if "set as \<subseteq> set actions" "reaches start as goal" for as
        using frontier_start [OF inv pr that(2,1)] P(4) ok 1 by (auto simp: item_ok_def) (metis order_trans)
      then show ?thesis using ok 1 by (auto simp: r correct_result_def item_ok_def node_ok_def reaches_def)
    next
      case 2
      then have "plan_loop mx actions goal op best e = plan_loop mx actions goal op1 best e"
        using False pop by (subst plan_loop.simps) simp
      then show ?thesis
        using "1.IH"(1) [OF False pop [symmetric] refl] 2 inv_skip_stale [OF inv False pop] pr by simp
    next
      case 3
      then have "plan_loop mx actions goal op best e = Inl (SearchExceeded mx)"
        using False pop by (simp add: plan_loop.simps)
      then show ?thesis by (simp add: correct_result_def)
    next
      case 4
      obtain op2 best2 where ex: "expand actions goal ?cur (op1, best) = (op2, best2)"
        by (cases "expand actions goal ?cur (op1, best)")
      then have "plan_loop mx actions goal op best e = plan_loop mx actions goal op2 best2 (e + 1)"
        using False pop 4 by (subst plan_loop.simps) simp
      then show ?thesis
        using "1.IH"(2) [OF False pop [symmetric] refl] 4 ex inv_expand [OF inv False pop 4(2,1) pr ex] pr
        by simp
    qed
  qed
qed

lemma plan_correct:
  "plain_problem start actions \<Longrightarrow> correct_result start actions goal (plan m start actions goal)"
  unfolding plan_def by (rule loop_correct [OF inv_start])

subsection \<open>Properties of the planner\<close>

text \<open>
  C5. In a problem no condition name of which holds the equals sign, which separates a condition from its
  value in the key of a state (the search takes two states of one key for one): a plan the search returns is
  executable from the start, uses the actions given, reaches the goal, carries the float64 cost of its
  actions, and no plan of these actions is cheaper; and when the search says there is no plan, no sequence
  of the actions reaches the goal.
\<close>

theorem plan_optimal:
  assumes "plain_problem start actions"
  shows "(plan m start actions goal = Inr p \<longrightarrow> set (p_actions p) \<subseteq> set actions \<and> reaches start (p_actions p) goal
      \<and> p_goal p = goal \<and> p_cost p = path_cost 0 (p_actions p)
      \<and> (\<forall>as. set as \<subseteq> set actions \<longrightarrow> reaches start as goal \<longrightarrow> p_cost p \<le> path_cost 0 as))
    \<and> (plan m start actions goal = Inl NoPlan \<longrightarrow> (\<forall>as. set as \<subseteq> set actions \<longrightarrow> \<not> reaches start as goal))"
  using plan_correct [OF assms, of goal m] by (auto simp: correct_result_def)

text \<open>A small problem: one goal, a dear action and a cheap detour.\<close>

definition demo_actions :: "action list" where
  "demo_actions =
    [\<lparr>a_name = ''q'', a_pre = [], a_effects = [(''r'', True)], a_cost = 9\<rparr>,
     \<lparr>a_name = ''i'', a_pre = [], a_effects = [(''h'', True)], a_cost = 0\<rparr>,
     \<lparr>a_name = ''v'', a_pre = [(''h'', True)], a_effects = [(''r'', True)], a_cost = 3\<rparr>]"

definition demo_goal :: goal where
  "demo_goal = \<lparr>g_name = ''reviewed'', g_pre = [(''r'', True)], g_value = 12\<rparr>"

lemma demo_plain: "plain_problem [] demo_actions"
  by (auto simp: plain_problem_def plain_def demo_actions_def)

theorem plan_optimal_witness:
  "(\<exists>p. plan 0 [] demo_actions demo_goal = Inr p
     \<and> map a_name (p_actions p) = [''i'', ''v''] \<and> p_cost p = 4
     \<and> (\<forall>as. set as \<subseteq> set demo_actions \<longrightarrow> reaches [] as demo_goal \<longrightarrow> p_cost p \<le> path_cost 0 as))
   \<and> plan 0 [] demo_actions (demo_goal\<lparr>g_pre := [(''z'', True)]\<rparr>) = Inl NoPlan
   \<and> \<not> reaches [] demo_actions (demo_goal\<lparr>g_pre := [(''z'', True)]\<rparr>)"
proof -
  have "(case plan 0 [] demo_actions demo_goal of Inl e \<Rightarrow> False
     | Inr p \<Rightarrow> map a_name (p_actions p) = [''i'', ''v''] \<and> p_cost p = 4)"
    by code_simp
  then obtain p where p: "plan 0 [] demo_actions demo_goal = Inr p"
    "map a_name (p_actions p) = [''i'', ''v'']" "p_cost p = 4"
    by (cases "plan 0 [] demo_actions demo_goal") simp_all
  have n: "plan 0 [] demo_actions (demo_goal\<lparr>g_pre := [(''z'', True)]\<rparr>) = Inl NoPlan" by code_simp
  show ?thesis using plan_optimal [OF demo_plain, of 0 demo_goal p] p
      plan_optimal [OF demo_plain, of 0 "demo_goal\<lparr>g_pre := [(''z'', True)]\<rparr>" p] n by (intro conjI exI [of _ p]) auto
qed

text \<open>
  C28. Best returns a plan of one of the goals that no other goal's plan beats: none has a
  higher net value, nor the same net value at a lower cost, nor both the same with a smaller name.
\<close>

theorem best_plan_best:
  assumes "best_plan m start actions goals = Inr p"
  shows "(\<exists>g \<in> set goals. plan m start actions g = Inr p)
    \<and> (\<forall>g \<in> set goals. \<forall>q. plan m start actions g = Inr q \<longrightarrow>
        net_value q < net_value p \<or> net_value q = net_value p \<and>
          (p_cost p < p_cost q \<or> p_cost p = p_cost q \<and> g_name (p_goal p) \<le> g_name (p_goal q)))"
proof -
  let ?plans = "List.map_filter (\<lambda>g. case plan m start actions g of Inr p \<Rightarrow> Some p | Inl _ \<Rightarrow> None) goals"
  have ne: "?plans \<noteq> []" and p: "p = hd (stable_sort plan_less ?plans)"
    using assms by (auto simp: best_plan_def Let_def split: if_splits)
  have set: "set ?plans = {q. \<exists>g \<in> set goals. plan m start actions g = Inr q}"
    by (force simp: List.map_filter_def split: sum.splits)
  have in_plans: "p \<in> set ?plans" using pl.sort_head_in [OF ne] p by simp
  have best: "\<not> plan_less q p" if "q \<in> set ?plans" for q
    using pl.sort_head_least [OF ne that] p by simp
  show ?thesis
    using in_plans best unfolding set
    by (fastforce simp: plan_less_def split: if_splits)
qed

theorem best_plan_best_witness:
  "\<exists>p. best_plan 0 [] demo_actions
      [demo_goal, \<lparr>g_name = ''h'', g_pre = [(''h'', True)], g_value = 10\<rparr>] = Inr p
    \<and> g_name (p_goal p) = ''h''
    \<and> (\<forall>q. plan 0 [] demo_actions demo_goal = Inr q \<longrightarrow> net_value q \<le> net_value p)"
proof -
  let ?goals = "[demo_goal, \<lparr>g_name = ''h'', g_pre = [(''h'', True)], g_value = 10\<rparr>]"
  have "(case best_plan 0 [] demo_actions ?goals of Inl e \<Rightarrow> False
     | Inr p \<Rightarrow> g_name (p_goal p) = ''h'')"
    by code_simp
  then obtain p where p: "best_plan 0 [] demo_actions ?goals = Inr p" "g_name (p_goal p) = ''h''"
    by (cases "best_plan 0 [] demo_actions ?goals") simp_all
  have "net_value q \<le> net_value p" if "plan 0 [] demo_actions demo_goal = Inr q" for q
  proof -
    have "demo_goal \<in> set ?goals" by simp
    then show ?thesis using best_plan_best [OF p(1)] that by (metis less_imp_le order_refl)
  qed
  then show ?thesis using p by (intro exI [of _ p]) simp
qed

text \<open>
  The restriction on names is needed: a condition whose name holds the separator gives two
  states the same key, and the search then returns a plan that is not the cheapest.
\<close>

theorem plan_key_collision:
  "let X = \<lparr>a_name = ''X'', a_pre = [], a_effects = [(''a=1;b'', True)], a_cost = 1\<rparr>;
       Y = \<lparr>a_name = ''Y'', a_pre = [], a_effects = [(''a'', True)], a_cost = 1\<rparr>;
       Z = \<lparr>a_name = ''Z'', a_pre = [], a_effects = [(''b'', True)], a_cost = 1\<rparr>;
       g = \<lparr>g_name = ''g'', g_pre = [(''a'', True), (''b'', True)], g_value = 9\<rparr>
   in reaches [] [Y, Z] g \<and> path_cost 0 [Y, Z] = 2
      \<and> (case plan 0 [] [X, Y, Z] g of Inr p \<Rightarrow> p_cost p = 3 | Inl _ \<Rightarrow> False)"
  by code_simp

end
