(* ===== verification/Lnk.thy ===== *)
theory Lnk
  imports Prelude
begin

text \<open>
  contracts/lnk/lnk.go: the logical URL of a thing, lnk:<source>/<type>/<key>[?v=<version>]. Strings
  are the bytes of the text. The path and query escapes of net/url, strconv.Itoa and strconv.Atoi
  are modelled with the cases the package reaches; every error of Parse and Validate wraps the same
  ErrInvalid, so an error is one value. The int of a version is 64 bits wide.
\<close>

subsection \<open>Characters\<close>

definition is_digit :: "char \<Rightarrow> bool" where
  "is_digit c \<longleftrightarrow> CHR ''0'' \<le> c \<and> c \<le> CHR ''9''"

definition is_lower :: "char \<Rightarrow> bool" where
  "is_lower c \<longleftrightarrow> CHR ''a'' \<le> c \<and> c \<le> CHR ''z''"

definition is_alpha :: "char \<Rightarrow> bool" where
  "is_alpha c \<longleftrightarrow> is_lower c \<or> CHR ''A'' \<le> c \<and> c \<le> CHR ''Z''"

definition src_char :: "char \<Rightarrow> bool" where
  "src_char c \<longleftrightarrow> is_lower c \<or> is_digit c \<or> c \<in> set ''_.-''"

definition typ_char :: "char \<Rightarrow> bool" where
  "typ_char c \<longleftrightarrow> is_alpha c \<or> is_digit c \<or> c \<in> set ''_.-''"

definition source_ok :: "string \<Rightarrow> bool" where
  "source_ok s = (case s of [] \<Rightarrow> False | c # cs \<Rightarrow> is_lower c \<and> list_all src_char cs \<and> length cs \<le> 62)"

definition type_ok :: "string \<Rightarrow> bool" where
  "type_ok s = (case s of [] \<Rightarrow> False | c # cs \<Rightarrow> is_alpha c \<and> list_all typ_char cs \<and> length cs \<le> 126)"

subsection \<open>Escapes of net/url\<close>

definition hex_digit :: "nat \<Rightarrow> char" where
  "hex_digit n = ''0123456789ABCDEF'' ! n"

definition unhex :: "char \<Rightarrow> nat option" where
  "unhex c = (let n = of_char c :: nat in
     if 48 \<le> n \<and> n \<le> 57 then Some (n - 48)
     else if 97 \<le> n \<and> n \<le> 102 then Some (n - 87)
     else if 65 \<le> n \<and> n \<le> 70 then Some (n - 55)
     else None)"

definition unescaped :: "char \<Rightarrow> bool" where
  "unescaped c \<longleftrightarrow> is_alpha c \<or> is_digit c \<or> c \<in> set ''-_.~$&+:=@''"

definition path_escape :: "string \<Rightarrow> string" where
  "path_escape s = concat (map (\<lambda>c. if unescaped c then [c]
     else let n = of_char c :: nat in [CHR ''%'', hex_digit (n div 16), hex_digit (n mod 16)]) s)"

text \<open>Unescaping, of a path segment or of a query component (a plus is then a space).\<close>

fun unescape :: "bool \<Rightarrow> string \<Rightarrow> string option" where
  "unescape q [] = Some []"
| "unescape q (c # cs) = (if c = CHR ''%'' then
     (case cs of a # b # rest \<Rightarrow>
        (case (unhex a, unhex b) of
           (Some x, Some y) \<Rightarrow> map_option (Cons (char_of (16 * x + y))) (unescape q rest)
         | _ \<Rightarrow> None)
      | _ \<Rightarrow> None)
     else map_option (Cons (if q \<and> c = CHR ''+'' then CHR '' '' else c)) (unescape q cs))"

fun split_on :: "char \<Rightarrow> string \<Rightarrow> string list" where
  "split_on c [] = [[]]"
| "split_on c (x # xs) = (if x = c then [] # split_on c xs
     else (case split_on c xs of p # ps \<Rightarrow> (x # p) # ps | [] \<Rightarrow> [[x]]))"

fun join_with :: "string \<Rightarrow> string list \<Rightarrow> string" where
  "join_with sep [] = []"
| "join_with sep [p] = p"
| "join_with sep (p # ps) = p @ sep @ join_with sep ps"

definition escape_key :: "string \<Rightarrow> string" where
  "escape_key k = join_with ''/'' (map path_escape (split_on (CHR ''/'') k))"

subsection \<open>Numbers in text\<close>

definition digit_char :: "nat \<Rightarrow> char" where
  "digit_char n = char_of (48 + n)"

fun itoa :: "nat \<Rightarrow> string" where
  "itoa n = (if n < 10 then [digit_char n] else itoa (n div 10) @ [digit_char (n mod 10)])"

declare itoa.simps [simp del]

definition digits_val :: "string \<Rightarrow> nat" where
  "digits_val s = foldl (\<lambda>n c. 10 * n + (of_char c - 48)) 0 s"

definition max_int :: int where "max_int = 2 ^ 63 - 1"

definition atoi :: "string \<Rightarrow> int option" where
  "atoi s = (let (neg, ds) = (case s of [] \<Rightarrow> (False, []) | c # cs \<Rightarrow>
                 if c = CHR ''-'' then (True, cs) else if c = CHR ''+'' then (False, cs) else (False, s));
             v = int (digits_val ds) in
     if ds = [] \<or> \<not> list_all is_digit ds then None
     else if neg then (if v \<le> max_int + 1 then Some (- v) else None)
     else (if v \<le> max_int then Some v else None))"

subsection \<open>URLs\<close>

record url =
  u_source :: string
  u_type :: string
  u_key :: string
  u_version :: int

definition zero_url :: url where
  "zero_url = \<lparr>u_source = [], u_type = [], u_key = [], u_version = 0\<rparr>"

definition new_url :: "string \<Rightarrow> string \<Rightarrow> string \<Rightarrow> url" where
  "new_url s t k = \<lparr>u_source = s, u_type = t, u_key = k, u_version = 0\<rparr>"

definition url_is_zero :: "url \<Rightarrow> bool" where
  "url_is_zero u \<longleftrightarrow> u_source u = [] \<and> u_type u = [] \<and> u_key u = []"

definition logical :: "url \<Rightarrow> url" where
  "logical u = u\<lparr>u_version := 0\<rparr>"

definition at_version :: "url \<Rightarrow> int \<Rightarrow> url" where
  "at_version u v = u\<lparr>u_version := v\<rparr>"

definition validate :: "url \<Rightarrow> bool" where
  "validate u \<longleftrightarrow> source_ok (u_source u) \<and> type_ok (u_type u) \<and> u_key u \<noteq> [] \<and> \<not> u_version u < 0"

definition url_string :: "url \<Rightarrow> string" where
  "url_string u = (if url_is_zero u then []
     else ''lnk:'' @ u_source u @ ''/'' @ u_type u @ ''/'' @ escape_key (u_key u)
       @ (if 0 < u_version u then ''?v='' @ itoa (nat (u_version u)) else []))"

text \<open>url.ParseQuery: the pairs in order; any bad component is an error of the whole.\<close>

definition query_pair :: "string \<Rightarrow> (string \<times> string) option" where
  "query_pair p = (if CHR '';'' \<in> set p then None
     else let (k, v) = (case cut (CHR ''='') p of Some kv \<Rightarrow> kv | None \<Rightarrow> (p, [])) in
       (case (unescape True k, unescape True v) of (Some a, Some b) \<Rightarrow> Some (a, b) | _ \<Rightarrow> None))"

definition parse_query :: "string \<Rightarrow> (string \<times> string) list option" where
  "parse_query q = those (map query_pair (filter (\<lambda>p. p \<noteq> []) (split_on (CHR ''&'') q)))"

definition cut_or :: "char \<Rightarrow> string \<Rightarrow> string \<times> string" where
  "cut_or c s = (case cut c s of Some p \<Rightarrow> p | None \<Rightarrow> (s, []))"

definition query_version :: "string \<Rightarrow> int option" where
  "query_version q = (if q = [] then Some 0 else (case parse_query q of
       None \<Rightarrow> None
     | Some kvs \<Rightarrow> if \<not> list_all (\<lambda>(k, v). k = ''v'') kvs then None
         else (case atoi (case kvs of [] \<Rightarrow> [] | (k, v) # _ \<Rightarrow> v) of
             None \<Rightarrow> None
           | Some n \<Rightarrow> if n < 1 then None else Some n)))"

definition parse :: "string \<Rightarrow> url option" where
  "parse s = (if take 4 s \<noteq> ''lnk:'' then None
     else let (rest, query) = cut_or (CHR ''?'') (drop 4 s) in
       (case cut (CHR ''/'') rest of None \<Rightarrow> None
        | Some (src, rest2) \<Rightarrow> (case cut (CHR ''/'') rest2 of None \<Rightarrow> None
          | Some (typ, key) \<Rightarrow> (case unescape False key of None \<Rightarrow> None
            | Some k \<Rightarrow> (case query_version query of None \<Rightarrow> None
              | Some v \<Rightarrow>
                let u = \<lparr>u_source = src, u_type = typ, u_key = k, u_version = v\<rparr>
                in if validate u then Some u else None)))))"

definition unmarshal_text :: "string \<Rightarrow> url option" where
  "unmarshal_text b = (if b = [] then Some zero_url else parse b)"

definition url_of :: "string \<Rightarrow> url" where
  "url_of s = (case parse s of Some u \<Rightarrow> u | None \<Rightarrow> zero_url)"

definition url_names :: "url \<Rightarrow> string \<Rightarrow> bool" where
  "url_names u s = (if s = [] \<or> url_is_zero u then False
     else if s = u_key u then True
     else (case parse s of Some p \<Rightarrow> logical p = logical u | None \<Rightarrow> False))"

definition is_url :: "string \<Rightarrow> bool" where
  "is_url s \<longleftrightarrow> take 4 s = ''lnk:''"

subsection \<open>Escaping round trips\<close>

lemma unhex_hex [simp]: "n < 16 \<Longrightarrow> unhex (hex_digit n) = Some n"
proof -
  have "list_all (\<lambda>n. unhex (hex_digit n) = Some n) [0..<16]" by code_simp
  then show "n < 16 \<Longrightarrow> unhex (hex_digit n) = Some n" by (simp add: list_all_iff)
qed

lemma unescaped_not_percent: "unescaped c \<Longrightarrow> c \<noteq> CHR ''%''"
  by (auto simp: unescaped_def is_alpha_def is_lower_def is_digit_def less_eq_char_def)

lemma unescape_path_escape: "unescape False (path_escape s @ t) = map_option ((@) s) (unescape False t)"
proof (induction s)
  case Nil
  then show ?case by (simp add: path_escape_def option.map_ident)
next
  case (Cons c s)
  show ?case
  proof (cases "unescaped c")
    case True
    then show ?thesis using Cons unescaped_not_percent [OF True]
      by (simp add: path_escape_def option.map_comp comp_def)
  next
    case False
    have "(of_char c :: nat) div 16 < 16" using nat_of_char_less_256 [of c] by linarith
    then show ?thesis using Cons False
      by (simp add: path_escape_def Let_def option.map_comp comp_def)
  qed
qed

lemma hex_digit_char: "n < 16 \<Longrightarrow> hex_digit n \<in> set ''0123456789ABCDEF''"
  unfolding hex_digit_def by (rule nth_mem) simp

lemma path_escape_chars: "c \<in> set (path_escape s) \<Longrightarrow> unescaped c \<or> c = CHR ''%''"
proof -
  assume "c \<in> set (path_escape s)"
  then obtain d where d: "c = d \<and> unescaped d \<or> c = CHR ''%''
      \<or> c = hex_digit ((of_char d :: nat) div 16) \<or> c = hex_digit ((of_char d :: nat) mod 16)"
    by (auto simp: path_escape_def Let_def split: if_splits)
  have all: "list_all unescaped ''0123456789ABCDEF''" by code_simp
  have "\<forall>x \<in> set ''0123456789ABCDEF''. unescaped x" using all by (simp only: list_all_iff)
  then have "unescaped (hex_digit n)" if "n < 16" for n using hex_digit_char [OF that] by (rule bspec)
  moreover have "(of_char d :: nat) div 16 < 16" using nat_of_char_less_256 [of d] by linarith
  ultimately show ?thesis using d by auto
qed

lemma split_on_ne [simp]: "split_on c s \<noteq> []"
  by (cases s) (auto split: list.splits)

lemma join_split: "join_with [c] (split_on c s) = s"
proof (induction s)
  case (Cons x s)
  obtain p ps where p: "split_on c s = p # ps" by (meson split_on_ne neq_Nil_conv)
  show ?case using Cons p by (cases ps) auto
qed simp

lemma unescape_join: "unescape False (join_with ''/'' (map path_escape ps)) = Some (join_with ''/'' ps)"
proof (induction ps rule: induct_list012)
  case (2 p)
  then show ?case using unescape_path_escape [of p "[]"] by simp
qed (simp_all add: unescape_path_escape)

lemma unescape_escape_key: "unescape False (escape_key k) = Some k"
  by (simp add: escape_key_def unescape_join join_split)

lemma set_join_with: "set (join_with sep ps) \<subseteq> (\<Union>p \<in> set ps. set p) \<union> set sep"
  by (induction sep ps rule: join_with.induct) auto

lemma escape_key_no_query: "CHR ''?'' \<notin> set (escape_key k)"
proof
  assume "CHR ''?'' \<in> set (escape_key k)"
  then obtain p where "CHR ''?'' \<in> set (path_escape p)"
    using set_join_with [of "''/''" "map path_escape (split_on (CHR ''/'') k)"]
    by (auto simp: escape_key_def)
  then have "unescaped (CHR ''?'')" using path_escape_chars by fastforce
  then show False by (simp add: unescaped_def is_alpha_def is_lower_def is_digit_def less_eq_char_def)
qed

subsection \<open>Numbers round trip\<close>

lemma digit_char_digit: "n < 10 \<Longrightarrow> is_digit (digit_char n)"
  by (simp add: is_digit_def digit_char_def less_eq_char_def)

lemma itoa_digits: "list_all is_digit (itoa n)"
  by (induction n rule: itoa.induct) (subst itoa.simps, auto simp: digit_char_digit)

lemma itoa_ne [simp]: "itoa n \<noteq> []"
  by (subst itoa.simps) simp

lemma digits_val_itoa: "digits_val (itoa n) = n"
proof (induction n rule: itoa.induct)
  case (1 n)
  have d: "(of_char (digit_char m) :: nat) - 48 = m" if "m < 10" for m
    using that by (simp add: digit_char_def)
  show ?case using 1 by (subst itoa.simps) (auto simp: digits_val_def d)
qed

lemma atoi_itoa: "int n \<le> max_int \<Longrightarrow> atoi (itoa n) = Some (int n)"
proof -
  assume n: "int n \<le> max_int"
  obtain c cs where c: "itoa n = c # cs" by (meson itoa_ne neq_Nil_conv)
  have dc: "is_digit c" using itoa_digits [of n] c by simp
  then have "c \<noteq> CHR ''-''" "c \<noteq> CHR ''+''" by (auto simp: is_digit_def less_eq_char_def)
  then show ?thesis using n digits_val_itoa [of n] itoa_digits [of n]
    by (simp add: atoi_def c)
qed

lemma digits_plain: "list_all is_digit s \<Longrightarrow> unescape True s = Some s \<and> CHR ''&'' \<notin> set s
    \<and> CHR '';'' \<notin> set s"
  by (induction s) (auto simp: is_digit_def less_eq_char_def)

lemma split_on_none: "c \<notin> set s \<Longrightarrow> split_on c s = [s]"
  by (induction s) auto

lemma query_version_itoa:
  assumes "0 < v" "v \<le> max_int" shows "query_version (''v='' @ itoa (nat v)) = Some v"
proof -
  note d = digits_plain [OF itoa_digits [of "nat v"]]
  have "split_on (CHR ''&'') (''v='' @ itoa (nat v)) = [''v='' @ itoa (nat v)]"
    using d by (intro split_on_none) simp
  moreover have "query_pair (''v='' @ itoa (nat v)) = Some (''v'', itoa (nat v))"
    using d by (simp add: query_pair_def)
  ultimately have "parse_query (''v='' @ itoa (nat v)) = Some [(''v'', itoa (nat v))]"
    by (simp add: parse_query_def)
  then show ?thesis using assms atoi_itoa [of "nat v"] by (simp add: query_version_def)
qed

subsection \<open>Round trip\<close>

lemma source_chars: "source_ok s \<Longrightarrow> CHR ''/'' \<notin> set s \<and> CHR ''?'' \<notin> set s"
  by (cases s) (auto simp: source_ok_def list_all_iff src_char_def is_lower_def is_digit_def less_eq_char_def)

lemma type_chars: "type_ok s \<Longrightarrow> CHR ''/'' \<notin> set s \<and> CHR ''?'' \<notin> set s"
  by (cases s) (auto simp: type_ok_def list_all_iff typ_char_def is_alpha_def is_lower_def is_digit_def less_eq_char_def)

lemma parse_url_string:
  assumes "validate u" "u_version u \<le> max_int" shows "parse (url_string u) = Some u"
proof -
  let ?path = "u_source u @ ''/'' @ u_type u @ ''/'' @ escape_key (u_key u)"
  let ?q = "if 0 < u_version u then ''v='' @ itoa (nat (u_version u)) else []"
  have v: "source_ok (u_source u)" "type_ok (u_type u)" "u_key u \<noteq> []" "0 \<le> u_version u"
    using assms(1) by (auto simp: validate_def)
  then have nz: "\<not> url_is_zero u" by (simp add: url_is_zero_def)
  have nq: "CHR ''?'' \<notin> set ?path"
    using source_chars [OF v(1)] type_chars [OF v(2)] escape_key_no_query by simp
  have str: "url_string u = ''lnk:'' @ ?path @ (if 0 < u_version u then CHR ''?'' # ?q else [])"
    using nz by (simp add: url_string_def)
  have q: "cut_or (CHR ''?'') (drop 4 (url_string u)) = (?path, ?q)"
  proof (cases "0 < u_version u")
    case True
    then show ?thesis unfolding str cut_or_def using cut_append [OF nq, of ?q] by simp
  next
    case False
    have "cut (CHR ''?'') ?path = None" using nq cut_None by blast
    then show ?thesis unfolding str cut_or_def using False by simp
  qed
  have s: "cut (CHR ''/'') ?path = Some (u_source u, u_type u @ ''/'' @ escape_key (u_key u))"
    using source_chars [OF v(1)] cut_append by simp
  have t: "cut (CHR ''/'') (u_type u @ ''/'' @ escape_key (u_key u)) = Some (u_type u, escape_key (u_key u))"
    using type_chars [OF v(2)] cut_append by simp
  have qv: "query_version ?q = Some (u_version u)"
    using query_version_itoa [of "u_version u"] v(4) assms(2) by (simp add: query_version_def)
  have "take 4 (url_string u) = ''lnk:''" unfolding str by simp
  moreover have "\<lparr>u_source = u_source u, u_type = u_type u, u_key = u_key u, u_version = u_version u\<rparr> = u"
    by simp
  ultimately show ?thesis
    unfolding parse_def q using s t qv assms(1) by (simp only: unescape_escape_key Let_def prod.case option.case) simp
qed

lemma parse_validate: "parse s = Some u \<Longrightarrow> validate u"
  by (auto simp: parse_def Let_def split: if_splits option.splits prod.splits)

lemma atoi_bound: "atoi s = Some v \<Longrightarrow> v \<le> max_int"
  by (auto simp: atoi_def Let_def max_int_def split: if_splits prod.splits list.splits)

lemma parse_version: "parse s = Some u \<Longrightarrow> u_version u \<le> max_int"
  by (auto simp: parse_def Let_def query_version_def max_int_def split: if_splits option.splits prod.splits
      dest!: atoi_bound)

subsection \<open>Properties of logical URLs\<close>

text \<open>
  C34. The text of a valid URL reads back as the URL, whatever bytes its key holds.
\<close>

theorem lnk_round_trip:
  assumes "validate u" and "u_version u \<le> max_int"
  shows "parse (url_string u) = Some u \<and> url_of (url_string u) = u \<and> unmarshal_text (url_string u) = Some u"
proof -
  have "url_string u \<noteq> []" using parse_url_string [OF assms] by (auto simp: parse_def)
  then show ?thesis using parse_url_string [OF assms] by (simp add: url_of_def unmarshal_text_def)
qed

theorem lnk_round_trip_witness:
  "let u = \<lparr>u_source = ''alm'', u_type = ''Requirement'', u_key = ''a b?c/%'', u_version = 12\<rparr>
   in url_string u = ''lnk:alm/Requirement/a%20b%3Fc/%25?v=12'' \<and> parse (url_string u) = Some u"
proof -
  let ?u = "\<lparr>u_source = ''alm'', u_type = ''Requirement'', u_key = ''a b?c/%'', u_version = 12\<rparr>"
  have "validate ?u" "u_version ?u \<le> max_int" by code_simp+
  from lnk_round_trip [OF this] have "parse (url_string ?u) = Some ?u" by simp
  moreover have "url_string ?u = ''lnk:alm/Requirement/a%20b%3Fc/%25?v=12''" by code_simp
  ultimately show ?thesis by simp
qed

text \<open>
  What Parse accepts is valid, its canonical text names it (read back it is the same URL), and
  a text that reads as the URL, at any version, names the thing of it.
\<close>

theorem lnk_parse_canonical:
  assumes "parse s = Some u"
  shows "validate u \<and> parse (url_string u) = Some u \<and> url_names (at_version u v) s"
proof -
  have valid: "validate u" using parse_validate assms by blast
  have "\<not> url_is_zero (at_version u v)" "s \<noteq> []"
    using valid assms by (auto simp: url_is_zero_def at_version_def validate_def parse_def)
  then have "url_names (at_version u v) s" using assms by (simp add: url_names_def logical_def at_version_def)
  then show ?thesis using valid parse_url_string [OF valid parse_version [OF assms]] by simp
qed

theorem lnk_parse_canonical_witness:
  "\<exists>u. parse ''lnk:alm/T/k%2fx?v=3'' = Some u \<and> url_string u = ''lnk:alm/T/k/x?v=3''
     \<and> parse ''lnk:alm/T/k/x?v=3'' = Some u"
proof -
  let ?u = "\<lparr>u_source = ''alm'', u_type = ''T'', u_key = ''k/x'', u_version = 3\<rparr>"
  have p: "parse ''lnk:alm/T/k%2fx?v=3'' = Some ?u" by code_simp
  have s: "url_string ?u = ''lnk:alm/T/k/x?v=3''" by code_simp
  show ?thesis using lnk_parse_canonical [OF p] p s by (intro exI [of _ ?u]) simp
qed

end
