(* ===== verification/Lifecycle.thy ===== *)
theory Lifecycle
  imports Prelude
begin

text \<open>
  contracts/domain/lifecycle.go, visibility.go and typeref.go: type references, the visibility
  scopes, the state machine of a node type (lookup of states and transitions, what may commit) and
  the check of its definition (Issues), the gates and the freezes of its transitions. A nil
  lifecycle is None. The messages of Issues are constructors with the values the text carries. The
  resolved algorithm bindings of a transition (GuardAlgos, ActionAlgos) are not read here and left out.
\<close>

subsection \<open>Type references\<close>

record type_ref =
  tr_namespace :: string
  tr_name :: string

definition type_ref_string :: "type_ref \<Rightarrow> string" where
  "type_ref_string r = (if tr_namespace r = [] then tr_name r else tr_namespace r @ ''@'' @ tr_name r)"

definition type_ref_is_zero :: "type_ref \<Rightarrow> bool" where
  "type_ref_is_zero r \<longleftrightarrow> tr_name r = []"

definition type_ref_qualified :: "type_ref \<Rightarrow> bool" where
  "type_ref_qualified r \<longleftrightarrow> tr_namespace r \<noteq> [] \<and> tr_name r \<noteq> []"

definition parse_type_ref :: "string \<Rightarrow> type_ref option" where
  "parse_type_ref s = (case cut (CHR ''@'') s of
     None \<Rightarrow> if s = [] then None else Some \<lparr>tr_namespace = [], tr_name = s\<rparr>
   | Some (ns, name) \<Rightarrow> if ns = [] \<or> name = [] \<or> CHR ''@'' \<in> set name then None
       else Some \<lparr>tr_namespace = ns, tr_name = name\<rparr>)"

definition qualify_in :: "string \<Rightarrow> string \<Rightarrow> type_ref option" where
  "qualify_in ns s = map_option (\<lambda>r. if tr_namespace r = [] then r\<lparr>tr_namespace := ns\<rparr> else r) (parse_type_ref s)"

subsection \<open>Visibility\<close>

definition visibilities :: "string list" where
  "visibilities = [''personal'', ''private'', ''project'', ''tree'', ''public'']"

definition visibility_of :: "string \<Rightarrow> string" where
  "visibility_of v = (if v = [] then ''project'' else v)"

definition visibility_ok :: "string \<Rightarrow> bool" where
  "visibility_ok v \<longleftrightarrow> v = [] \<or> v \<in> set visibilities"

subsection \<open>Lifecycles\<close>

record lifecycle_state =
  ls_name :: string
  ls_description :: string
  ls_not_committable :: bool
  ls_final :: bool
  ls_visibility :: string

record criterion =
  cr_name :: string
  cr_expr :: string
  cr_description :: string

record freezes =
  fz_fields :: "string list"
  fz_types :: "string list"
  fz_transitions :: bool
  fz_keep_phase :: bool

record transition_requires =
  rq_attributes :: "string list"
  rq_outgoing :: "string list"

record transition =
  t_name :: string
  t_description :: string
  t_from :: string
  t_to :: string
  t_permission :: string
  t_guard :: string
  t_vetos :: "criterion list"
  t_objectives :: "criterion list"
  t_guards :: "string list"
  t_actions :: "string list"
  t_requires :: transition_requires
  t_children :: "string list option"
  t_freezes :: "freezes option"

record lifecycle =
  l_name :: string
  l_description :: string
  l_initial :: string
  l_states :: "lifecycle_state list"
  l_transitions :: "transition list"

definition zero_state :: lifecycle_state where
  "zero_state = \<lparr>ls_name = [], ls_description = [], ls_not_committable = False, ls_final = False, ls_visibility = []\<rparr>"

definition lc_state :: "lifecycle option \<Rightarrow> string \<Rightarrow> lifecycle_state option" where
  "lc_state l name = (case l of None \<Rightarrow> None | Some l \<Rightarrow> find (\<lambda>s. ls_name s = name) (l_states l))"

definition committable :: "lifecycle option \<Rightarrow> string \<Rightarrow> bool" where
  "committable l state = (if l = None \<or> state = [] then True
     else (case lc_state l state of None \<Rightarrow> True | Some s \<Rightarrow> \<not> ls_not_committable s))"

definition lc_transition :: "lifecycle option \<Rightarrow> string \<Rightarrow> string \<Rightarrow> transition option" where
  "lc_transition l from name = (case l of None \<Rightarrow> None
     | Some l \<Rightarrow> find (\<lambda>t. t_from t = from \<and> t_name t = name) (l_transitions l))"

definition lc_move :: "lifecycle option \<Rightarrow> string \<Rightarrow> string \<Rightarrow> transition option" where
  "lc_move l from to = (case l of None \<Rightarrow> None
     | Some l \<Rightarrow> find (\<lambda>t. t_from t = from \<and> t_to t = to) (l_transitions l))"

definition state_names :: "lifecycle option \<Rightarrow> string list" where
  "state_names l = (case l of None \<Rightarrow> [] | Some l \<Rightarrow> map ls_name (l_states l))"

definition state_visibility :: "lifecycle option \<Rightarrow> string \<Rightarrow> string" where
  "state_visibility l state = (case l of None \<Rightarrow> []
     | Some l \<Rightarrow> (case find (\<lambda>s. ls_name s = (if state = [] then l_initial l else state)) (l_states l) of
         Some s \<Rightarrow> ls_visibility s | None \<Rightarrow> []))"

definition has_suffix :: "string \<Rightarrow> string \<Rightarrow> bool" where
  "has_suffix s suf \<longleftrightarrow> length suf \<le> length s \<and> drop (length s - length suf) s = suf"

definition is_contains :: "string \<Rightarrow> bool" where
  "is_contains lt \<longleftrightarrow> lt = ''contains'' \<or> has_suffix lt ''@contains''"

subsection \<open>Freezes and gates\<close>

definition freezes_empty :: "freezes option \<Rightarrow> bool" where
  "freezes_empty f = (case f of None \<Rightarrow> True
     | Some f \<Rightarrow> fz_fields f = [] \<and> fz_types f = [] \<and> \<not> fz_keep_phase f)"

definition frozen_field :: "freezes option \<Rightarrow> string \<Rightarrow> bool" where
  "frozen_field f field = (case f of None \<Rightarrow> False
     | Some f \<Rightarrow> field \<in> set (fz_fields f)
         \<or> (''description'' \<in> set (fz_fields f) \<and> (field = ''title'' \<or> field = ''intent'')))"

record gate_result =
  gr_vetoed :: "string list"
  gr_unmet :: "string list"
  gr_reserve :: "(string, string) gomap"

definition uncovered :: "gate_result \<Rightarrow> string list" where
  "uncovered r = filter (\<lambda>n. map_of (gr_reserve r) n = None) (gr_unmet r)"

definition gate_passed :: "gate_result \<Rightarrow> bool" where
  "gate_passed r \<longleftrightarrow> gr_vetoed r = [] \<and> uncovered r = []"

definition with_reserve :: "gate_result \<Rightarrow> bool" where
  "with_reserve r \<longleftrightarrow> gr_vetoed r = [] \<and> gr_unmet r \<noteq> [] \<and> gate_passed r"

subsection \<open>The check of a definition\<close>

datatype issue = NoStateName | DuplicateState string | BadVisibility string string
  | FinalNotCommittable string | NoStates | BadInitial string | NoCommittable
  | NoTransitionName nat | UnknownState string string | DuplicateTransition string string
  | LeavesFinal string string | EmptyChildState string | NoChildStates string | Stuck string

text \<open>The scan of the states keeps the messages, the names and the number of committable states.\<close>

fun state_issue :: "issue list \<times> string list \<times> nat \<Rightarrow> lifecycle_state \<Rightarrow> issue list \<times> string list \<times> nat" where
  "state_issue (out, names, com) s =
     (if ls_name s = [] then (out @ [NoStateName], names, com)
      else if ls_name s \<in> set names then (out @ [DuplicateState (ls_name s)], names, com)
      else let out1 = out @ (if visibility_ok (ls_visibility s) then []
                 else [BadVisibility (ls_name s) (ls_visibility s)]);
               names1 = ls_name s # names in
        if \<not> ls_not_committable s then (out1, names1, com + 1)
        else if ls_final s then (out1 @ [FinalNotCommittable (ls_name s)], names1, com)
        else (out1, names1, com))"

definition state_of :: "lifecycle \<Rightarrow> string \<Rightarrow> lifecycle_state" where
  "state_of l n = (case lc_state (Some l) n of Some s \<Rightarrow> s | None \<Rightarrow> zero_state)"

definition children_issues :: "transition \<Rightarrow> issue list" where
  "children_issues t = (case t_children t of None \<Rightarrow> []
     | Some sts \<Rightarrow> map (\<lambda>_. EmptyChildState (t_name t)) (filter (\<lambda>st. st = []) sts)
         @ (if sts = [] then [NoChildStates (t_name t)] else []))"

definition next_of :: "(string, string list) gomap \<Rightarrow> string \<Rightarrow> string list" where
  "next_of nxt s = (case map_of nxt s of Some ts \<Rightarrow> ts | None \<Rightarrow> [])"

text \<open>The scan of the transitions keeps the messages, the pairs seen and the successors of a state.\<close>

fun transition_issue :: "lifecycle \<Rightarrow> string list
    \<Rightarrow> issue list \<times> (string \<times> string) list \<times> (string, string list) gomap \<Rightarrow> nat \<times> transition
    \<Rightarrow> issue list \<times> (string \<times> string) list \<times> (string, string list) gomap" where
  "transition_issue l names (out, seen, nxt) (i, t) =
     (let (out1, seen1, nxt1) =
       (if t_name t = [] then (out @ [NoTransitionName i], seen, nxt)
        else if t_from t \<notin> set names then (out @ [UnknownState (t_name t) (t_from t)], seen, nxt)
        else if t_to t \<notin> set names then (out @ [UnknownState (t_name t) (t_to t)], seen, nxt)
        else if (t_from t, t_name t) \<in> set seen then (out @ [DuplicateTransition (t_name t) (t_from t)], seen, nxt)
        else (out @ (if ls_final (state_of l (t_from t)) then [LeavesFinal (t_name t) (t_from t)] else []),
              (t_from t, t_name t) # seen, mput (t_from t) (next_of nxt (t_from t) @ [t_to t]) nxt))
      in (out1 @ children_issues t, seen1, nxt1))"

text \<open>The search of a committable state: one state off the queue, then the rest of the queue.\<close>

fun visit :: "(string \<Rightarrow> bool) \<Rightarrow> string list \<Rightarrow> string list \<Rightarrow> string list \<Rightarrow> string list \<times> string list \<times> bool" where
  "visit com [] reach todo = (reach, todo, False)"
| "visit com (n # ns) reach todo = (if n \<in> set reach then visit com ns reach todo
     else if com n then (n # reach, todo, True)
     else visit com ns (n # reach) (todo @ [n]))"

definition targets :: "(string, string list) gomap \<Rightarrow> string set" where
  "targets nxt = (\<Union>s. set (next_of nxt s))"

lemma finite_targets [simp]: "finite (targets nxt)"
proof -
  have "set (next_of nxt s) \<subseteq> (\<Union>p \<in> set nxt. set (snd p))" for s
  proof (cases "map_of nxt s")
    case (Some ts)
    then have "(s, ts) \<in> set nxt" by (rule map_of_SomeD)
    then show ?thesis using Some by (force simp: next_of_def)
  qed (simp add: next_of_def)
  then have "targets nxt \<subseteq> (\<Union>p \<in> set nxt. set (snd p))" by (auto simp: targets_def)
  then show ?thesis by (rule finite_subset) simp
qed

lemma visit_measure:
  "visit com ns reach todo = (reach', todo', ok) \<Longrightarrow> finite U \<Longrightarrow> set ns \<subseteq> U \<Longrightarrow>
   2 * card (U - set reach') + length todo' \<le> 2 * card (U - set reach) + length todo"
proof (induction com ns reach todo rule: visit.induct)
  case (2 com n ns reach todo)
  have less: "card (U - set (n # reach)) < card (U - set reach)" if "n \<notin> set reach"
    using 2 that by (intro psubset_card_mono) auto
  show ?case
  proof (cases "n \<in> set reach")
    case True
    then show ?thesis using 2 by simp
  next
    case new: False
    show ?thesis
    proof (cases "com n")
      case True
      then show ?thesis using new less 2 by auto
    next
      case False
      have "2 * card (U - set reach') + length todo' \<le> 2 * card (U - set (n # reach)) + length (todo @ [n])"
        using 2 new False by (intro "2.IH"(2)) auto
      then show ?thesis using less [OF new] by simp
    qed
  qed
qed simp

function can_commit :: "(string \<Rightarrow> bool) \<Rightarrow> (string, string list) gomap \<Rightarrow> string list \<Rightarrow> string list \<Rightarrow> bool" where
  "can_commit com nxt reach [] = False"
| "can_commit com nxt reach (cur # todo) =
     (let (reach1, todo1, ok) = visit com (next_of nxt cur) reach todo
      in if ok then True else can_commit com nxt reach1 todo1)"
  by pat_completeness auto
termination
proof (relation "measure (\<lambda>(com, nxt, reach, todo). 2 * card (targets nxt - set reach) + length todo)")
  fix com nxt reach and cur :: string and todo x reach1 y todo1 ok
  assume "x = visit com (next_of nxt cur) reach todo" "(reach1, y) = x" "(todo1, ok) = y"
  then have "visit com (next_of nxt cur) reach todo = (reach1, todo1, ok)" by simp
  moreover have "set (next_of nxt cur) \<subseteq> targets nxt" by (auto simp: targets_def)
  ultimately have "2 * card (targets nxt - set reach1) + length todo1 \<le> 2 * card (targets nxt - set reach) + length todo"
    by (intro visit_measure) simp_all
  then
  show "((com, nxt, reach1, todo1), (com, nxt, reach, cur # todo))
      \<in> measure (\<lambda>(com, nxt, reach, todo). 2 * card (targets nxt - set reach) + length todo)"
    by simp
qed simp

definition stuck_issues :: "lifecycle \<Rightarrow> string list \<Rightarrow> (string, string list) gomap \<Rightarrow> lifecycle_state \<Rightarrow> issue list" where
  "stuck_issues l names nxt s = (if \<not> ls_not_committable s \<or> ls_name s \<notin> set names then []
     else if can_commit (\<lambda>n. \<not> ls_not_committable (state_of l n)) nxt [ls_name s] [ls_name s] then []
     else [Stuck (ls_name s)])"

definition issues :: "lifecycle option \<Rightarrow> issue list" where
  "issues lo = (case lo of None \<Rightarrow> [] | Some l \<Rightarrow>
     let (out, names, com) = foldl state_issue ([], [], 0) (l_states l) in
     if l_states l = [] then out @ [NoStates]
     else let out1 = out @ (if l_initial l \<in> set names then [] else [BadInitial (l_initial l)])
                @ (if com = 0 then [NoCommittable] else []);
              (out2, seen, nxt) = foldl (transition_issue l names) (out1, [], []) (List.enumerate 0 (l_transitions l))
          in out2 @ concat (map (stuck_issues l names nxt) (l_states l)))"

subsection \<open>Scans without a message\<close>

text \<open>A scan only adds messages; it ends with none when each step adds none.\<close>

definition state_fine :: "lifecycle_state \<Rightarrow> bool" where
  "state_fine s \<longleftrightarrow> ls_name s \<noteq> [] \<and> visibility_ok (ls_visibility s) \<and> \<not> (ls_not_committable s \<and> ls_final s)"

lemma state_scan_names:
  "foldl state_issue (out, names, com) ss = (out', names', com') \<Longrightarrow>
   set names' = set names \<union> (ls_name ` set ss - {[]})"
proof (induction ss arbitrary: out names com)
  case (Cons s ss)
  obtain o1 n1 c1 where s1: "state_issue (out, names, com) s = (o1, n1, c1)" by (metis prod_cases3)
  then have "set n1 = set names \<union> ({ls_name s} - {[]})" by (auto simp: Let_def split: if_splits)
  then show ?case using Cons.IH [of o1 n1 c1] Cons.prems s1 by auto
qed simp

lemma state_scan_grows: "foldl state_issue (out, names, com) ss = (out', names', com') \<Longrightarrow> \<exists>x. out' = out @ x"
proof (induction ss arbitrary: out names com)
  case (Cons s ss)
  obtain o1 n1 c1 where s1: "state_issue (out, names, com) s = (o1, n1, c1)" by (metis prod_cases3)
  then have "\<exists>x. o1 = out @ x" by (auto simp: Let_def split: if_splits)
  then show ?case using Cons.IH [of o1 n1 c1] Cons.prems s1 by auto
qed simp

lemma state_scan_fine:
  "foldl state_issue ([], names, com) ss = (out', names', com') \<Longrightarrow>
   out' = [] \<longleftrightarrow> list_all state_fine ss \<and> distinct (map ls_name ss) \<and> set (map ls_name ss) \<inter> set names = {}"
proof (induction ss arbitrary: names com)
  case (Cons s ss)
  obtain o1 n1 c1 where s1: "state_issue ([], names, com) s = (o1, n1, c1)" by (metis prod_cases3)
  have step: "o1 = [] \<longleftrightarrow> state_fine s \<and> ls_name s \<notin> set names"
    and n1: "o1 = [] \<Longrightarrow> n1 = ls_name s # names"
    using s1 by (auto simp: state_fine_def Let_def split: if_splits)
  have rest: "foldl state_issue (o1, n1, c1) ss = (out', names', com')" using Cons.prems s1 by simp
  show ?case
  proof (cases "o1 = []")
    case True
    then show ?thesis using Cons.IH [of n1 c1] rest step n1 by auto
  next
    case False
    then have "out' \<noteq> []" using state_scan_grows [OF rest] by auto
    then show ?thesis using False step by auto
  qed
qed simp

lemma state_scan_com:
  "foldl state_issue (out, names, com) ss = (out', names', com') \<Longrightarrow> list_all state_fine ss \<Longrightarrow>
   distinct (map ls_name ss) \<Longrightarrow> set (map ls_name ss) \<inter> set names = {} \<Longrightarrow>
   com' = com + length (filter (\<lambda>s. \<not> ls_not_committable s) ss)"
proof (induction ss arbitrary: out names com)
  case (Cons s ss)
  obtain o1 n1 c1 where s1: "state_issue (out, names, com) s = (o1, n1, c1)" by (metis prod_cases3)
  have "n1 = ls_name s # names" "c1 = com + (if ls_not_committable s then 0 else 1)"
    using s1 Cons.prems by (auto simp: state_fine_def Let_def split: if_splits)
  then show ?case using Cons.IH [of o1 n1 c1] Cons.prems s1 by simp
qed simp

text \<open>The transitions of a definition with no message, and the successors the scan collects.\<close>

definition transition_fine :: "lifecycle \<Rightarrow> string list \<Rightarrow> transition \<Rightarrow> bool" where
  "transition_fine l names t \<longleftrightarrow> t_name t \<noteq> [] \<and> t_from t \<in> set names \<and> t_to t \<in> set names
     \<and> \<not> ls_final (state_of l (t_from t))
     \<and> (case t_children t of None \<Rightarrow> True | Some sts \<Rightarrow> sts \<noteq> [] \<and> [] \<notin> set sts)"

definition t_key :: "transition \<Rightarrow> string \<times> string" where
  "t_key t = (t_from t, t_name t)"

lemma children_issues_none:
  "children_issues t = [] \<longleftrightarrow> (case t_children t of None \<Rightarrow> True | Some sts \<Rightarrow> sts \<noteq> [] \<and> [] \<notin> set sts)"
  by (auto simp: children_issues_def filter_empty_conv split: option.splits)

lemma transition_step:
  assumes "transition_issue l names (out, seen, nxt) (i, t) = (o1, s1, n1)"
  shows "\<exists>x. o1 = out @ x \<and> (x = [] \<longleftrightarrow> transition_fine l names t \<and> t_key t \<notin> set seen)
    \<and> (x = [] \<longrightarrow> s1 = t_key t # seen \<and> n1 = mput (t_from t) (next_of nxt (t_from t) @ [t_to t]) nxt)"
  using assms children_issues_none [of t]
  by (auto simp: transition_fine_def t_key_def Let_def split: if_splits)

lemma transition_scan_grows:
  "foldl (transition_issue l names) (out, seen, nxt) its = (out', seen', nxt') \<Longrightarrow> \<exists>x. out' = out @ x"
proof (induction its arbitrary: out seen nxt)
  case (Cons it its)
  obtain i t where it: "it = (i, t)" by (cases it)
  obtain o1 s1 n1 where st: "transition_issue l names (out, seen, nxt) it = (o1, s1, n1)" by (metis prod_cases3)
  then show ?case using Cons.IH [of o1 s1 n1] Cons.prems transition_step [OF st [unfolded it]] by auto
qed simp

definition edges :: "transition list \<Rightarrow> (string \<times> string) set" where
  "edges ts = (\<lambda>t. (t_from t, t_to t)) ` set ts"

lemma transition_scan_fine:
  "foldl (transition_issue l names) ([], seen, nxt) its = (out', seen', nxt') \<Longrightarrow>
   (out' = [] \<longleftrightarrow> list_all (transition_fine l names) (map snd its) \<and> distinct (map t_key (map snd its))
      \<and> set (map t_key (map snd its)) \<inter> set seen = {})
   \<and> (out' = [] \<longrightarrow> (\<forall>s. set (next_of nxt' s) = set (next_of nxt s) \<union> edges (map snd its) `` {s}))"
proof (induction its arbitrary: seen nxt)
  case (Cons it its)
  obtain i t where it: "it = (i, t)" by (cases it)
  obtain o1 s1 n1 where st: "transition_issue l names ([], seen, nxt) it = (o1, s1, n1)" by (metis prod_cases3)
  have step: "(o1 = [] \<longleftrightarrow> transition_fine l names t \<and> t_key t \<notin> set seen)
    \<and> (o1 = [] \<longrightarrow> s1 = t_key t # seen \<and> n1 = mput (t_from t) (next_of nxt (t_from t) @ [t_to t]) nxt)"
    using transition_step [OF st [unfolded it]] by auto
  have rest: "foldl (transition_issue l names) (o1, s1, n1) its = (out', seen', nxt')"
    using Cons.prems st by simp
  show ?case
  proof (cases "o1 = []")
    case True
    have nx: "set (next_of n1 s) = set (next_of nxt s) \<union> (if s = t_from t then {t_to t} else {})" for s
      using step True by (auto simp: next_of_def)
    show ?thesis using Cons.IH [of s1 n1] rest step True nx it
      by (auto simp: edges_def)
  next
    case False
    then have "out' \<noteq> []" using transition_scan_grows [OF rest] by auto
    then show ?thesis using False step it by auto
  qed
qed (simp add: edges_def)

subsection \<open>The search of a committable state\<close>

lemma visit_result:
  "visit com ns reach todo = (reach', todo', ok) \<Longrightarrow>
   (ok \<longrightarrow> (\<exists>n \<in> set ns. com n)) \<and>
   (\<not> ok \<longrightarrow> set reach' = set reach \<union> set ns \<and> set todo' = set todo \<union> (set ns - set reach)
      \<and> (\<forall>n \<in> set ns - set reach. \<not> com n))"
  by (induction com ns reach todo rule: visit.induct) (auto split: if_splits)

lemma can_commit_correct:
  assumes "\<And>s. set (next_of nxt s) = E `` {s}"
  shows "set todo \<subseteq> set reach \<Longrightarrow> \<forall>x \<in> set reach. \<not> com x \<and> (x \<in> set todo \<or> E `` {x} \<subseteq> set reach) \<Longrightarrow>
    can_commit com nxt reach todo \<longleftrightarrow> (\<exists>x \<in> set reach. \<exists>n. (x, n) \<in> E\<^sup>* \<and> com n)"
  using assms
proof (induction com nxt reach todo rule: can_commit.induct)
  case (1 com nxt reach)
  have "n \<in> set reach" if "x \<in> set reach" "(x, n) \<in> E\<^sup>*" for x n
    using that(2,1) 1 by (induction rule: rtrancl_induct) auto
  then show ?case using 1 by auto
next
  case (2 com nxt reach cur todo)
  obtain reach1 todo1 ok where v: "visit com (next_of nxt cur) reach todo = (reach1, todo1, ok)"
    by (metis prod_cases3)
  note R = visit_result [OF v]
  show ?case
  proof (cases ok)
    case True
    then obtain n where "(cur, n) \<in> E" "com n" using R 2 by auto
    then show ?thesis using True v 2 by auto
  next
    case False
    have eq: "can_commit com nxt reach (cur # todo) = can_commit com nxt reach1 todo1" using v False by simp
    have "set todo1 \<subseteq> set reach1" using R False 2 by auto
    moreover have "\<forall>x \<in> set reach1. \<not> com x \<and> (x \<in> set todo1 \<or> E `` {x} \<subseteq> set reach1)"
      using R False 2 by auto
    ultimately have "can_commit com nxt reach1 todo1 \<longleftrightarrow> (\<exists>x \<in> set reach1. \<exists>n. (x, n) \<in> E\<^sup>* \<and> com n)"
      using "2.IH" [OF v [symmetric] refl refl False] 2 by simp
    also have "\<dots> \<longleftrightarrow> (\<exists>x \<in> set reach. \<exists>n. (x, n) \<in> E\<^sup>* \<and> com n)"
      using R False 2 by (auto intro: converse_rtrancl_into_rtrancl)
    finally show ?thesis using eq by simp
  qed
qed

subsection \<open>What a definition with no message is\<close>

definition lifecycle_ok :: "lifecycle \<Rightarrow> bool" where
  "lifecycle_ok l \<longleftrightarrow>
     l_states l \<noteq> [] \<and> distinct (map ls_name (l_states l)) \<and> l_initial l \<in> ls_name ` set (l_states l)
     \<and> (\<forall>s \<in> set (l_states l). ls_name s \<noteq> [] \<and> visibility_ok (ls_visibility s)
          \<and> (ls_final s \<longrightarrow> \<not> ls_not_committable s)
          \<and> (\<exists>c \<in> set (l_states l). \<not> ls_not_committable c \<and> (ls_name s, ls_name c) \<in> (edges (l_transitions l))\<^sup>*))
     \<and> (\<forall>t \<in> set (l_transitions l). t_name t \<noteq> []
          \<and> (\<exists>s \<in> set (l_states l). ls_name s = t_from t \<and> \<not> ls_final s)
          \<and> t_to t \<in> ls_name ` set (l_states l)
          \<and> (case t_children t of None \<Rightarrow> True | Some sts \<Rightarrow> sts \<noteq> [] \<and> [] \<notin> set sts))
     \<and> distinct (map (\<lambda>t. (t_from t, t_name t)) (l_transitions l))"

lemma state_of_name:
  "distinct (map ls_name (l_states l)) \<Longrightarrow> s \<in> set (l_states l) \<Longrightarrow> state_of l (ls_name s) = s"
proof -
  assume d: "distinct (map ls_name (l_states l))" and s: "s \<in> set (l_states l)"
  have "find (\<lambda>x. ls_name x = ls_name s) ss = Some s" if "distinct (map ls_name ss)" "s \<in> set ss" for ss
    using that by (induction ss) auto
  then show ?thesis using d s by (simp add: state_of_def lc_state_def)
qed

lemma transitions_fine:
  assumes "distinct (map ls_name (l_states l))" "set names = ls_name ` set (l_states l)"
  shows "transition_fine l names t \<longleftrightarrow> t_name t \<noteq> []
      \<and> (\<exists>s \<in> set (l_states l). ls_name s = t_from t \<and> \<not> ls_final s)
      \<and> t_to t \<in> ls_name ` set (l_states l)
      \<and> (case t_children t of None \<Rightarrow> True | Some sts \<Rightarrow> sts \<noteq> [] \<and> [] \<notin> set sts)"
proof -
  have "t_from t \<in> set names \<and> \<not> ls_final (state_of l (t_from t))
      \<longleftrightarrow> (\<exists>s \<in> set (l_states l). ls_name s = t_from t \<and> \<not> ls_final s)"
    using state_of_name [OF assms(1)] assms(2) by (metis (no_types, lifting) imageE imageI)
  then show ?thesis using assms(2) by (auto simp: transition_fine_def)
qed

lemma reach_states:
  assumes "\<forall>t \<in> set ts. t_to t \<in> N" "(a, b) \<in> (edges ts)\<^sup>*" "a \<in> N" shows "b \<in> N"
  using assms(2,3,1) by (induction rule: rtrancl_induct) (auto simp: edges_def)

lemma map_snd_enumerate: "map snd (List.enumerate n xs) = xs"
  by (simp add: enumerate_eq_zip)

lemma stuck_none:
  assumes d: "distinct (map ls_name (l_states l))" and n: "set names = ls_name ` set (l_states l)"
    and E: "\<And>x. set (next_of nxt x) = edges (l_transitions l) `` {x}"
    and tf: "\<forall>t \<in> set (l_transitions l). t_to t \<in> ls_name ` set (l_states l)"
    and s: "s \<in> set (l_states l)"
  shows "stuck_issues l names nxt s = [] \<longleftrightarrow>
    (\<exists>c \<in> set (l_states l). \<not> ls_not_committable c \<and> (ls_name s, ls_name c) \<in> (edges (l_transitions l))\<^sup>*)"
proof (cases "ls_not_committable s")
  case False
  then show ?thesis using s by (auto simp: stuck_issues_def)
next
  case True
  let ?com = "\<lambda>n. \<not> ls_not_committable (state_of l n)"
  have "can_commit ?com nxt [ls_name s] [ls_name s]
      \<longleftrightarrow> (\<exists>m. (ls_name s, m) \<in> (edges (l_transitions l))\<^sup>* \<and> ?com m)"
    using can_commit_correct [OF E, of "[ls_name s]" "[ls_name s]" ?com] True state_of_name [OF d s] by simp
  also have "\<dots> \<longleftrightarrow> (\<exists>c \<in> set (l_states l). \<not> ls_not_committable c \<and> (ls_name s, ls_name c) \<in> (edges (l_transitions l))\<^sup>*)"
  proof
    assume "\<exists>m. (ls_name s, m) \<in> (edges (l_transitions l))\<^sup>* \<and> ?com m"
    then obtain m where m: "(ls_name s, m) \<in> (edges (l_transitions l))\<^sup>*" "?com m" by blast
    then obtain c where "c \<in> set (l_states l)" "m = ls_name c" using reach_states [OF tf m(1)] s by auto
    then show "\<exists>c \<in> set (l_states l). \<not> ls_not_committable c \<and> (ls_name s, ls_name c) \<in> (edges (l_transitions l))\<^sup>*"
      using m state_of_name [OF d, of c] by auto
  next
    assume "\<exists>c \<in> set (l_states l). \<not> ls_not_committable c \<and> (ls_name s, ls_name c) \<in> (edges (l_transitions l))\<^sup>*"
    then show "\<exists>m. (ls_name s, m) \<in> (edges (l_transitions l))\<^sup>* \<and> ?com m"
      using state_of_name [OF d] by auto
  qed
  finally show ?thesis using True s n by (simp add: stuck_issues_def)
qed

lemma issues_none_iff: "issues (Some l) = [] \<longleftrightarrow> lifecycle_ok l"
proof -
  obtain out names com where sc: "foldl state_issue ([], [], 0) (l_states l) = (out, names, com)" by (metis prod_cases3)
  let ?out1 = "out @ (if l_initial l \<in> set names then [] else [BadInitial (l_initial l)]) @ (if com = 0 then [NoCommittable] else [])"
  obtain out2 seen nxt where tr: "foldl (transition_issue l names) (?out1, [], []) (List.enumerate 0 (l_transitions l)) = (out2, seen, nxt)"
    by (metis prod_cases3)
  have eq: "issues (Some l) = (if l_states l = [] then out @ [NoStates] else out2 @ concat (map (stuck_issues l names nxt) (l_states l)))"
    using sc tr by (simp add: issues_def)
  show ?thesis
  proof (cases "out = [] \<and> l_states l \<noteq> [] \<and> ?out1 = []")
    case False
    have "out2 \<noteq> []" if "?out1 \<noteq> []" using transition_scan_grows [OF tr] that by auto
    then have bad: "issues (Some l) \<noteq> []" using False eq by auto
    have "\<not> lifecycle_ok l"
    proof
      assume ok: "lifecycle_ok l"
      then have f: "list_all state_fine (l_states l)" "distinct (map ls_name (l_states l))"
        by (auto simp: lifecycle_ok_def state_fine_def list_all_iff)
      then have "out = []" using state_scan_fine [OF sc] by simp
      moreover have "l_initial l \<in> set names" using state_scan_names [OF sc] ok by (auto simp: lifecycle_ok_def)
      moreover have "com \<noteq> 0" using state_scan_com [OF sc f] ok
        by (auto simp: lifecycle_ok_def filter_empty_conv neq_Nil_conv)
      ultimately show False using False ok by (simp add: lifecycle_ok_def)
    qed
    then show ?thesis using bad by simp
  next
    case True
    then have fine: "list_all state_fine (l_states l)" and d: "distinct (map ls_name (l_states l))"
      and init: "l_initial l \<in> set names"
      using state_scan_fine [OF sc] by (auto split: if_splits)
    have n: "set names = ls_name ` set (l_states l)"
      using state_scan_names [OF sc] fine by (auto simp: state_fine_def list_all_iff)
    have "?out1 = []" using True by blast
    note T = transition_scan_fine [OF tr [unfolded this], unfolded map_snd_enumerate]
    have out2: "out2 = [] \<longleftrightarrow> (\<forall>t \<in> set (l_transitions l). transition_fine l names t) \<and> distinct (map t_key (l_transitions l))"
      using T by (simp add: list_all_iff)
    have keys: "map t_key (l_transitions l) = map (\<lambda>t. (t_from t, t_name t)) (l_transitions l)" by (simp add: t_key_def)
    have stuck: "concat (map (stuck_issues l names nxt) (l_states l)) = [] \<longleftrightarrow>
        (\<forall>s \<in> set (l_states l). \<exists>c \<in> set (l_states l). \<not> ls_not_committable c \<and> (ls_name s, ls_name c) \<in> (edges (l_transitions l))\<^sup>*)"
      if "out2 = []"
    proof -
      have "set (next_of nxt x) = edges (l_transitions l) `` {x}" for x using T that by (auto simp: next_of_def)
      moreover have "\<forall>t \<in> set (l_transitions l). t_to t \<in> ls_name ` set (l_states l)"
        using out2 that n by (auto simp: transition_fine_def)
      ultimately show ?thesis using stuck_none [OF d n] by simp
    qed
    show ?thesis
      unfolding eq lifecycle_ok_def
      using True d init n fine out2 stuck keys transitions_fine [OF d n]
      by (auto simp: state_fine_def list_all_iff)
  qed
qed

subsection \<open>Properties of lifecycles\<close>

text \<open>
  C37. The check of a lifecycle has no message exactly when the definition is well formed: named and
  distinct states with a valid scope, a known initial state, transitions between known states that
  never leave a final one, distinct by state and name, and from every state a committable state that
  the transitions reach.
\<close>

theorem lifecycle_issues_exact: "issues (Some l) = [] \<longleftrightarrow> lifecycle_ok l"
  by (rule issues_none_iff)

text \<open>
  C26. In a lifecycle that passes the check no node is trapped: every state reaches one in which a
  node may commit, and a final state is one.
\<close>

theorem lifecycle_never_trapped:
  assumes "issues (Some l) = []" and "s \<in> set (l_states l)"
  shows "(\<exists>c. (ls_name s, c) \<in> (edges (l_transitions l))\<^sup>* \<and> committable (Some l) c)
    \<and> (ls_final s \<longrightarrow> committable (Some l) (ls_name s) \<and> (\<forall>t. lc_transition (Some l) (ls_name s) t = None))"
proof -
  have ok: "lifecycle_ok l" using assms(1) issues_none_iff by blast
  then have d: "distinct (map ls_name (l_states l))" by (simp add: lifecycle_ok_def)
  have com: "committable (Some l) (ls_name c) \<longleftrightarrow> \<not> ls_not_committable c" if "c \<in> set (l_states l)" for c
  proof -
    have "find (\<lambda>x. ls_name x = ls_name c) ss = Some c" if "distinct (map ls_name ss)" "c \<in> set ss" for ss
      using that by (induction ss) auto
    then show ?thesis using d that ok by (auto simp: committable_def lc_state_def lifecycle_ok_def)
  qed
  have "t_from t \<noteq> ls_name s" if "ls_final s" "t \<in> set (l_transitions l)" for t
  proof
    assume tf: "t_from t = ls_name s"
    have "\<exists>s' \<in> set (l_states l). ls_name s' = t_from t \<and> \<not> ls_final s'"
      using ok that by (simp add: lifecycle_ok_def)
    then obtain s' where "s' \<in> set (l_states l)" "ls_name s' = ls_name s" "\<not> ls_final s'"
      using tf by auto
    then show False using that(1) d assms(2) by (metis state_of_name)
  qed
  then have "lc_transition (Some l) (ls_name s) t = None" if "ls_final s" for t
    using that by (auto simp: lc_transition_def find_None_iff)
  then show ?thesis using ok assms(2) com by (auto simp: lifecycle_ok_def) metis
qed

definition demo_transition :: "string \<Rightarrow> string \<Rightarrow> string \<Rightarrow> transition" where
  "demo_transition n f t = \<lparr>t_name = n, t_description = [], t_from = f, t_to = t, t_permission = [],
     t_guard = [], t_vetos = [], t_objectives = [], t_guards = [], t_actions = [],
     t_requires = \<lparr>rq_attributes = [], rq_outgoing = []\<rparr>, t_children = None, t_freezes = None\<rparr>"

definition demo_lifecycle :: lifecycle where
  "demo_lifecycle = \<lparr>l_name = ''doc'', l_description = [], l_initial = ''draft'', l_states =
     [zero_state\<lparr>ls_name := ''draft'', ls_not_committable := True\<rparr>, zero_state\<lparr>ls_name := ''done'', ls_final := True\<rparr>],
     l_transitions = [demo_transition ''finish'' ''draft'' ''done'']\<rparr>"

theorem lifecycle_never_trapped_witness:
  "issues (Some demo_lifecycle) = []
   \<and> (\<exists>c. (''draft'', c) \<in> (edges (l_transitions demo_lifecycle))\<^sup>* \<and> committable (Some demo_lifecycle) c)"
proof -
  have i: "issues (Some demo_lifecycle) = []" by code_simp
  have "hd (l_states demo_lifecycle) \<in> set (l_states demo_lifecycle)" by (simp add: demo_lifecycle_def)
  from lifecycle_never_trapped [OF i this] show ?thesis
    using i by (simp add: demo_lifecycle_def zero_state_def)
qed

text \<open>
  A gate lets a transition go exactly when no veto is unmet and every unmet objective is covered
  by a record, and it goes with reserve exactly when some objective is unmet.
\<close>

theorem gate_passes_iff:
  "(gate_passed r \<longleftrightarrow> gr_vetoed r = [] \<and> set (gr_unmet r) \<subseteq> fst ` set (gr_reserve r))
   \<and> (with_reserve r \<longleftrightarrow> gate_passed r \<and> gr_unmet r \<noteq> [])"
proof -
  have "uncovered r = [] \<longleftrightarrow> set (gr_unmet r) \<subseteq> fst ` set (gr_reserve r)"
    unfolding dom_map_of_conv_image_fst [symmetric]
    by (auto simp: uncovered_def filter_empty_conv dom_def)
  then show ?thesis by (auto simp: gate_passed_def with_reserve_def)
qed

text \<open>
  A type reference round trips through its text when its parts do not hold the separator, and a
  bare name resolves in the namespace it is written in.
\<close>

theorem type_ref_round_trip:
  assumes "tr_name r \<noteq> []" and "CHR ''@'' \<notin> set (tr_name r)" and "CHR ''@'' \<notin> set (tr_namespace r)"
  shows "parse_type_ref (type_ref_string r) = Some r
    \<and> (ns \<noteq> [] \<longrightarrow> (\<exists>q. qualify_in ns (type_ref_string r) = Some q \<and> type_ref_qualified q
         \<and> tr_namespace q = (if tr_namespace r = [] then ns else tr_namespace r) \<and> tr_name q = tr_name r))"
proof -
  have "parse_type_ref (type_ref_string r) = Some r"
  proof (cases "tr_namespace r = []")
    case True
    moreover have "cut (CHR ''@'') (tr_name r) = None" using assms(2) cut_None by blast
    ultimately show ?thesis using assms by (cases r) (simp add: parse_type_ref_def type_ref_string_def)
  next
    case False
    then show ?thesis using assms cut_append [OF assms(3), of "tr_name r"]
      by (cases r) (simp add: parse_type_ref_def type_ref_string_def)
  qed
  then show ?thesis using assms(1) by (auto simp: qualify_in_def type_ref_qualified_def)
qed

theorem type_ref_round_trip_witness:
  "parse_type_ref ''alm@Requirement'' = Some \<lparr>tr_namespace = ''alm'', tr_name = ''Requirement''\<rparr>
   \<and> parse_type_ref ''a@b@c'' = None"
proof -
  let ?r = "\<lparr>tr_namespace = ''alm'', tr_name = ''Requirement''\<rparr>"
  have "tr_name ?r \<noteq> []" "CHR ''@'' \<notin> set (tr_name ?r)" "CHR ''@'' \<notin> set (tr_namespace ?r)" by simp_all
  from type_ref_round_trip [OF this, of "''x''"] have "parse_type_ref (type_ref_string ?r) = Some ?r" by simp
  moreover have "type_ref_string ?r = ''alm@Requirement''" by (simp add: type_ref_string_def)
  moreover have "parse_type_ref ''a@b@c'' = None" by code_simp
  ultimately show ?thesis by simp
qed

end
