(* ===== verification/Nodes.thy ===== *)
theory Nodes
  imports Lnk Lifecycle
begin

text \<open>
  contracts/domain/domain.go, lnk.go, structure.go and hierarchy.go: node versions, links, commits,
  branches and tags with the predicates over them, the logical URL of a node, and the structures
  (organisation, projects) read as trees of keys. Identifiers are strings, versions integers.
\<close>

subsection \<open>References, nodes and links\<close>

record node_ref =
  nr_id :: string
  nr_version :: int

definition int_string :: "int \<Rightarrow> string" where
  "int_string n = (if n < 0 then CHR ''-'' # itoa (nat (- n)) else itoa (nat n))"

definition ref_string :: "node_ref \<Rightarrow> string" where
  "ref_string r = nr_id r @ ''@v'' @ int_string (nr_version r)"

definition ref_is_zero :: "node_ref \<Rightarrow> bool" where
  "ref_is_zero r \<longleftrightarrow> nr_id r = []"

definition ref_is_draft :: "node_ref \<Rightarrow> bool" where
  "ref_is_draft r \<longleftrightarrow> nr_id r \<noteq> [] \<and> nr_version r = 0"

definition draft_ref :: "string \<Rightarrow> node_ref" where
  "draft_ref i = \<lparr>nr_id = i, nr_version = 0\<rparr>"

definition zero_ref :: node_ref where
  "zero_ref = \<lparr>nr_id = [], nr_version = 0\<rparr>"

definition namespace_of :: "string \<Rightarrow> string" where
  "namespace_of ns = (if ns = [] then ''default'' else ns)"

definition change_branch_origin :: "string \<Rightarrow> string" where
  "change_branch_origin i = ''change:'' @ i"

definition branch_of :: "string \<Rightarrow> string" where
  "branch_of b = (if b = [] then ''main'' else b)"

record creator =
  cr_subject :: string
  cr_unit :: url

definition creator_is_zero :: "creator \<Rightarrow> bool" where
  "creator_is_zero c \<longleftrightarrow> cr_subject c = [] \<and> url_is_zero (cr_unit c)"

record node =
  n_id :: string
  n_version :: int
  n_branch :: string
  n_joined :: "string list"
  n_parents :: "int list"
  n_reason :: string
  n_namespace :: string
  n_source :: string
  n_key :: string
  n_type :: string
  n_props :: props
  n_deleted :: bool
  n_state :: string
  n_change :: string
  n_responsible :: url
  n_project :: url
  n_creator :: creator
  n_editor :: string
  n_visibility :: string
  n_change_impact :: string
  n_comment :: string
  n_log_seq :: int
  n_execution :: string
  n_origins :: "node_ref list"
  n_created_at :: time
  n_committed :: int

definition zero_node :: node where
  "zero_node = \<lparr>n_id = [], n_version = 0, n_branch = [], n_joined = [], n_parents = [], n_reason = [],
     n_namespace = [], n_source = [], n_key = [], n_type = [], n_props = None, n_deleted = False, n_state = [],
     n_change = [], n_responsible = zero_url, n_project = zero_url,
     n_creator = \<lparr>cr_subject = [], cr_unit = zero_url\<rparr>, n_editor = [], n_visibility = [], n_change_impact = [],
     n_comment = [], n_log_seq = 0, n_execution = [], n_origins = [], n_created_at = 0, n_committed = 0\<rparr>"

definition node_ref_of :: "node \<Rightarrow> node_ref" where
  "node_ref_of n = \<lparr>nr_id = n_id n, nr_version = n_version n\<rparr>"

definition node_is_draft :: "node \<Rightarrow> bool" where
  "node_is_draft n \<longleftrightarrow> n_version n = 0"

definition node_on :: "node \<Rightarrow> string \<Rightarrow> bool" where
  "node_on n b = (let branch = branch_of b in branch_of (n_branch n) = branch \<or> branch \<in> set (n_joined n))"

record link =
  k_id :: string
  k_type :: string
  k_from :: node_ref
  k_to :: node_ref
  k_target :: url
  k_props :: props
  k_change :: string

definition link_external :: "link \<Rightarrow> bool" where
  "link_external l \<longleftrightarrow> ref_is_zero (k_to l) \<and> \<not> url_is_zero (k_target l)"

definition link_points :: "link \<Rightarrow> string" where
  "link_points l = (if link_external l then url_string (k_target l) else ref_string (k_to l))"

subsection \<open>Commits, tags and branches\<close>

record commit =
  c_id :: string
  c_name :: string
  c_namespace :: string
  c_branch :: string
  c_parent :: string
  c_merged_from :: string
  c_rebased_from :: string
  c_change :: string
  c_fork :: string
  c_kind :: string
  c_seq :: int
  c_nodes :: "(string, int) gomap"
  c_created_at :: time

definition commit_contains :: "commit \<Rightarrow> node_ref \<Rightarrow> bool" where
  "commit_contains b r = (map_of (c_nodes b) (nr_id r) = Some (nr_version r))"

record tag =
  tg_id :: string
  tg_name :: string
  tg_namespace :: string
  tg_node :: string
  tg_version :: int
  tg_by :: string
  tg_created_at :: time

definition tag_ref :: "tag \<Rightarrow> node_ref" where
  "tag_ref t = \<lparr>nr_id = tg_node t, nr_version = tg_version t\<rparr>"

record branch =
  b_name :: string
  b_namespace :: string
  b_parent :: string
  b_fork :: string
  b_head :: string
  b_rebased_from :: string
  b_origin :: string
  b_intent :: string
  b_status :: string
  b_created_at :: time
  b_description :: string
  b_ephemeral :: bool

definition head_or_fork :: "branch \<Rightarrow> string" where
  "head_or_fork b = (if b_head b \<noteq> [] then b_head b else b_fork b)"

subsection \<open>Logical URLs of nodes\<close>

text \<open>lnk.BareType: the name of a type in its domain, what follows the first separator.\<close>

definition bare_type :: "string \<Rightarrow> string" where
  "bare_type t = (case cut (CHR ''@'') t of Some (_, name) \<Rightarrow> name | None \<Rightarrow> t)"

definition source_name :: "node \<Rightarrow> string" where
  "source_name n = (if n_source n \<noteq> [] then n_source n else namespace_of (n_namespace n))"

definition node_url :: "node \<Rightarrow> url" where
  "node_url n = new_url (source_name n) (bare_type (n_type n)) (n_key n)"

subsection \<open>Structures and hierarchies\<close>

record structure_set =
  s_kind :: string
  s_type :: string
  s_namespace :: string
  s_parent :: string
  s_root :: string
  s_self_parent :: bool
  s_bootstrap :: props
  s_types :: "string list"

text \<open>A structure set is a structure with the types belonging to it; a zero structure has none.\<close>

definition zero_structure :: structure_set where
  "zero_structure = \<lparr>s_kind = [], s_type = [], s_namespace = [], s_parent = [], s_root = [],
     s_self_parent = False, s_bootstrap = None, s_types = []\<rparr>"

definition structure_of :: "structure_set list \<Rightarrow> string \<Rightarrow> structure_set" where
  "structure_of ss kind = (case find (\<lambda>x. s_kind x = kind) ss of Some x \<Rightarrow> x | None \<Rightarrow> zero_structure)"

definition types_of :: "structure_set list \<Rightarrow> string \<Rightarrow> string list" where
  "types_of ss kind = (case find (\<lambda>x. s_kind x = kind) ss of Some x \<Rightarrow> s_types x | None \<Rightarrow> [])"

definition structure_in :: "structure_set list \<Rightarrow> string \<Rightarrow> string \<Rightarrow> bool" where
  "structure_in ss kind typ \<longleftrightarrow> typ \<in> set (types_of ss kind)"

definition exactly :: "int \<Rightarrow> int" where
  "exactly n = (if n \<le> 0 then 1 else n)"

record hierarchy =
  h_root :: string
  h_parent :: "(string, string) gomap"

definition new_hierarchy :: "string \<Rightarrow> hierarchy" where
  "new_hierarchy r = \<lparr>h_root = r, h_parent = []\<rparr>"

definition h_add :: "string \<Rightarrow> string \<Rightarrow> hierarchy \<Rightarrow> hierarchy" where
  "h_add child par h = (if child \<noteq> par then h\<lparr>h_parent := mput child par (h_parent h)\<rparr> else h)"

definition h_parent_of :: "hierarchy \<Rightarrow> string \<Rightarrow> string" where
  "h_parent_of h key = (case map_of (h_parent h) key of Some p \<Rightarrow> p | None \<Rightarrow> [])"

definition read_hierarchy :: "structure_set list \<Rightarrow> string \<Rightarrow> node list \<Rightarrow> link list \<Rightarrow> hierarchy" where
  "read_hierarchy ss kind nodes links =
     (let st = structure_of ss kind;
          by_id = foldl (\<lambda>m n. mput (n_id n) n m) [] nodes;
          get = (\<lambda>i. case map_of by_id i of Some n \<Rightarrow> n | None \<Rightarrow> zero_node) in
      foldl (\<lambda>h l. let from = get (nr_id (k_from l)); to = get (nr_id (k_to l)) in
          if k_type l = s_parent st \<and> structure_in ss kind (n_type from) \<and> structure_in ss kind (n_type to)
          then h_add (n_key from) (n_key to) h else h)
        (new_hierarchy (s_root st)) links)"

function chain_walk :: "(string, string) gomap \<Rightarrow> string list \<Rightarrow> string \<Rightarrow> string list" where
  "chain_walk m out cur = (case map_of m cur of None \<Rightarrow> out
     | Some p \<Rightarrow> if p = [] \<or> p \<in> set out then out else chain_walk m (out @ [p]) p)"
  by pat_completeness auto
termination
proof (relation "measure (\<lambda>(m, out, cur). card (snd ` set m - set out))")
  fix m :: "(string, string) gomap" and out cur p
  assume "map_of m cur = Some p" "\<not> (p = [] \<or> p \<in> set out)"
  then have "p \<in> snd ` set m" "p \<notin> set out" by (force dest: map_of_SomeD)+
  then have "snd ` set m - set (out @ [p]) \<subset> snd ` set m - set out" by auto
  then show "((m, out @ [p], p), (m, out, cur)) \<in> measure (\<lambda>(m, out, cur). card (snd ` set m - set out))"
    by (auto intro!: psubset_card_mono)
qed simp

declare chain_walk.simps [simp del]

definition h_chain :: "hierarchy \<Rightarrow> string \<Rightarrow> string list" where
  "h_chain h key = (let k = (if key = [] then h_root h else key);
       out = chain_walk (h_parent h) [k] k
     in if h_root h \<in> set out then out else out @ [h_root h])"

subsection \<open>Chains\<close>

lemma chain_walk_prefix: "\<exists>x. chain_walk m out cur = out @ x"
proof (induction m out cur rule: chain_walk.induct)
  case (1 m out cur)
  then show ?case by (subst chain_walk.simps) (force split: option.splits)
qed

lemma chain_walk_distinct: "distinct out \<Longrightarrow> distinct (chain_walk m out cur)"
proof (induction m out cur rule: chain_walk.induct)
  case (1 m out cur)
  then show ?case by (subst chain_walk.simps) (force split: option.splits)
qed

lemma chain_walk_steps:
  "successively (\<lambda>a b. map_of m a = Some b) out \<Longrightarrow> out \<noteq> [] \<Longrightarrow> last out = cur \<Longrightarrow>
   successively (\<lambda>a b. map_of m a = Some b) (chain_walk m out cur)"
proof (induction m out cur rule: chain_walk.induct)
  case (1 m out cur)
  then show ?case
    by (subst chain_walk.simps) (auto simp: successively_append_iff split: option.splits)
qed

lemma chain_walk_end:
  "out \<noteq> [] \<Longrightarrow> last out = cur \<Longrightarrow>
   h_parent_of \<lparr>h_root = r, h_parent = m\<rparr> (last (chain_walk m out cur)) \<in> insert [] (set (chain_walk m out cur))"
proof (induction m out cur rule: chain_walk.induct)
  case (1 m out cur)
  then show ?case
    by (subst chain_walk.simps, subst (2) chain_walk.simps) (auto simp: h_parent_of_def split: option.splits)
qed

subsection \<open>Properties of the structures\<close>

text \<open>
  C39. The chain of a node starts with the node (the root for an empty key), never repeats a node and
  holds the root; it is the walk from each node to its parent, which ends at a node with no parent or
  with one already met, followed by the root when the walk did not reach it.
\<close>

theorem hierarchy_chain:
  "\<exists>w. h_chain h key = (if h_root h \<in> set w then w else w @ [h_root h])
     \<and> w \<noteq> [] \<and> hd w = (if key = [] then h_root h else key) \<and> distinct (h_chain h key)
     \<and> successively (\<lambda>a b. map_of (h_parent h) a = Some b) w
     \<and> h_parent_of h (last w) \<in> insert [] (set w)"
proof -
  define k where "k = (if key = [] then h_root h else key)"
  define out where "out = chain_walk (h_parent h) [k] k"
  obtain x where x: "out = k # x" using chain_walk_prefix [of "h_parent h" "[k]" k] by (auto simp: out_def)
  have d: "distinct out" using chain_walk_distinct [of "[k]"] by (simp add: out_def)
  have steps: "successively (\<lambda>a b. map_of (h_parent h) a = Some b) out"
    using chain_walk_steps [of "h_parent h" "[k]" k] by (simp add: out_def)
  have fin: "h_parent_of h (last out) \<in> insert [] (set out)"
    using chain_walk_end [of "[k]" k "h_root h" "h_parent h"] by (simp add: out_def h_parent_of_def)
  have c: "h_chain h key = (if h_root h \<in> set out then out else out @ [h_root h])"
    by (simp add: h_chain_def k_def out_def Let_def)
  then show ?thesis using x d steps fin by (intro exI [of _ out]) (auto simp: k_def)
qed

end
