(* ===== verification/Events.thy ===== *)
theory Events
  imports Nodes
begin

text \<open>
  contracts/domain/changeimpact.go, impactevent.go and the types of draft.go and changestats.go: the
  change impacts of a change, the events of its log, and the fold that replays them. A nil pointer is
  None; a dereference of nil panics in the code and is None in the model of a step. An operation,
  intent or review status the code does not know is carried by a constructor of its own.
\<close>

subsection \<open>Change impacts\<close>

datatype intent = Created | Modified | OtherIntent string

datatype review_status = Proposed | Accepted | Rejected | OtherReview string

record review =
  rv_status :: review_status
  rv_by :: string
  rv_comment :: string
  rv_at :: time
  rv_flow :: string
  rv_execution :: string
  rv_superseded :: bool
  rv_review_id :: string

record effect =
  ef_kind :: string
  ef_requalified :: bool
  ef_props :: int
  ef_state :: bool
  ef_links_added :: int
  ef_links_removed :: int
  ef_links_changed :: int

definition zero_effect :: effect where
  "zero_effect = \<lparr>ef_kind = [], ef_requalified = False, ef_props = 0, ef_state = False,
     ef_links_added = 0, ef_links_removed = 0, ef_links_changed = 0\<rparr>"

definition effect_is_zero :: "effect \<Rightarrow> bool" where
  "effect_is_zero e \<longleftrightarrow> e = zero_effect"

record impact =
  im_id :: string
  im_key :: string
  im_type :: string
  im_intent :: intent
  im_rationale :: string
  im_pre :: "node_ref option"
  im_post :: "node_ref option"
  im_committed :: "node_ref option"
  im_review :: review_status
  im_reviews :: "review list"
  im_effect :: effect
  im_via :: string
  im_recheck :: bool
  im_produced_by :: string
  im_derived_from :: "string list"
  im_execution :: string
  im_items :: "string list"
  im_flow :: string
  im_superseded :: bool
  im_created_at :: time

definition planned :: "impact \<Rightarrow> bool" where
  "planned c \<longleftrightarrow> im_post c = None"

definition drafted :: "impact \<Rightarrow> bool" where
  "drafted c = (case im_post c of None \<Rightarrow> False | Some p \<Rightarrow> ref_is_draft p)"

datatype impact_error = NeedsKeyType | NeedsRationale | CreatedWithPre | ModifiedWithoutPre
  | NotSuccessor | UnknownIntent string | CommittedWithoutPost | UnknownReview string

definition validate_impact :: "impact \<Rightarrow> impact_error option" where
  "validate_impact c =
     (if im_key c = [] \<or> im_type c = [] then Some NeedsKeyType
      else if trim (im_rationale c) = [] then Some NeedsRationale
      else let e1 = (case im_intent c of
            Created \<Rightarrow> if im_pre c \<noteq> None then Some CreatedWithPre else None
          | Modified \<Rightarrow> (case im_pre c of
              None \<Rightarrow> Some ModifiedWithoutPre
            | Some pre \<Rightarrow> if nr_version pre = 0 then Some ModifiedWithoutPre
                else (case im_post c of
                    None \<Rightarrow> None
                  | Some post \<Rightarrow> if nr_id post \<noteq> nr_id pre \<or> (\<not> ref_is_draft post \<and> nr_version post \<le> nr_version pre)
                      then Some NotSuccessor else None))
          | OtherIntent s \<Rightarrow> Some (UnknownIntent s))
        in if e1 \<noteq> None then e1
           else if im_committed c \<noteq> None \<and> im_post c = None then Some CommittedWithoutPost
           else (case im_review c of OtherReview s \<Rightarrow> Some (UnknownReview s) | _ \<Rightarrow> None))"

subsection \<open>Drafts and events\<close>

record draft_link =
  dl_id :: string
  dl_type :: string
  dl_to :: node_ref
  dl_target :: url
  dl_props :: props

record draft =
  d_change :: string
  d_impact :: string
  d_flow :: string
  d_node :: string
  d_key :: string
  d_type :: string
  d_state :: string
  d_owner :: url
  d_props :: props
  d_origins :: "node_ref list"
  d_base :: "node_ref option"
  d_merged_with :: "node_ref option"
  d_execution :: string
  d_links :: "draft_link list"
  d_deleted :: bool
  d_creator :: string
  d_editor :: string

datatype impact_op = OpProposed | OpCreated | OpCheckedOut | OpTransitioned | OpUpdated | OpCancelled
  | OpWithdrawn | OpReviewed | OpDiscarded | OpAdopted | OpCommitted | OpRebased | OpRequalified
  | OtherOp string

record event =
  e_id :: string
  e_change :: string
  e_seq :: int
  e_impact :: string
  e_op :: impact_op
  e_flow :: string
  e_execution :: string
  e_by :: string
  e_for :: string
  e_at :: time
  e_causation :: string
  e_state :: "impact option"
  e_post :: "node_ref option"
  e_draft :: "draft option"
  e_from_base :: "node_ref list option"
  e_pre :: "node_ref option"
  e_committed :: "node_ref option"
  e_effect :: "effect option"
  e_commit :: string
  e_branch :: string
  e_recorded :: bool
  e_review :: "review option"
  e_stale :: "string list"
  e_patch :: props

definition writes_post :: "impact_op \<Rightarrow> bool" where
  "writes_post o' \<longleftrightarrow> o' = OpTransitioned \<or> o' = OpCheckedOut \<or> o' = OpCreated"

definition starts_draft :: "event \<Rightarrow> bool" where
  "starts_draft e \<longleftrightarrow> e_draft e \<noteq> None \<and> writes_post (e_op e)"

definition first_id :: "node_ref option list \<Rightarrow> string option" where
  "first_id rs = map_option (\<lambda>r. nr_id (the r)) (find (\<lambda>r. r \<noteq> None \<and> nr_id (the r) \<noteq> []) rs)"

definition event_node :: "event \<Rightarrow> string" where
  "event_node e = (case first_id [e_post e, e_committed e, e_pre e] of
     Some i \<Rightarrow> i
   | None \<Rightarrow> (case (case e_state e of None \<Rightarrow> None | Some s \<Rightarrow> first_id [im_post s, im_pre s]) of
       Some i \<Rightarrow> i
     | None \<Rightarrow> (case e_draft e of Some d \<Rightarrow> d_node d | None \<Rightarrow> [])))"

definition event_author :: "event \<Rightarrow> string" where
  "event_author e = (if e_for e \<noteq> [] then e_for e else e_by e)"

text \<open>Validate: what an event needs for its operation; False is the error naming what is missing.\<close>

definition event_ok :: "event \<Rightarrow> bool" where
  "event_ok e = (case e_op e of
     OpProposed \<Rightarrow> (case e_state e of None \<Rightarrow> False | Some s \<Rightarrow> im_id s = e_impact e)
   | OpCreated \<Rightarrow> (case e_state e of None \<Rightarrow> False | Some s \<Rightarrow> im_id s = e_impact e)
       \<and> (case e_post e of None \<Rightarrow> False | Some p \<Rightarrow> \<not> ref_is_draft p \<or> e_draft e \<noteq> None)
   | OpTransitioned \<Rightarrow> e_impact e \<noteq> [] \<and> e_post e \<noteq> None
   | OpCheckedOut \<Rightarrow> e_impact e \<noteq> []
       \<and> (case e_post e of None \<Rightarrow> False | Some p \<Rightarrow> \<not> ref_is_draft p \<or> e_draft e \<noteq> None)
   | OpReviewed \<Rightarrow> e_impact e \<noteq> [] \<and> e_review e \<noteq> None
   | OpDiscarded \<Rightarrow> e_impact e \<noteq> [] \<and> e_review e \<noteq> None
   | OpAdopted \<Rightarrow> e_impact e = [] \<and> e_flow e \<noteq> []
   | OpCommitted \<Rightarrow> e_impact e \<noteq> [] \<and> e_committed e \<noteq> None
   | OpRebased \<Rightarrow> e_impact e \<noteq> [] \<and> e_pre e \<noteq> None
   | OpRequalified \<Rightarrow> e_impact e \<noteq> [] \<and> e_pre e \<noteq> None
   | OpUpdated \<Rightarrow> e_impact e \<noteq> [] \<and> e_post e \<noteq> None \<and> pmap (e_patch e) \<noteq> []
   | OpCancelled \<Rightarrow> e_impact e \<noteq> []
   | OpWithdrawn \<Rightarrow> e_impact e \<noteq> []
   | OtherOp _ \<Rightarrow> False)"

subsection \<open>The fold of the log\<close>

text \<open>The last element of a list that satisfies a predicate (a loop that walks it backwards).\<close>

definition find_last :: "('a \<Rightarrow> bool) \<Rightarrow> 'a list \<Rightarrow> 'a option" where
  "find_last p xs = find p (rev xs)"

definition review_seen_on :: "impact \<Rightarrow> string \<Rightarrow> review_status" where
  "review_seen_on cn flow = (if flow = [] then im_review cn
     else (case find_last (\<lambda>r. rv_flow r = flow \<and> \<not> rv_superseded r) (im_reviews cn) of
         Some r \<Rightarrow> rv_status r | None \<Rightarrow> im_review cn))"

definition edited_comment :: "event \<Rightarrow> string" where
  "edited_comment e = (case map_of_val (pget (e_patch e) ''rebased'') of
     None \<Rightarrow> ''edited again''
   | Some r \<Rightarrow> let b = str_of (map_of r ''branch'') in
       if b \<noteq> [] then ''rebased onto '' @ b else ''edited again'')"

definition edited_again :: "impact \<Rightarrow> event \<Rightarrow> impact" where
  "edited_again cn e = (if review_seen_on cn (e_flow e) = Proposed then cn
     else let cn1 = cn\<lparr>im_reviews := im_reviews cn @ [\<lparr>rv_status = Proposed, rv_by = e_by e,
              rv_comment = edited_comment e, rv_at = e_at e, rv_flow = e_flow e, rv_execution = e_execution e,
              rv_superseded = False, rv_review_id = []\<rparr>]\<rparr>
       in if e_flow e = [] then cn1\<lparr>im_review := Proposed\<rparr> else cn1)"

text \<open>adoptImpact: the flow's part becomes the main flow's, the stale part is superseded.\<close>

definition stale_run :: "string list \<Rightarrow> string \<Rightarrow> bool" where
  "stale_run stale x \<longleftrightarrow> x \<noteq> [] \<and> x \<in> set stale"

definition adopt_review :: "string \<Rightarrow> string list \<Rightarrow> review \<Rightarrow> review" where
  "adopt_review flow stale r = (if rv_flow r = flow then r\<lparr>rv_flow := []\<rparr>
     else if rv_flow r = [] \<and> stale_run stale (rv_execution r) then r\<lparr>rv_superseded := True\<rparr>
     else r)"

definition last_review :: "(review \<Rightarrow> bool) \<Rightarrow> review list \<Rightarrow> review_status" where
  "last_review p rs = foldl (\<lambda>st r. if p r then rv_status r else st) Proposed rs"

definition adopt_impact :: "impact \<Rightarrow> string \<Rightarrow> string list \<Rightarrow> impact" where
  "adopt_impact cn flow stale =
     (let cn1 = (if im_flow cn = flow then cn\<lparr>im_flow := []\<rparr>
            else if im_flow cn = [] \<and> \<not> im_superseded cn \<and> stale_run stale (im_execution cn)
              then cn\<lparr>im_superseded := True\<rparr> else cn);
          cn2 = cn1\<lparr>im_reviews := map (adopt_review flow stale) (im_reviews cn)\<rparr>
      in if im_superseded cn2 then cn2
         else cn2\<lparr>im_review := last_review (\<lambda>r. \<not> rv_superseded r \<and> rv_flow r = []) (im_reviews cn2)\<rparr>)"

text \<open>
  The change of one impact by an event of its own: None is a panic, Some None the removal of the
  impact. cloneImpact copies the slices and pointers of an impact, which is the impact itself here.
\<close>

definition change_impact :: "impact \<Rightarrow> event \<Rightarrow> impact option option" where
  "change_impact cn e = (case e_op e of
     OpTransitioned \<Rightarrow>
       if e_flow e = [] \<or> e_flow e = im_flow cn
       then (case e_post e of None \<Rightarrow> None
         | Some p \<Rightarrow> Some (Some (case e_pre e of None \<Rightarrow> cn\<lparr>im_post := Some p\<rparr>
             | Some pre \<Rightarrow> cn\<lparr>im_post := Some p, im_pre := Some pre\<rparr>)))
       else Some (Some cn)
   | OpCheckedOut \<Rightarrow>
       if e_flow e = [] \<or> e_flow e = im_flow cn
       then (case e_post e of None \<Rightarrow> None
         | Some p \<Rightarrow> Some (Some (case e_pre e of None \<Rightarrow> cn\<lparr>im_post := Some p\<rparr>
             | Some pre \<Rightarrow> cn\<lparr>im_post := Some p, im_pre := Some pre\<rparr>)))
       else Some (Some cn)
   | OpReviewed \<Rightarrow> (case e_review e of None \<Rightarrow> None
       | Some r \<Rightarrow> let cn1 = cn\<lparr>im_reviews := im_reviews cn @ [r]\<rparr>
           in Some (Some (if rv_flow r = [] then cn1\<lparr>im_review := rv_status r\<rparr> else cn1)))
   | OpDiscarded \<Rightarrow> (case e_review e of None \<Rightarrow> None
       | Some r \<Rightarrow> Some (Some (cn\<lparr>im_reviews := im_reviews cn @ [r], im_review := Rejected\<rparr>)))
   | OpCommitted \<Rightarrow> (case e_committed e of None \<Rightarrow> None
       | Some l \<Rightarrow> let cn1 = cn\<lparr>im_committed := Some l\<rparr>;
             cn2 = (case e_effect e of None \<Rightarrow> cn1 | Some f \<Rightarrow> cn1\<lparr>im_effect := f\<rparr>)
           in Some (Some (case im_post cn of
               None \<Rightarrow> cn2\<lparr>im_post := Some l\<rparr>
             | Some p \<Rightarrow> if ref_is_draft p then cn2\<lparr>im_post := Some l\<rparr> else cn2)))
   | OpRebased \<Rightarrow> (case e_pre e of None \<Rightarrow> None
       | Some p \<Rightarrow> Some (Some (cn\<lparr>im_pre := Some p, im_recheck := True\<rparr>)))
   | OpCancelled \<Rightarrow>
       let cn1 = (if e_flow e \<noteq> [] \<and> e_flow e \<noteq> im_flow cn then Some cn
           else if e_post e = None \<and> im_intent cn = Created then None
           else Some (cn\<lparr>im_post := e_post e\<rparr>))
       in Some (case cn1 of None \<Rightarrow> None
          | Some c \<Rightarrow> Some (if im_intent c = Modified \<or> im_committed c \<noteq> None then edited_again c e else c))
   | OpUpdated \<Rightarrow> Some (Some (edited_again cn e))
   | _ \<Rightarrow> Some (Some cn))"

definition apply_event_at :: "impact list \<Rightarrow> nat option \<Rightarrow> event \<Rightarrow> impact list option" where
  "apply_event_at out pos e =
     (if e_op e = OpProposed \<or> e_op e = OpCreated
      then (case e_state e of None \<Rightarrow> None
        | Some s \<Rightarrow>
          (case (if e_op e = OpCreated then (case e_post e of None \<Rightarrow> None | Some p \<Rightarrow> Some (s\<lparr>im_post := Some p\<rparr>))
                 else Some s) of
             None \<Rightarrow> None
           | Some cn \<Rightarrow> Some (case pos of Some i \<Rightarrow> out[i := cn] | None \<Rightarrow> out @ [cn])))
      else if e_op e = OpAdopted then Some (map (\<lambda>c. adopt_impact c (e_flow e) (e_stale e)) out)
      else (case pos of
          None \<Rightarrow> Some out
        | Some i \<Rightarrow> if e_op e = OpWithdrawn then Some (delete_at i out)
            else (case change_impact (out ! i) e of
                None \<Rightarrow> None
              | Some None \<Rightarrow> Some (delete_at i out)
              | Some (Some cn) \<Rightarrow> Some (out[i := cn]))))"

definition apply_event :: "impact list \<Rightarrow> event \<Rightarrow> impact list option" where
  "apply_event impacts e = apply_event_at impacts (index_of (\<lambda>c. im_id c = e_impact e) impacts) e"

fun fold_events :: "impact list \<Rightarrow> event list \<Rightarrow> impact list option" where
  "fold_events out [] = Some out"
| "fold_events out (e # es) = (case apply_event out e of None \<Rightarrow> None | Some out1 \<Rightarrow> fold_events out1 es)"

definition fold_impacts :: "event list \<Rightarrow> impact list option" where
  "fold_impacts es = fold_events [] es"

subsection \<open>What a flow sees\<close>

fun flow_posts :: "event list \<Rightarrow> string \<Rightarrow> string list \<Rightarrow> (string \<Rightarrow> bool)
    \<Rightarrow> (string, node_ref option) gomap \<Rightarrow> (string, node_ref option) gomap" where
  "flow_posts [] i chain stale l = l"
| "flow_posts (e # es) i chain stale l =
     (if (\<not> writes_post (e_op e) \<and> e_op e \<noteq> OpCancelled) \<or> e_impact e \<noteq> i then flow_posts es i chain stale l
      else let l1 = (if e_flow e = [] \<and> \<not> stale (e_execution e) then mput [] (e_post e) l
                     else if e_flow e \<noteq> [] \<and> e_flow e \<in> set chain \<and> \<not> stale (e_execution e) then mput (e_flow e) (e_post e) l
                     else l);
               l2 = (if e_op e = OpCancelled \<and> e_post e = None then mdel (e_flow e) l1 else l1)
           in flow_posts es i chain stale l2)"

definition flow_post :: "event list \<Rightarrow> string \<Rightarrow> string list \<Rightarrow> (string \<Rightarrow> bool) \<Rightarrow> node_ref option" where
  "flow_post es i chain stale = (let l = flow_posts es i chain stale [] in
     (case find (\<lambda>f. case map_of l f of Some (Some p) \<Rightarrow> True | _ \<Rightarrow> False) (chain @ [[]]) of
        None \<Rightarrow> None | Some f \<Rightarrow> the (map_of l f)))"

definition hidden :: "string list \<Rightarrow> (string \<Rightarrow> bool) \<Rightarrow> impact \<Rightarrow> bool" where
  "hidden chain stale cn \<longleftrightarrow> im_superseded cn \<or> (im_flow cn \<noteq> [] \<and> im_flow cn \<notin> set chain)
     \<or> (chain \<noteq> [] \<and> stale (im_execution cn))"

definition seen_by :: "impact list \<Rightarrow> event list \<Rightarrow> string list \<Rightarrow> string list \<Rightarrow> impact list" where
  "seen_by impacts es chain stale_runs =
     (let stale = stale_run stale_runs in
      map (\<lambda>cn. if chain = [] then cn
             else cn\<lparr>im_post := flow_post es (im_id cn) chain stale,
                     im_review := last_review (\<lambda>r. \<not> (rv_superseded r \<or> (rv_flow r \<noteq> [] \<and> rv_flow r \<notin> set chain)
                        \<or> stale (rv_execution r))) (im_reviews cn)\<rparr>)
        (filter (\<lambda>cn. \<not> hidden chain stale cn) impacts))"

subsection \<open>Steps of the fold\<close>

lemma event_ok_apply: "event_ok e \<Longrightarrow> \<exists>out'. apply_event out e = Some out'"
  by (cases "e_op e")
    (auto simp: event_ok_def apply_event_def apply_event_at_def change_impact_def Let_def split: option.splits)

lemma fold_events_ok: "list_all event_ok es \<Longrightarrow> \<exists>out'. fold_events out es = Some out'"
proof (induction es arbitrary: out)
  case (Cons e es)
  then obtain o1 where "apply_event out e = Some o1" using event_ok_apply [of e out] by auto
  then show ?case using Cons by simp
qed simp

lemma edited_again_id [simp]: "im_id (edited_again cn e) = im_id cn"
  by (simp add: edited_again_def Let_def)

lemma adopt_impact_id [simp]: "im_id (adopt_impact cn f s) = im_id cn"
  by (simp add: adopt_impact_def Let_def)

lemma change_impact_id: "change_impact cn e = Some (Some cn') \<Longrightarrow> im_id cn' = im_id cn"
  by (cases "e_op e") (auto simp: change_impact_def Let_def split: option.splits if_splits)

lemma map_delete_at: "map f (delete_at i xs) = delete_at i (map f xs)"
  by (simp add: delete_at_def take_map drop_map)

lemma distinct_delete_at: "distinct xs \<Longrightarrow> distinct (delete_at i xs)"
proof -
  assume d: "distinct xs"
  have "set (take i xs) \<inter> set (drop (Suc i) xs) = {}"
    using set_take_disj_set_drop_if_distinct [OF d] by simp
  then show ?thesis using d by (simp add: delete_at_def)
qed

lemma apply_event_ids:
  assumes "event_ok e" "apply_event out e = Some out'" "distinct (map im_id out)"
  shows "distinct (map im_id out')"
proof -
  let ?at = "index_of (\<lambda>c. im_id c = e_impact e) out"
  have upd: "distinct (map im_id (out[i := cn]))" if "?at = Some i" "im_id cn = im_id (out ! i)" for i cn
  proof -
    have "i < length out" using index_of_Some [OF that(1)] by simp
    then have "map im_id (out[i := cn]) = map im_id out" using that(2) by (simp add: map_update list_update_same_conv)
    then show ?thesis using assms(3) by simp
  qed
  have at_id: "im_id (out ! i) = e_impact e" if "?at = Some i" for i using index_of_Some [OF that] by simp
  have del: "distinct (map im_id (delete_at i out))" for i
    using distinct_delete_at [OF assms(3)] by (simp add: map_delete_at)
  show ?thesis
  proof (cases "e_op e = OpProposed \<or> e_op e = OpCreated")
    case True
    obtain s where s: "e_state e = Some s" "im_id s = e_impact e"
      using assms(1) True by (auto simp: event_ok_def split: option.splits)
    define cn where "cn = (if e_op e = OpCreated then s\<lparr>im_post := Some (the (e_post e))\<rparr> else s)"
    have cn: "im_id cn = e_impact e"
      "out' = (case ?at of Some i \<Rightarrow> out[i := cn] | None \<Rightarrow> out @ [cn])"
      using assms(2) True s by (auto simp: cn_def apply_event_def apply_event_at_def split: option.splits if_splits)
    show ?thesis
    proof (cases ?at)
      case None
      then have "\<forall>c \<in> set out. im_id c \<noteq> e_impact e" by (simp add: index_of_None)
      moreover have "out' = out @ [cn]" using None cn(2) by simp
      ultimately show ?thesis using cn(1) assms(3) by auto
    next
      case (Some i)
      then show ?thesis using upd at_id cn by simp
    qed
  next
    case F: False
    show ?thesis
    proof (cases "e_op e = OpAdopted")
      case True
      then show ?thesis using assms by (auto simp: apply_event_def apply_event_at_def comp_def)
    next
      case False
      then show ?thesis
        using assms(2,3) F upd del change_impact_id
        by (auto simp: apply_event_def apply_event_at_def split: option.splits if_splits)
    qed
  qed
qed

lemma fold_events_ids:
  "list_all event_ok es \<Longrightarrow> fold_events out es = Some out' \<Longrightarrow> distinct (map im_id out) \<Longrightarrow> distinct (map im_id out')"
  by (induction es arbitrary: out) (auto split: option.splits dest: apply_event_ids)


lemma last_review_map:
  assumes "\<And>r. r \<in> set rs \<Longrightarrow> p r = q (f r) \<and> rv_status (f r) = rv_status r"
  shows "last_review p rs = last_review q (map f rs)"
proof -
  have "foldl (\<lambda>st r. if p r then rv_status r else st) st rs = foldl (\<lambda>st r. if q r then rv_status r else st) st (map f rs)" for st
    using assms by (induction rs arbitrary: st) auto
  then show ?thesis by (simp add: last_review_def)
qed

subsection \<open>Properties of the change impacts\<close>

text \<open>
  C2. A log whose events are valid replays with no failure, into change impacts with distinct ids.
\<close>

theorem valid_log_replays:
  assumes "list_all event_ok es"
  shows "\<exists>out. fold_impacts es = Some out \<and> distinct (map im_id out)"
proof -
  obtain out where out: "fold_impacts es = Some out" using fold_events_ok [OF assms] by (auto simp: fold_impacts_def)
  then show ?thesis using fold_events_ids [OF assms, of "[]"] by (simp add: fold_impacts_def)
qed

definition demo_impact :: impact where
  "demo_impact = \<lparr>im_id = ''i1'', im_key = ''K'', im_type = ''alm@Req'', im_intent = Modified, im_rationale = ''r'',
     im_pre = Some \<lparr>nr_id = ''n'', nr_version = 1\<rparr>, im_post = None, im_committed = None, im_review = Proposed,
     im_reviews = [], im_effect = zero_effect, im_via = [], im_recheck = False, im_produced_by = [],
     im_derived_from = [], im_execution = [], im_items = [], im_flow = [], im_superseded = False, im_created_at = 1\<rparr>"

definition demo_event :: event where
  "demo_event = \<lparr>e_id = ''e'', e_change = ''c'', e_seq = 0, e_impact = ''i1'', e_op = OpProposed, e_flow = [],
     e_execution = [], e_by = ''u'', e_for = [], e_at = 1, e_causation = [], e_state = Some demo_impact,
     e_post = None, e_draft = None, e_from_base = None, e_pre = None, e_committed = None, e_effect = None,
     e_commit = [], e_branch = [], e_recorded = False, e_review = None, e_stale = [], e_patch = None\<rparr>"

definition demo_review :: "review_status \<Rightarrow> string \<Rightarrow> review" where
  "demo_review st f = \<lparr>rv_status = st, rv_by = ''v'', rv_comment = ''c'', rv_at = 2, rv_flow = f,
     rv_execution = [], rv_superseded = False, rv_review_id = []\<rparr>"

theorem valid_log_replays_witness:
  "let es = [demo_event, demo_event\<lparr>e_op := OpReviewed, e_state := None, e_review := Some (demo_review Accepted [])\<rparr>]
   in list_all event_ok es \<and> (\<exists>out. fold_impacts es = Some out \<and> distinct (map im_id out))
      \<and> map_option (map im_review) (fold_impacts es) = Some [Accepted]"
proof -
  let ?es = "[demo_event, demo_event\<lparr>e_op := OpReviewed, e_state := None, e_review := Some (demo_review Accepted [])\<rparr>]"
  have ok: "list_all event_ok ?es" by code_simp
  have "map_option (map im_review) (fold_impacts ?es) = Some [Accepted]" by code_simp
  then show ?thesis using ok valid_log_replays [OF ok] by (simp only: Let_def simp_thms)
qed



definition impact_view :: "impact list \<Rightarrow> (string \<times> review_status) list" where
  "impact_view is = map (\<lambda>c. (im_id c, im_review c)) is"

lemma adopt_seen:
  assumes "f \<noteq> []" and "\<not> (im_flow c = f \<and> stale_run stale (im_execution c))"
  shows "hidden [] (stale_run s) (adopt_impact c f stale) \<longleftrightarrow> hidden [f] (stale_run stale) c"
  using assms by (auto simp: hidden_def adopt_impact_def Let_def)

lemma adopt_reviewed:
  assumes "f \<noteq> []" and "\<not> hidden [f] (stale_run stale) c"
    and "\<And>r. r \<in> set (im_reviews c) \<Longrightarrow> \<not> (rv_flow r = f \<and> stale_run stale (rv_execution r))"
  shows "im_review (adopt_impact c f stale) = last_review (\<lambda>r. \<not> (rv_superseded r \<or> (rv_flow r \<noteq> [] \<and> rv_flow r \<notin> set [f])
     \<or> stale_run stale (rv_execution r))) (im_reviews c)"
proof -
  have "im_review (adopt_impact c f stale) =
     last_review (\<lambda>r. \<not> rv_superseded r \<and> rv_flow r = []) (map (adopt_review f stale) (im_reviews c))"
    using assms(1,2) by (auto simp: hidden_def adopt_impact_def Let_def)
  also have "\<dots> = last_review (\<lambda>r. \<not> (rv_superseded r \<or> (rv_flow r \<noteq> [] \<and> rv_flow r \<notin> set [f])
     \<or> stale_run stale (rv_execution r))) (im_reviews c)"
    using assms(1,3) by (intro last_review_map [symmetric]) (auto simp: adopt_review_def)
  finally show ?thesis .
qed

text \<open>
  Adoption makes of a flow what it saw: the impacts the main flow sees after a flow is adopted,
  and their reviews, are those the flow saw of them before, when the runs the adoption makes stale
  wrote nothing on the flow itself.
\<close>

theorem adoption_keeps_view:
  assumes "f \<noteq> []" and "e_op e = OpAdopted" and "e_flow e = f"
    and "\<forall>c \<in> set out. \<not> (im_flow c = f \<and> stale_run (e_stale e) (im_execution c))
      \<and> (\<forall>r \<in> set (im_reviews c). \<not> (rv_flow r = f \<and> stale_run (e_stale e) (rv_execution r)))"
  shows "\<exists>out'. apply_event out e = Some out'
    \<and> impact_view (seen_by out' es [] s) = impact_view (seen_by out evs [f] (e_stale e))"
proof -
  let ?ad = "\<lambda>c. adopt_impact c f (e_stale e)"
  have ap: "apply_event out e = Some (map ?ad out)"
    using assms(2,3) by (simp add: apply_event_def apply_event_at_def)
  have "filter (\<lambda>c. \<not> hidden [] (stale_run s) c) (map ?ad out)
      = map ?ad (filter (\<lambda>c. \<not> hidden [f] (stale_run (e_stale e)) c) out)"
    using adopt_seen [OF assms(1)] assms(4) by (auto simp: filter_map comp_def intro!: arg_cong [of _ _ "map ?ad"] filter_cong)
  then have "impact_view (seen_by (map ?ad out) es [] s) =
      map (\<lambda>c. (im_id c, im_review (?ad c))) (filter (\<lambda>c. \<not> hidden [f] (stale_run (e_stale e)) c) out)"
    by (simp add: impact_view_def seen_by_def comp_def)
  also have "\<dots> = impact_view (seen_by out evs [f] (e_stale e))"
    unfolding impact_view_def seen_by_def Let_def map_map comp_def
    using adopt_reviewed [OF assms(1)] assms(4) by (intro map_cong refl) (simp, blast)
  finally show ?thesis using ap by blast
qed

theorem adoption_keeps_view_witness:
  "\<exists>out'. apply_event [demo_impact\<lparr>im_flow := ''o'', im_reviews := [demo_review Accepted ''o'']\<rparr>]
       (demo_event\<lparr>e_op := OpAdopted, e_flow := ''o'', e_stale := [''x'']\<rparr>) = Some out'
     \<and> impact_view (seen_by out' [] [] []) = [(''i1'', Accepted)]"
proof -
  let ?out = "[demo_impact\<lparr>im_flow := ''o'', im_reviews := [demo_review Accepted ''o'']\<rparr>]"
  let ?e = "demo_event\<lparr>e_op := OpAdopted, e_flow := ''o'', e_stale := [''x'']\<rparr>"
  have "\<exists>out'. apply_event ?out ?e = Some out'
     \<and> impact_view (seen_by out' [] [] []) = impact_view (seen_by ?out [] [''o''] (e_stale ?e))"
    by (rule adoption_keeps_view) (simp_all add: demo_impact_def demo_event_def demo_review_def stale_run_def)
  moreover have "impact_view (seen_by ?out [] [''o''] (e_stale ?e)) = [(''i1'', Accepted)]" by code_simp
  ultimately show ?thesis by simp
qed

end
