(* ===== verification/Drafts.thy ===== *)
theory Drafts
  imports Events Float64
begin

text \<open>
  contracts/domain/draft.go and the copy of a version of impactpayload.go: the drafts of a change, the
  fold of its impact events. A patch travels as JSON, so what the fold reads of it are the values as
  decoded: numbers are float64, slices and maps are of any. A value of a JSON type the patch does not
  expect leaves its field as encoding/json does. The id a copied link takes is a hash computed by a
  third-party package and is a parameter.
\<close>

subsection \<open>Drafts as nodes\<close>

definition draft_link_external :: "draft_link \<Rightarrow> bool" where
  "draft_link_external l \<longleftrightarrow> ref_is_zero (dl_to l) \<and> \<not> url_is_zero (dl_target l)"

definition draft_reason :: "draft \<Rightarrow> string" where
  "draft_reason d = (case d_base d of None \<Rightarrow> ''create''
     | Some b \<Rightarrow> (case d_merged_with d of None \<Rightarrow> ''revise''
         | Some m \<Rightarrow> if nr_version m \<noteq> nr_version b then ''rebase'' else ''revise''))"

definition as_node :: "draft \<Rightarrow> node" where
  "as_node d = zero_node\<lparr>n_id := d_node d, n_key := d_key d, n_type := d_type d, n_state := d_state d,
     n_responsible := d_owner d, n_props := d_props d, n_origins := d_origins d, n_change := d_change d,
     n_change_impact := d_impact d, n_execution := d_execution d, n_reason := draft_reason d, n_deleted := d_deleted d\<rparr>"

definition out_links :: "draft \<Rightarrow> link list" where
  "out_links d = map (\<lambda>l. \<lparr>k_id = dl_id l, k_type = dl_type l, k_from = draft_ref (d_node d), k_to = dl_to l,
     k_target = dl_target l, k_props = dl_props l, k_change = d_change d\<rparr>) (d_links d)"

definition draft_find_link :: "draft \<Rightarrow> string \<Rightarrow> draft_link option" where
  "draft_find_link d i = find (\<lambda>l. dl_id l = i) (d_links d)"

text \<open>CopyDraft: the version copied as a draft, links to drafted targets turned into links to drafts.\<close>

definition copy_draft :: "(string \<Rightarrow> string \<Rightarrow> string) \<Rightarrow> event \<Rightarrow> node \<Rightarrow> link list \<Rightarrow> draft" where
  "copy_draft base_link_id e base links =
     \<lparr>d_change = e_change e, d_impact = e_impact e, d_flow = e_flow e, d_node = n_id base, d_key = n_key base,
      d_type = n_type base, d_state = n_state base, d_owner = n_responsible base, d_props = n_props base,
      d_origins = [], d_base = Some (node_ref_of base),
      d_merged_with = (case e_draft e of None \<Rightarrow> None | Some d \<Rightarrow> d_merged_with d),
      d_execution = (case e_draft e of None \<Rightarrow> e_execution e | Some d \<Rightarrow> d_execution d),
      d_links = map (\<lambda>l. \<lparr>dl_id = base_link_id (e_id e) (k_id l), dl_type = k_type l,
          dl_to = (if k_to l \<in> set (case e_from_base e of None \<Rightarrow> [] | Some rs \<Rightarrow> rs) then draft_ref (nr_id (k_to l)) else k_to l),
          dl_target = k_target l, dl_props = k_props l\<rparr>) links,
      d_deleted = False, d_creator = [], d_editor = []\<rparr>"

subsection \<open>Patches\<close>

text \<open>What a value is once written as JSON and read back into an any.\<close>

primrec reread :: "gval \<Rightarrow> gval" where
  "reread GNil = GNil"
| "reread (GBool b) = GBool b"
| "reread (GInt n) = GFloat (round64 (of_int n))"
| "reread (GFloat q) = GFloat q"
| "reread (GStr s) = GStr s"
| "reread (GStrs ss) = GList (map GStr ss)"
| "reread (GList vs) = GList (map reread vs)"
| "reread (GMap m) = GMap (map (map_prod id reread) m)"
| "reread (GStrMap m) = GMap (map (map_prod id GStr) m)"
| "reread (GDur d) = GFloat (round64 (of_int d))"

fun js_str :: "gval option \<Rightarrow> string" where
  "js_str (Some (GStr s)) = s"
| "js_str _ = []"

fun js_strs :: "gval option \<Rightarrow> string list" where
  "js_strs (Some (GStrs ss)) = ss"
| "js_strs (Some (GList vs)) = map (\<lambda>v. js_str (Some v)) vs"
| "js_strs _ = []"

fun js_props :: "gval option \<Rightarrow> props" where
  "js_props (Some (GMap m)) = Some (map (map_prod id reread) m)"
| "js_props (Some (GStrMap m)) = Some (map (map_prod id GStr) m)"
| "js_props _ = None"

fun js_int :: "gval option \<Rightarrow> int" where
  "js_int (Some (GInt n)) = n"
| "js_int (Some (GFloat q)) = (if of_int \<lfloor>q\<rfloor> = q then \<lfloor>q\<rfloor> else 0)"
| "js_int _ = 0"

fun js_bool_ptr :: "gval option \<Rightarrow> bool option" where
  "js_bool_ptr None = None"
| "js_bool_ptr (Some GNil) = None"
| "js_bool_ptr (Some (GBool b)) = Some b"
| "js_bool_ptr _ = Some False"

fun js_obj :: "gval \<Rightarrow> (string, gval) gomap" where
  "js_obj (GMap m) = m"
| "js_obj (GStrMap m) = map (map_prod id GStr) m"
| "js_obj _ = []"

fun js_ptr :: "gval option \<Rightarrow> gval option" where
  "js_ptr (Some GNil) = None"
| "js_ptr v = v"

fun js_list :: "gval option \<Rightarrow> gval list" where
  "js_list (Some (GList vs)) = vs"
| "js_list (Some (GStrs ss)) = map GStr ss"
| "js_list _ = []"

record patch_link =
  pl_id :: string
  pl_type :: string
  pl_to_id :: string
  pl_to_version :: int
  pl_target :: string
  pl_props :: props

record draft_patch =
  dp_props :: props
  dp_unset :: "string list"
  dp_owner :: url
  dp_deleted :: "bool option"
  dp_state :: "(string \<times> string) option"
  dp_add_link :: "patch_link option"
  dp_update_link :: "patch_link option"
  dp_remove_link :: "patch_link option"
  dp_add_links :: "patch_link list"
  dp_update_links :: "patch_link list"
  dp_remove_links :: "patch_link list"

definition patch_link_of :: "gval \<Rightarrow> patch_link" where
  "patch_link_of v = (let m = map_of (js_obj v) in
     \<lparr>pl_id = js_str (m ''id''), pl_type = js_str (m ''type''), pl_to_id = js_str (m ''toId''),
      pl_to_version = js_int (m ''toVersion''), pl_target = js_str (m ''target''), pl_props = js_props (m ''props'')\<rparr>)"

text \<open>
  patchOf: the decoder reads the keys in order and stops at an owner that is no URL, leaving what
  follows (props, removed links, state, unset, updated links) unset.
\<close>

definition patch_of :: "props \<Rightarrow> draft_patch" where
  "patch_of p = (let m = pget p;
       owner = (case m ''owner'' of Some (GStr s) \<Rightarrow> unmarshal_text s | _ \<Rightarrow> Some zero_url);
       stop = (owner = None);
       link1 = (\<lambda>k. map_option patch_link_of (js_ptr (m k)));
       links = (\<lambda>k. map patch_link_of (js_list (m k)))
     in \<lparr>dp_props = (if stop then None else js_props (m ''props'')),
         dp_unset = (if stop then [] else js_strs (m ''unset'')),
         dp_owner = (case owner of Some u \<Rightarrow> u | None \<Rightarrow> zero_url),
         dp_deleted = js_bool_ptr (m ''deleted''),
         dp_state = (if stop then None
            else map_option (\<lambda>v. (js_str (map_of (js_obj v) ''from''), js_str (map_of (js_obj v) ''to''))) (js_ptr (m ''state''))),
         dp_add_link = link1 ''addLink'',
         dp_update_link = (if stop then None else link1 ''updateLink''),
         dp_remove_link = (if stop then None else link1 ''removeLink''),
         dp_add_links = links ''addLinks'',
         dp_update_links = (if stop then [] else links ''updateLinks''),
         dp_remove_links = (if stop then [] else links ''removeLinks'')\<rparr>)"

definition links_of :: "patch_link option \<Rightarrow> patch_link list \<Rightarrow> patch_link list" where
  "links_of one many = (case one of None \<Rightarrow> many | Some l \<Rightarrow> l # many)"

subsection \<open>The fold of a draft\<close>

definition patched_props :: "props \<Rightarrow> draft_patch \<Rightarrow> props" where
  "patched_props ps p = (if pmap (dp_props p) \<noteq> [] \<or> dp_unset p \<noteq> []
     then Some (foldl (\<lambda>m k. mdel k m) (mcopy (pmap ps) (pmap (dp_props p))) (dp_unset p))
     else ps)"

definition added_link :: "patch_link \<Rightarrow> draft_link" where
  "added_link a = \<lparr>dl_id = pl_id a, dl_type = pl_type a, dl_to = \<lparr>nr_id = pl_to_id a, nr_version = pl_to_version a\<rparr>,
     dl_target = (if pl_to_id a = [] \<and> pl_target a \<noteq> [] then url_of (pl_target a) else zero_url), dl_props = pl_props a\<rparr>"

definition update_links :: "draft_link list \<Rightarrow> patch_link \<Rightarrow> draft_link list" where
  "update_links ls u = map (\<lambda>l. if dl_id l = pl_id u then l\<lparr>dl_props := pl_props u\<rparr> else l) ls"

definition remove_links :: "draft_link list \<Rightarrow> patch_link \<Rightarrow> draft_link list" where
  "remove_links ls r = filter (\<lambda>l. dl_id l \<noteq> pl_id r) ls"

definition patched_links :: "draft_link list \<Rightarrow> draft_patch \<Rightarrow> draft_link list" where
  "patched_links ls p = foldl remove_links
     (foldl update_links (ls @ map added_link (links_of (dp_add_link p) (dp_add_links p)))
       (links_of (dp_update_link p) (dp_update_links p)))
     (links_of (dp_remove_link p) (dp_remove_links p))"

definition patch_draft :: "draft \<Rightarrow> event \<Rightarrow> draft" where
  "patch_draft d e = (let p = patch_of (e_patch e) in
     d\<lparr>d_editor := (if event_author e \<noteq> [] then event_author e else d_editor d),
       d_props := patched_props (d_props d) p,
       d_owner := (if url_is_zero (dp_owner p) then d_owner d else dp_owner p),
       d_state := (case dp_state p of None \<Rightarrow> d_state d | Some (_, to) \<Rightarrow> to),
       d_deleted := (case dp_deleted p of None \<Rightarrow> d_deleted d | Some b \<Rightarrow> b),
       d_links := patched_links (d_links d) p\<rparr>)"

definition install_draft :: "event \<Rightarrow> draft \<Rightarrow> draft" where
  "install_draft e n = n\<lparr>d_change := e_change e, d_impact := e_impact e, d_flow := e_flow e,
     d_creator := (if e_op e = OpCreated \<and> d_creator n = [] then event_author e else d_creator n),
     d_editor := (if event_author e \<noteq> [] then event_author e else d_editor n)\<rparr>"

definition apply_draft :: "draft option \<Rightarrow> event \<Rightarrow> draft option" where
  "apply_draft d e = (if e_draft e \<noteq> None \<and> writes_post (e_op e)
     then Some (install_draft e (the (e_draft e)))
     else (case d of None \<Rightarrow> None
       | Some d \<Rightarrow> if e_op e = OpUpdated \<or> e_op e = OpTransitioned then Some (patch_draft d e)
           else if e_op e = OpCancelled then None
           else Some d))"

definition draft_op :: "impact_op \<Rightarrow> bool" where
  "draft_op p \<longleftrightarrow> p = OpCreated \<or> p = OpCheckedOut \<or> p = OpTransitioned \<or> p = OpUpdated \<or> p = OpCancelled"

definition live_impact :: "impact list \<Rightarrow> string \<Rightarrow> bool" where
  "live_impact impacts i = (map_of (rev (map (\<lambda>c. (im_id c, \<not> im_superseded c)) impacts)) i = Some True)"

definition draft_row :: "string \<Rightarrow> string \<Rightarrow> draft \<Rightarrow> bool" where
  "draft_row i f d \<longleftrightarrow> d_impact d = i \<and> d_flow d = f"

definition apply_draft_event :: "draft list \<Rightarrow> event \<Rightarrow> impact list \<Rightarrow> draft list" where
  "apply_draft_event drafts e impacts =
     (let pos = index_of (draft_row (e_impact e) (e_flow e)) drafts;
          out = (if draft_op (e_op e)
            then (case (apply_draft (map_option ((!) drafts) pos) e, pos) of
                (None, Some i) \<Rightarrow> delete_at i drafts
              | (Some n, Some i) \<Rightarrow> drafts[i := n]
              | (Some n, None) \<Rightarrow> drafts @ [n]
              | (None, None) \<Rightarrow> drafts)
            else if e_op e = OpWithdrawn \<or> e_op e = OpCommitted then filter (\<lambda>d. d_impact d \<noteq> e_impact e) drafts
            else if e_op e = OpAdopted then filter (\<lambda>d. d_flow d \<noteq> e_flow e) drafts
            else drafts)
      in filter (\<lambda>d. live_impact impacts (d_impact d)) out)"

fun fold_draft_events :: "draft list \<Rightarrow> impact list \<Rightarrow> event list \<Rightarrow> (draft list \<times> impact list) option" where
  "fold_draft_events ds cs [] = Some (ds, cs)"
| "fold_draft_events ds cs (e # es) = (case apply_event cs e of None \<Rightarrow> None
     | Some cs1 \<Rightarrow> fold_draft_events (apply_draft_event ds e cs1) cs1 es)"

definition fold_drafts :: "event list \<Rightarrow> draft list option" where
  "fold_drafts es = map_option fst (fold_draft_events [] [] es)"

text \<open>DraftSeenBy: the rows of the flows of the chain, then the innermost one that holds a draft.\<close>

fun seen_rows :: "string \<Rightarrow> string list \<Rightarrow> (string \<Rightarrow> bool) \<Rightarrow> (string, draft) gomap \<Rightarrow> event list \<Rightarrow> (string, draft) gomap" where
  "seen_rows i ord stale rows [] = rows"
| "seen_rows i ord stale rows (e # es) =
     (let gone = (e_op e = OpCommitted \<or> e_op e = OpWithdrawn) in
      if e_impact e \<noteq> i \<or> e_flow e \<notin> set ord \<or> (stale (e_execution e) \<and> \<not> gone)
      then seen_rows i ord stale rows es
      else seen_rows i ord stale
        (if gone then []
         else if draft_op (e_op e) then (case apply_draft (map_of rows (e_flow e)) e of
             Some n \<Rightarrow> mput (e_flow e) n rows | None \<Rightarrow> mdel (e_flow e) rows)
         else rows) es)"

definition draft_seen_by :: "event list \<Rightarrow> string \<Rightarrow> string list \<Rightarrow> (string \<Rightarrow> bool) \<Rightarrow> draft option" where
  "draft_seen_by es i chain stale = (let ord = chain @ [[]]; rows = seen_rows i ord stale [] es in
     (case find (\<lambda>f. map_of rows f \<noteq> None) ord of None \<Rightarrow> None | Some f \<Rightarrow> map_of rows f))"

subsection \<open>The drafts of a log\<close>

lemma apply_draft_row:
  "draft_op (e_op e) \<Longrightarrow> (\<And>c. d = Some c \<Longrightarrow> draft_row (e_impact e) (e_flow e) c) \<Longrightarrow>
   apply_draft d e = Some n \<Longrightarrow> draft_row (e_impact e) (e_flow e) n"
  by (auto simp: apply_draft_def install_draft_def patch_draft_def draft_row_def draft_op_def Let_def
      split: if_splits option.splits)

definition draft_key :: "draft \<Rightarrow> string \<times> string" where
  "draft_key d = (d_impact d, d_flow d)"

definition drafts_ok :: "draft list \<Rightarrow> impact list \<Rightarrow> bool" where
  "drafts_ok ds cs \<longleftrightarrow> distinct (map draft_key ds) \<and> (\<forall>d \<in> set ds. live_impact cs (d_impact d))"

lemma distinct_map_filter_key: "distinct (map f xs) \<Longrightarrow> distinct (map f (filter p xs))"
  by (induction xs) auto

lemma apply_draft_event_ok:
  assumes "distinct (map draft_key ds)"
  shows "drafts_ok (apply_draft_event ds e cs) cs"
proof -
  let ?row = "draft_row (e_impact e) (e_flow e)"
  let ?pos = "index_of ?row ds"
  have row: "?row d \<longleftrightarrow> draft_key d = (e_impact e, e_flow e)" for d by (auto simp: draft_row_def draft_key_def)
  have upd: "distinct (map draft_key (ds[i := n]))" if "?pos = Some i" "?row n" for i n
  proof -
    have i: "i < length ds" "?row (ds ! i)" using index_of_Some [OF that(1)] by simp_all
    then have "map draft_key (ds[i := n]) = map draft_key ds"
      using that(2) row by (simp add: map_update list_update_same_conv)
    then show ?thesis using assms by simp
  qed
  have app: "distinct (map draft_key (ds @ [n]))" if "?pos = None" "?row n" for n
    using that assms row by (auto simp: index_of_None)
  have del: "distinct (map draft_key (delete_at i ds))" for i
    using distinct_delete_at [OF assms] by (simp add: map_delete_at)
  have fl: "distinct (map draft_key (filter p xs))" if "distinct (map draft_key xs)" for p xs
    using distinct_map_filter_key [OF that] .
  have nrow: "?row n" if "draft_op (e_op e)" "apply_draft (map_option ((!) ds) ?pos) e = Some n" for n
    using that index_of_Some by (intro apply_draft_row [OF that(1) _ that(2)]) (auto simp: map_option_case split: option.splits)
  show ?thesis
  proof (cases "draft_op (e_op e)")
    case True
    let ?out = "case (apply_draft (map_option ((!) ds) ?pos) e, ?pos) of
                (None, Some i) \<Rightarrow> delete_at i ds | (Some n, Some i) \<Rightarrow> ds[i := n]
              | (Some n, None) \<Rightarrow> ds @ [n] | (None, None) \<Rightarrow> ds"
    have "distinct (map draft_key ?out)"
      using nrow [OF True] upd app del assms
      by (cases "apply_draft (map_option ((!) ds) ?pos) e"; cases ?pos) auto
    then show ?thesis using True fl by (simp add: apply_draft_event_def drafts_ok_def Let_def)
  next
    case False
    then show ?thesis using assms fl by (simp add: apply_draft_event_def drafts_ok_def Let_def)
  qed
qed

lemma fold_draft_events_ok:
  "drafts_ok ds cs \<Longrightarrow> fold_draft_events ds cs es = Some (ds', cs') \<Longrightarrow> drafts_ok ds' cs' \<and> fold_events cs es = Some cs'"
proof (induction es arbitrary: ds cs)
  case (Cons e es)
  then obtain cs1 where cs1: "apply_event cs e = Some cs1"
    "fold_draft_events (apply_draft_event ds e cs1) cs1 es = Some (ds', cs')"
    by (auto split: option.splits)
  have "drafts_ok (apply_draft_event ds e cs1) cs1"
    by (rule apply_draft_event_ok) (use Cons.prems(1) in \<open>simp add: drafts_ok_def\<close>)
  then show ?case using Cons.IH cs1 by simp
qed simp

lemma fold_draft_events_total: "fold_events cs es = Some cs' \<Longrightarrow> \<exists>ds'. fold_draft_events ds cs es = Some (ds', cs')"
  by (induction es arbitrary: ds cs) (auto split: option.splits)

subsection \<open>Properties of the drafts\<close>

text \<open>
  C31. A valid log replays into drafts with at most one per change impact and flow, each for a change
  impact the log leaves in the change and not superseded.
\<close>

theorem drafts_of_live_impacts:
  assumes "list_all event_ok es"
  shows "\<exists>ds cs. fold_drafts es = Some ds \<and> fold_impacts es = Some cs \<and> distinct (map draft_key ds)
    \<and> (\<forall>d \<in> set ds. \<exists>c \<in> set cs. im_id c = d_impact d \<and> \<not> im_superseded c)"
proof -
  obtain cs where cs: "fold_events [] es = Some cs" using fold_events_ok [OF assms] by auto
  obtain ds where ds: "fold_draft_events [] [] es = Some (ds, cs)" using fold_draft_events_total [OF cs] by auto
  have ok: "drafts_ok ds cs" using fold_draft_events_ok [OF _ ds] by (simp add: drafts_ok_def)
  have "\<exists>c \<in> set cs. im_id c = i \<and> \<not> im_superseded c" if "live_impact cs i" for i
    using that by (auto simp: live_impact_def dest!: map_of_SomeD)
  then show ?thesis using ok cs ds by (auto simp: fold_drafts_def fold_impacts_def drafts_ok_def)
qed

definition demo_draft :: draft where
  "demo_draft = \<lparr>d_change = ''c'', d_impact = ''i1'', d_flow = [], d_node = ''n'', d_key = ''K'', d_type = ''alm@Req'',
     d_state = [], d_owner = zero_url, d_props = Some [(''a'', GInt 1)], d_origins = [],
     d_base = Some \<lparr>nr_id = ''n'', nr_version = 1\<rparr>, d_merged_with = None, d_execution = [], d_links = [],
     d_deleted = False, d_creator = [], d_editor = []\<rparr>"

definition demo_checkout :: event where
  "demo_checkout = demo_event\<lparr>e_op := OpCheckedOut, e_state := None, e_post := Some (draft_ref ''n''), e_draft := Some demo_draft\<rparr>"

definition demo_update :: event where
  "demo_update = demo_event\<lparr>e_op := OpUpdated, e_state := None, e_post := Some (draft_ref ''n''),
     e_patch := Some [(''props'', GMap [(''b'', GBool True)]), (''unset'', GStrs [''a''])]\<rparr>"

theorem drafts_of_live_impacts_witness:
  "let es = [demo_event, demo_checkout, demo_update]
   in list_all event_ok es \<and> map_option (map d_props) (fold_drafts es) = Some [Some [(''b'', GBool True)]]
      \<and> (\<exists>ds. fold_drafts es = Some ds \<and> distinct (map draft_key ds))"
proof -
  let ?es = "[demo_event, demo_checkout, demo_update]"
  have ok: "list_all event_ok ?es" by code_simp
  have "map_option (map d_props) (fold_drafts ?es) = Some [Some [(''b'', GBool True)]]" by code_simp
  moreover have "\<exists>ds. fold_drafts ?es = Some ds \<and> distinct (map draft_key ds)"
    using drafts_of_live_impacts [OF ok] by blast
  ultimately show ?thesis using ok by (simp only: Let_def simp_thms)
qed

end
