(* ===== verification/Merge.thy ===== *)
theory Merge
  imports Drafts
begin

text \<open>
  contracts/domain/draftmerge.go: the three-way merge of drafts, the conflicts it leaves and how the
  events after it settle them, and whether a draft modifies the version it was checked out from.
\<close>

subsection \<open>Names of conflicts\<close>

definition conflict_prop :: "string \<Rightarrow> string" where
  "conflict_prop k = ''props.'' @ k"

definition conflict_link :: "string \<Rightarrow> string \<Rightarrow> string" where
  "conflict_link typ to = ''link:'' @ typ @ '':'' @ to"

subsection \<open>The merge\<close>

definition merge3 :: "'a \<Rightarrow> 'a \<Rightarrow> 'a \<Rightarrow> 'a \<times> bool" where
  "merge3 base ours theirs = (if ours = base then (theirs, False)
     else if theirs = base \<or> ours = theirs then (ours, False) else (ours, True))"

definition merge_prop :: "(string \<Rightarrow> gval option) \<Rightarrow> (string \<Rightarrow> gval option) \<Rightarrow> (string \<Rightarrow> gval option)
    \<Rightarrow> props \<times> string list \<Rightarrow> string \<Rightarrow> props \<times> string list" where
  "merge_prop b o' t pc k = (let (out, cs) = pc in
     if same_value (o' k) (b k)
     then (Some (case t k of Some v \<Rightarrow> mput k v (pmap out) | None \<Rightarrow> mdel k (pmap out)), cs)
     else if same_value (t k) (b k) \<or> same_value (o' k) (t k) then (out, cs)
     else (out, cs @ [conflict_prop k]))"

definition link_target :: "draft_link \<Rightarrow> string" where
  "link_target l = (if draft_link_external l then url_string (logical (dl_target l)) else nr_id (dl_to l))"

definition link_key :: "draft_link \<Rightarrow> string" where
  "link_key l = conflict_link (dl_type l) (link_target l)"

definition links_by_key :: "draft_link list \<Rightarrow> (string, draft_link) gomap" where
  "links_by_key ls = foldl (\<lambda>m l. if map_of m (link_key l) = None then mput (link_key l) l m else m) [] ls"

fun same_link :: "draft_link option \<Rightarrow> draft_link option \<Rightarrow> bool" where
  "same_link None None = True"
| "same_link (Some a) (Some b) = (nr_version (dl_to a) = nr_version (dl_to b) \<and> dl_target a = dl_target b
     \<and> same_value (Some (pany (dl_props a))) (Some (pany (dl_props b))))"
| "same_link _ _ = False"

definition take_link :: "draft_link \<Rightarrow> draft_link \<Rightarrow> draft_link" where
  "take_link l t = l\<lparr>dl_to := dl_to t, dl_target := dl_target t, dl_props := dl_props t\<rparr>"

text \<open>The loop over ours: the first link of a key takes the outcome of the key, the others stay.\<close>

fun merge_ours :: "(string, draft_link option) gomap \<Rightarrow> string list \<Rightarrow> draft_link list \<Rightarrow> draft_link list \<times> string list" where
  "merge_ours tk seen [] = ([], seen)"
| "merge_ours tk seen (l # ls) = (if link_key l \<in> set seen then apfst (Cons l) (merge_ours tk seen ls)
     else (let r = merge_ours tk (link_key l # seen) ls in
       (case map_of tk (link_key l) of
          None \<Rightarrow> apfst (Cons l) r
        | Some (Some t) \<Rightarrow> apfst (Cons (take_link l t)) r
        | Some None \<Rightarrow> r)))"

definition merge_links :: "draft_link list \<Rightarrow> draft_link list \<Rightarrow> draft_link list \<Rightarrow> draft_link list \<times> string list" where
  "merge_links base ours theirs =
     (let bm = links_by_key base; om = links_by_key ours; tm = links_by_key theirs;
          b = map_of bm; o' = map_of om; t = map_of tm;
          keys = mkeys (bm @ om @ tm);
          tk = map (\<lambda>k. (k, t k)) (filter (\<lambda>k. same_link (o' k) (b k)) keys);
          conflicts = filter (\<lambda>k. \<not> same_link (o' k) (b k) \<and> \<not> (same_link (t k) (b k) \<or> same_link (o' k) (t k))) keys;
          (out, seen) = merge_ours tk [] ours;
          added = sort (map fst (filter (\<lambda>(k, t). t \<noteq> None \<and> k \<notin> set seen) tk))
      in (out @ map (\<lambda>k. (the (the (map_of tk k)))\<lparr>dl_id := []\<rparr>) added, conflicts))"

definition merge_drafts :: "draft \<Rightarrow> draft \<Rightarrow> draft \<Rightarrow> draft \<times> string list" where
  "merge_drafts base ours theirs =
     (let keys = mkeys (pmap (d_props base) @ pmap (d_props ours) @ pmap (d_props theirs));
          (ps, c1) = foldl (merge_prop (pget (d_props base)) (pget (d_props ours)) (pget (d_props theirs))) (d_props ours, []) keys;
          (owner, co) = merge3 (d_owner base) (d_owner ours) (d_owner theirs);
          (state, cs) = merge3 (d_state base) (d_state ours) (d_state theirs);
          (deleted, _) = merge3 (d_deleted base) (d_deleted ours) (d_deleted theirs);
          (links, cl) = merge_links (d_links base) (d_links ours) (d_links theirs)
      in (ours\<lparr>d_props := ps, d_owner := owner, d_state := state, d_deleted := deleted, d_links := links\<rparr>,
          sort (c1 @ (if co then [''owner''] else []) @ (if cs then [''state''] else []) @ cl)))"

subsection \<open>Conflicts of a rebase\<close>

fun strings_of :: "gval option \<Rightarrow> string list" where
  "strings_of (Some (GStrs ss)) = ss"
| "strings_of (Some (GList vs)) = List.map_filter as_str vs"
| "strings_of _ = []"

definition settle :: "string \<Rightarrow> string list \<Rightarrow> string list" where
  "settle name pending = filter (\<lambda>c. c \<noteq> name) pending"

definition settle_all :: "string list \<Rightarrow> string list \<Rightarrow> string list" where
  "settle_all names pending = foldl (\<lambda>p n. settle n p) pending names"

definition not_nil :: "gval option \<Rightarrow> bool" where
  "not_nil v \<longleftrightarrow> v \<noteq> None \<and> v \<noteq> Some GNil"

definition patch_link_conflict :: "props \<Rightarrow> string \<Rightarrow> string list" where
  "patch_link_conflict p name = (case map_of_val (pget p name) of None \<Rightarrow> []
     | Some l \<Rightarrow> let typ = str_of (map_of l ''type''); to0 = str_of (map_of l ''toId''); u = str_of (map_of l ''target'');
           to = (if to0 = [] \<and> u \<noteq> [] then (case parse u of Some t \<Rightarrow> url_string (logical t) | None \<Rightarrow> []) else to0)
         in if typ \<noteq> [] \<and> to \<noteq> [] then [conflict_link typ to] else [])"

definition prop_conflicts :: "props \<Rightarrow> string list" where
  "prop_conflicts p = map conflict_prop (mkeys (pmap p))"

definition apply_conflict_event :: "string list \<Rightarrow> event \<Rightarrow> string list" where
  "apply_conflict_event pending e =
     (if e_flow e \<noteq> [] then pending
      else if e_op e \<in> set [OpCreated, OpCheckedOut, OpCancelled, OpWithdrawn, OpCommitted] then []
      else if e_op e = OpTransitioned then
        (if not_nil (pget (e_patch e) ''rebased'') then strings_of (pget (e_patch e) ''conflicts'')
         else if e_draft e \<noteq> None then []
         else settle_all (prop_conflicts (dp_props (patch_of (e_patch e))))
           (if not_nil (pget (e_patch e) ''state'') then settle ''state'' pending else pending))
      else if e_op e = OpUpdated then
        (if not_nil (pget (e_patch e) ''rebased'') then strings_of (pget (e_patch e) ''conflicts'')
         else if bool_of (pget (e_patch e) ''resolved'') then []
         else let p = patch_of (e_patch e) in
           settle_all (concat (map (patch_link_conflict (e_patch e)) [''addLink'', ''removeLink'', ''updateLink'']))
             (settle_all (if url_is_zero (dp_owner p) then [] else [''owner''])
               (settle_all (map conflict_prop (dp_unset p))
                 (settle_all (prop_conflicts (dp_props p)) (settle ''node'' pending)))))
      else pending)"

definition pending_conflicts :: "event list \<Rightarrow> string \<Rightarrow> string list" where
  "pending_conflicts es i = foldl (\<lambda>p e. if e_impact e = i then apply_conflict_event p e else p) [] es"

subsection \<open>Whether a draft modifies its base\<close>

definition props_len :: "props \<Rightarrow> nat" where
  "props_len p = msize (pmap p)"

text \<open>The walk of the links of the draft: each uses up one link of its key of the base.\<close>

fun links_unchanged :: "(string, draft_link) gomap \<Rightarrow> (string \<Rightarrow> nat) \<Rightarrow> draft_link list \<Rightarrow> bool" where
  "links_unchanged bm cnt [] = True"
| "links_unchanged bm cnt (l # ls) = (let k = link_key l;
       bp = (case map_of bm k of Some b \<Rightarrow> dl_props b | None \<Rightarrow> None) in
     if cnt k = 0 \<or> \<not> (props_len (dl_props l) = 0 \<and> props_len bp = 0
          \<or> same_value (Some (pany (dl_props l))) (Some (pany bp)))
     then False
     else links_unchanged bm (cnt(k := cnt k - 1)) ls)"

definition draft_changed :: "draft option \<Rightarrow> draft \<Rightarrow> bool" where
  "draft_changed base d = (case base of None \<Rightarrow> True
     | Some b \<Rightarrow> (case d_base d of None \<Rightarrow> True
       | Some db \<Rightarrow>
         if d_deleted d \<noteq> d_deleted b then True
         else if (case d_merged_with d of None \<Rightarrow> False | Some m \<Rightarrow> m \<noteq> db) then True
         else if props_len (d_props b) \<noteq> props_len (d_props d) then True
         else if \<not> list_all (\<lambda>k. same_value (pget (d_props d) k) (pget (d_props b) k)) (mkeys (pmap (d_props d))) then True
         else if (\<not> url_is_zero (d_owner d) \<and> d_owner d \<noteq> d_owner b) \<or> d_state d \<noteq> d_state b then True
         else if length (d_links b) \<noteq> length (d_links d) then True
         else \<not> links_unchanged (links_by_key (d_links b))
                 (\<lambda>k. length (filter (\<lambda>l. link_key l = k) (d_links b))) (d_links d)))"

subsection \<open>The merge of the properties\<close>

lemma conflict_prop_inj [simp]: "conflict_prop a = conflict_prop b \<longleftrightarrow> a = b"
  by (simp add: conflict_prop_def)

lemma conflict_names [simp]:
  "conflict_prop k \<noteq> ''owner''" "conflict_prop k \<noteq> ''state''" "conflict_prop k \<noteq> conflict_link t i"
  "conflict_link t i \<noteq> ''owner''" "conflict_link t i \<noteq> ''state''"
  "''owner'' \<noteq> conflict_prop k" "''state'' \<noteq> conflict_prop k" "conflict_link t i \<noteq> conflict_prop k"
  "''owner'' \<noteq> conflict_link t i" "''state'' \<noteq> conflict_link t i"
  by (simp_all add: conflict_prop_def conflict_link_def)

lemma merge_props_fold:
  assumes "distinct ks" "foldl (merge_prop b o' t) (out, cs) ks = (out', cs')"
  shows "pget out' k = (if k \<in> set ks \<and> same_value (o' k) (b k) then t k else pget out k)
    \<and> cs' = cs @ map conflict_prop (filter (\<lambda>k. \<not> same_value (o' k) (b k) \<and> \<not> same_value (t k) (b k) \<and> \<not> same_value (o' k) (t k)) ks)"
  using assms
proof (induction ks arbitrary: out cs)
  case (Cons x xs)
  obtain o1 c1 where s: "merge_prop b o' t (out, cs) x = (o1, c1)" by (cases "merge_prop b o' t (out, cs) x")
  have rest: "foldl (merge_prop b o' t) (o1, c1) xs = (out', cs')" "distinct xs" "x \<notin> set xs"
    using Cons.prems s by simp_all
  have o1: "pget o1 k = (if k = x \<and> same_value (o' x) (b x) then t x else pget out k)"
    and c1: "c1 = cs @ (if \<not> same_value (o' x) (b x) \<and> \<not> same_value (t x) (b x) \<and> \<not> same_value (o' x) (t x)
        then [conflict_prop x] else [])"
    using s by (auto simp: merge_prop_def pget_def pmap_def Let_def split: if_splits option.splits)
  from Cons.IH [OF rest(2,1)] show ?case using o1 c1 rest(3) by auto
qed simp

lemma links_by_key_dom: "dom (map_of (links_by_key ls)) = link_key ` set ls"
proof -
  have "dom (map_of (foldl (\<lambda>m l. if map_of m (link_key l) = None then mput (link_key l) l m else m) m ls))
      = dom (map_of m) \<union> link_key ` set ls" for m
  proof (induction ls arbitrary: m)
    case (Cons l ls)
    then show ?case by (cases "map_of m (link_key l)") auto
  qed simp
  then show ?thesis by (simp add: links_by_key_def)
qed

lemma merge_links_keys: "set (mkeys (links_by_key base @ links_by_key ours @ links_by_key theirs))
    = link_key ` (set base \<union> set ours \<union> set theirs)"
proof -
  have "dom (map_of (a @ b @ c)) = dom (map_of a) \<union> dom (map_of b) \<union> dom (map_of c)" for a b c :: "(string, draft_link) gomap"
    by (auto simp: map_add_def dom_def split: option.splits)
  then show ?thesis by (simp add: links_by_key_dom) blast
qed

lemma link_conflicts_keys: "set (snd (merge_links base ours theirs)) \<subseteq> link_key ` (set base \<union> set ours \<union> set theirs)"
  unfolding merge_links_def Let_def using merge_links_keys [of base ours theirs]
  by (auto split: prod.splits)

lemma merge_drafts_props:
  assumes "merge_drafts base ours theirs = (out, cs)"
  shows "pget (d_props out) k = (if same_value (pget (d_props ours) k) (pget (d_props base) k)
      then pget (d_props theirs) k else pget (d_props ours) k)
   \<and> (conflict_prop k \<in> set cs \<longleftrightarrow> \<not> same_value (pget (d_props ours) k) (pget (d_props base) k)
        \<and> \<not> same_value (pget (d_props theirs) k) (pget (d_props base) k)
        \<and> \<not> same_value (pget (d_props ours) k) (pget (d_props theirs) k))"
proof -
  let ?keys = "mkeys (pmap (d_props base) @ pmap (d_props ours) @ pmap (d_props theirs))"
  obtain ps c1 where f: "foldl (merge_prop (pget (d_props base)) (pget (d_props ours)) (pget (d_props theirs))) (d_props ours, []) ?keys = (ps, c1)"
    by fastforce
  have cl: "conflict_prop k \<notin> set (snd (merge_links (d_links base) (d_links ours) (d_links theirs)))"
    using link_conflicts_keys by (force simp: link_key_def)
  have P: "pget ps k = (if k \<in> set ?keys \<and> same_value (pget (d_props ours) k) (pget (d_props base) k)
      then pget (d_props theirs) k else pget (d_props ours) k)"
    and C: "c1 = map conflict_prop (filter (\<lambda>k. \<not> same_value (pget (d_props ours) k) (pget (d_props base) k)
       \<and> \<not> same_value (pget (d_props theirs) k) (pget (d_props base) k)
       \<and> \<not> same_value (pget (d_props ours) k) (pget (d_props theirs) k)) ?keys)"
    using merge_props_fold [OF _ f] by simp_all
  have out: "d_props out = ps" and cs: "conflict_prop k \<in> set cs \<longleftrightarrow> conflict_prop k \<in> set c1"
    using assms f cl by (auto simp: merge_drafts_def Let_def split: prod.splits if_splits)
  have nk: "pget (d_props base) k = None \<and> pget (d_props ours) k = None \<and> pget (d_props theirs) k = None" if "k \<notin> set ?keys"
    using that by (auto simp: pget_def map_add_def dom_def split: option.splits)
  show ?thesis
  proof (cases "k \<in> set ?keys")
    case True
    then show ?thesis using P C out cs by auto
  next
    case False
    then show ?thesis using P C out cs nk [OF False] by auto
  qed
qed

lemma merge_drafts_scalars:
  assumes "merge_drafts base ours theirs = (out, cs)"
  shows "(d_owner out, ''owner'' \<in> set cs) = merge3 (d_owner base) (d_owner ours) (d_owner theirs)
    \<and> (d_state out, ''state'' \<in> set cs) = merge3 (d_state base) (d_state ours) (d_state theirs)
    \<and> d_deleted out = fst (merge3 (d_deleted base) (d_deleted ours) (d_deleted theirs))"
proof -
  obtain ps c1 where f: "foldl (merge_prop (pget (d_props base)) (pget (d_props ours)) (pget (d_props theirs)))
      (d_props ours, []) (mkeys (pmap (d_props base) @ pmap (d_props ours) @ pmap (d_props theirs))) = (ps, c1)"
    by fastforce
  obtain ow co st cs' where m: "merge3 (d_owner base) (d_owner ours) (d_owner theirs) = (ow, co)"
    "merge3 (d_state base) (d_state ours) (d_state theirs) = (st, cs')" by fastforce
  obtain ls cl where l: "merge_links (d_links base) (d_links ours) (d_links theirs) = (ls, cl)" by fastforce
  have "set cl \<subseteq> range link_key" using link_conflicts_keys [of "d_links base" "d_links ours" "d_links theirs"] l by auto
  then have "''owner'' \<notin> set cl" "''state'' \<notin> set cl" by (auto simp: link_key_def)
  moreover have "''owner'' \<notin> set c1" "''state'' \<notin> set c1" using merge_props_fold [OF _ f] by auto
  moreover have "out = ours\<lparr>d_props := ps, d_owner := ow, d_state := st,
       d_deleted := fst (merge3 (d_deleted base) (d_deleted ours) (d_deleted theirs)), d_links := ls\<rparr>"
    and "cs = sort (c1 @ (if co then [''owner''] else []) @ (if cs' then [''state''] else []) @ cl)"
    using assms f m l by (auto simp: merge_drafts_def split: prod.splits)
  ultimately show ?thesis using m by auto
qed

subsection \<open>The merge of the links\<close>

definition first_link :: "string \<Rightarrow> draft_link list \<Rightarrow> draft_link option" where
  "first_link k ls = find (\<lambda>l. link_key l = k) ls"

lemma map_of_links_by_key: "map_of (links_by_key ls) k = first_link k ls"
proof -
  have "map_of (foldl (\<lambda>m l. if map_of m (link_key l) = None then mput (link_key l) l m else m) m ls) k
      = (case map_of m k of Some x \<Rightarrow> Some x | None \<Rightarrow> first_link k ls)" for m
    by (induction ls arbitrary: m) (auto simp: first_link_def split: option.splits)
  then show ?thesis by (simp add: links_by_key_def)
qed

lemma same_link_None [simp]: "same_link None x \<longleftrightarrow> x = None" "same_link x None \<longleftrightarrow> x = None"
  by (cases x; simp) (cases x; simp)

lemma first_link_None: "first_link k ls = None \<longleftrightarrow> k \<notin> link_key ` set ls"
  by (auto simp: first_link_def find_None_iff)

definition link_conflict :: "string \<Rightarrow> draft_link list \<Rightarrow> draft_link list \<Rightarrow> draft_link list \<Rightarrow> bool" where
  "link_conflict k base ours theirs \<longleftrightarrow> \<not> same_link (first_link k ours) (first_link k base)
     \<and> \<not> same_link (first_link k theirs) (first_link k base) \<and> \<not> same_link (first_link k ours) (first_link k theirs)"

lemma merge_links_conflicts: "set (snd (merge_links base ours theirs)) = {k. link_conflict k base ours theirs}"
proof -
  let ?keys = "mkeys (links_by_key base @ links_by_key ours @ links_by_key theirs)"
  have "snd (merge_links base ours theirs) = filter (\<lambda>k. link_conflict k base ours theirs) ?keys"
    by (simp add: merge_links_def Let_def map_of_links_by_key link_conflict_def split: prod.splits)
  moreover have "k \<in> set ?keys" if "link_conflict k base ours theirs" for k
  proof (rule ccontr)
    assume "k \<notin> set ?keys"
    then have "first_link k base = None" "first_link k ours = None"
      unfolding merge_links_keys first_link_None by auto
    then show False using that by (simp add: link_conflict_def)
  qed
  ultimately show ?thesis by auto
qed

lemma merge_ours_distinct:
  "distinct (map link_key ls) \<Longrightarrow> set (map link_key ls) \<inter> set seen = {} \<Longrightarrow>
   merge_ours tk seen ls = (concat (map (\<lambda>l. case map_of tk (link_key l) of None \<Rightarrow> [l]
        | Some (Some t) \<Rightarrow> [take_link l t] | Some None \<Rightarrow> []) ls), rev (map link_key ls) @ seen)"
proof (induction ls arbitrary: seen)
  case (Cons l ls)
  then have "merge_ours tk (link_key l # seen) ls = (concat (map (\<lambda>l. case map_of tk (link_key l) of None \<Rightarrow> [l]
        | Some (Some t) \<Rightarrow> [take_link l t] | Some None \<Rightarrow> []) ls), rev (map link_key ls) @ link_key l # seen)"
    by (intro Cons.IH) auto
  then show ?case using Cons.prems by (auto split: option.splits)
qed simp

definition plain_types :: "draft_link list \<Rightarrow> bool" where
  "plain_types ls \<longleftrightarrow> (\<forall>l \<in> set ls. CHR '':'' \<notin> set (dl_type l))"

lemma conflict_link_inj:
  "CHR '':'' \<notin> set a \<Longrightarrow> CHR '':'' \<notin> set b \<Longrightarrow> conflict_link a x = conflict_link b y \<longleftrightarrow> a = b \<and> x = y"
proof -
  assume a: "CHR '':'' \<notin> set a" and b: "CHR '':'' \<notin> set b"
  have "a @ CHR '':'' # x = b @ CHR '':'' # y \<longleftrightarrow> a = b \<and> x = y"
    using cut_append [OF a, of x] cut_append [OF b, of y] by (metis option.inject prod.inject)
  then show ?thesis by (simp add: conflict_link_def)
qed

lemma take_link_key:
  assumes "CHR '':'' \<notin> set (dl_type l)" "CHR '':'' \<notin> set (dl_type t)" "link_key t = link_key l"
  shows "link_key (take_link l t) = link_key l"
proof -
  have "dl_type t = dl_type l" using assms conflict_link_inj by (simp add: link_key_def)
  moreover have "link_target (take_link l t) = link_target t"
    by (simp add: link_target_def take_link_def draft_link_external_def)
  ultimately show ?thesis using assms(3) by (simp add: link_key_def take_link_def)
qed

lemma new_link_key: "link_key (t\<lparr>dl_id := i\<rparr>) = link_key t"
  by (simp add: link_key_def link_target_def draft_link_external_def)

lemma find_concat: "find p (concat (map g ls)) = (case find (\<lambda>l. find p (g l) \<noteq> None) ls of
    None \<Rightarrow> None | Some l \<Rightarrow> find p (g l))"
proof -
  have ap: "find p (xs @ ys) = (case find p xs of Some x \<Rightarrow> Some x | None \<Rightarrow> find p ys)" for xs ys
    by (induction xs) auto
  show ?thesis by (induction ls) (auto simp: ap split: option.splits)
qed

lemma first_link_append: "first_link k (xs @ ys) = (case first_link k xs of Some x \<Rightarrow> Some x | None \<Rightarrow> first_link k ys)"
  by (induction xs) (auto simp: first_link_def)

lemma first_link_key: "first_link k ls = Some l \<Longrightarrow> l \<in> set ls \<and> link_key l = k"
  by (auto simp: first_link_def find_Some_iff)

text \<open>The outcome of a key in the merged links.\<close>

definition merged_link :: "string \<Rightarrow> draft_link list \<Rightarrow> draft_link list \<Rightarrow> draft_link list \<Rightarrow> draft_link option" where
  "merged_link k base ours theirs = (if same_link (first_link k ours) (first_link k base)
     then (case first_link k theirs of None \<Rightarrow> None
       | Some t \<Rightarrow> Some (case first_link k ours of Some l \<Rightarrow> take_link l t | None \<Rightarrow> t\<lparr>dl_id := []\<rparr>))
     else first_link k ours)"

lemma merge_links_first:
  assumes "distinct (map link_key ours)" "plain_types ours" "plain_types theirs"
  shows "first_link k (fst (merge_links base ours theirs)) = merged_link k base ours theirs"
proof -
  let ?keys = "mkeys (links_by_key base @ links_by_key ours @ links_by_key theirs)"
  define tk where "tk = map (\<lambda>k. (k, first_link k theirs)) (filter (\<lambda>k. same_link (first_link k ours) (first_link k base)) ?keys)"
  define g where "g = (\<lambda>l. case map_of tk (link_key l) of None \<Rightarrow> [l] | Some (Some t) \<Rightarrow> [take_link l t] | Some None \<Rightarrow> [])"
  define added where "added = sort (map fst (filter (\<lambda>(k, t). t \<noteq> None \<and> k \<notin> set (rev (map link_key ours))) tk))"
  define h where "h = (\<lambda>k. (the (the (map_of tk k)))\<lparr>dl_id := []\<rparr>)"
  have out: "fst (merge_links base ours theirs) = concat (map g ours) @ map h added"
    using merge_ours_distinct [OF assms(1), of "[]" tk]
    by (simp add: merge_links_def Let_def map_of_links_by_key tk_def g_def added_def h_def)
  have keys: "k \<in> set ?keys" if "first_link k ours \<noteq> None \<or> first_link k theirs \<noteq> None" for k
    using that unfolding merge_links_keys by (auto simp: first_link_None)
  have tk: "map_of tk k = (if k \<in> set ?keys \<and> same_link (first_link k ours) (first_link k base) then Some (first_link k theirs) else None)" for k
    by (auto simp: tk_def map_of_map_restrict restrict_map_def map_of_map_keys [symmetric] comp_def)
  have gk: "find (\<lambda>x. link_key x = k) (g l) = (if link_key l = k then (case g l of [] \<Rightarrow> None | x # _ \<Rightarrow> Some x) else None)"
    if "l \<in> set ours" for l
  proof -
    have "link_key x = link_key l" if "x \<in> set (g l)" for x
    proof (cases "map_of tk (link_key l)")
      case None then show ?thesis using that by (simp add: g_def)
    next
      case (Some mt)
      then show ?thesis using that tk [of "link_key l"] take_link_key assms(2,3) \<open>l \<in> set ours\<close> first_link_key
        by (auto simp: g_def plain_types_def split: option.splits if_splits)
    qed
    moreover have "length (g l) \<le> 1" by (simp add: g_def split: option.splits)
    ultimately show ?thesis by (cases "g l") auto
  qed
  have first: "first_link k (concat (map g ours)) = (case first_link k ours of None \<Rightarrow> None
      | Some l \<Rightarrow> (case g l of [] \<Rightarrow> None | x # _ \<Rightarrow> Some x))"
  proof (cases "first_link k ours")
    case None
    then have "link_key l \<noteq> k" if "l \<in> set ours" for l using that by (auto simp: first_link_None)
    then have "find (\<lambda>x. link_key x = k) (g l) = None" if "l \<in> set ours" for l using gk that by simp
    then have "find (\<lambda>l. find (\<lambda>x. link_key x = k) (g l) \<noteq> None) ours = None"
      unfolding find_None_iff by blast
    then show ?thesis using None by (simp add: first_link_def [of k "concat (map g ours)"] find_concat)
  next
    case (Some l)
    note L = first_link_key [OF Some]
    have only: "l' = l" if "l' \<in> set ours" "link_key l' = k" for l'
      using that L assms(1) by (auto simp: distinct_map inj_on_def)
    have "find (\<lambda>l. find (\<lambda>x. link_key x = k) (g l) \<noteq> None) ours = (if g l = [] then None else Some l)"
    proof (cases "g l = []")
      case True
      have "find (\<lambda>x. link_key x = k) (g l') = None" if "l' \<in> set ours" for l'
        using gk [OF that] only [OF that] True by auto
      then show ?thesis unfolding if_P [OF True] find_None_iff by blast
    next
      case False
      then have q: "find (\<lambda>x. link_key x = k) (g l) \<noteq> None" using gk L by (auto split: list.splits)
      have "find (\<lambda>l. find (\<lambda>x. link_key x = k) (g l) \<noteq> None) ours \<noteq> None"
        using q L by (auto simp: find_None_iff)
      then obtain l' where l': "find (\<lambda>l. find (\<lambda>x. link_key x = k) (g l) \<noteq> None) ours = Some l'" by blast
      then have "l' \<in> set ours" "find (\<lambda>x. link_key x = k) (g l') \<noteq> None" by (auto simp: find_Some_iff)
      then have "l' = l" using gk only by (auto split: if_splits)
      then show ?thesis using l' False by simp
    qed
    then show ?thesis using Some gk L by (auto simp: first_link_def [of k "concat (map g ours)"] find_concat split: list.splits)
  qed
  have added: "x \<in> set added \<longleftrightarrow> x \<in> set ?keys \<and> same_link (first_link x ours) (first_link x base)
      \<and> first_link x theirs \<noteq> None \<and> first_link x ours = None" for x
    unfolding first_link_None [of x ours] by (auto simp: added_def tk_def image_iff)
  have hk: "link_key (h x) = x" if "x \<in> set added" for x
    using that tk [of x] added [of x] first_link_key by (auto simp: h_def new_link_key)
  have addf: "first_link k (map h added) = (if k \<in> set added then Some (h k) else None)"
  proof (cases "k \<in> set added")
    case True
    have "find (\<lambda>l. link_key l = k) (map h xs) = Some (h k)" if "set xs \<subseteq> set added" "k \<in> set xs" for xs
      using that hk by (induction xs) auto
    then show ?thesis using True by (simp add: first_link_def)
  next
    case False
    then show ?thesis using hk by (auto simp: first_link_None)
  qed
  show ?thesis
  proof (cases "first_link k ours")
    case None
    then show ?thesis using first addf added [of k] keys [of k] tk [of k]
      by (auto simp: out first_link_append merged_link_def h_def split: option.splits)
  next
    case (Some l)
    have "k \<notin> set added" using added Some by auto
    then show ?thesis using Some first addf keys [of k] tk [of k] first_link_key [OF Some]
      by (auto simp: out first_link_append merged_link_def g_def split: option.splits)
  qed
qed

subsection \<open>All the conflicts\<close>

definition prop_conflict :: "string \<Rightarrow> draft \<Rightarrow> draft \<Rightarrow> draft \<Rightarrow> bool" where
  "prop_conflict k base ours theirs \<longleftrightarrow> \<not> same_value (pget (d_props ours) k) (pget (d_props base) k)
     \<and> \<not> same_value (pget (d_props theirs) k) (pget (d_props base) k)
     \<and> \<not> same_value (pget (d_props ours) k) (pget (d_props theirs) k)"

lemma merge_drafts_links:
  "d_links (fst (merge_drafts base ours theirs)) = fst (merge_links (d_links base) (d_links ours) (d_links theirs))"
  by (simp add: merge_drafts_def Let_def split: prod.splits)

lemma merge_drafts_conflicts:
  "set (snd (merge_drafts base ours theirs)) = conflict_prop ` {k. prop_conflict k base ours theirs}
     \<union> (if snd (merge3 (d_owner base) (d_owner ours) (d_owner theirs)) then {''owner''} else {})
     \<union> (if snd (merge3 (d_state base) (d_state ours) (d_state theirs)) then {''state''} else {})
     \<union> {k. link_conflict k (d_links base) (d_links ours) (d_links theirs)}"
proof -
  let ?keys = "mkeys (pmap (d_props base) @ pmap (d_props ours) @ pmap (d_props theirs))"
  obtain ps c1 where f: "foldl (merge_prop (pget (d_props base)) (pget (d_props ours)) (pget (d_props theirs)))
      (d_props ours, []) ?keys = (ps, c1)" by fastforce
  have c1: "c1 = map conflict_prop (filter (\<lambda>k. prop_conflict k base ours theirs) ?keys)"
    using merge_props_fold [OF _ f] by (simp add: prop_conflict_def)
  have "k \<in> set ?keys" if "prop_conflict k base ours theirs" for k
    using that by (auto simp: prop_conflict_def pget_def map_add_def dom_def split: option.splits)
  then have "set c1 = conflict_prop ` {k. prop_conflict k base ours theirs}" by (auto simp: c1)
  moreover have "set (snd (merge_drafts base ours theirs)) = set c1
     \<union> (if snd (merge3 (d_owner base) (d_owner ours) (d_owner theirs)) then {''owner''} else {})
     \<union> (if snd (merge3 (d_state base) (d_state ours) (d_state theirs)) then {''state''} else {})
     \<union> set (snd (merge_links (d_links base) (d_links ours) (d_links theirs)))"
    using f by (auto simp: merge_drafts_def Let_def split: prod.splits)
  ultimately show ?thesis by (simp add: merge_links_conflicts)
qed

subsection \<open>What an unchanged draft is\<close>

definition same_props :: "props \<Rightarrow> props \<Rightarrow> bool" where
  "same_props a b \<longleftrightarrow> props_len a = 0 \<and> props_len b = 0 \<or> same_value (Some (pany a)) (Some (pany b))"

definition base_props :: "(string, draft_link) gomap \<Rightarrow> draft_link \<Rightarrow> props" where
  "base_props bm l = (case map_of bm (link_key l) of Some b \<Rightarrow> dl_props b | None \<Rightarrow> None)"

lemma links_unchanged_iff:
  "links_unchanged bm cnt ls \<longleftrightarrow> (\<forall>k. length (filter (\<lambda>l. link_key l = k) ls) \<le> cnt k)
     \<and> (\<forall>l \<in> set ls. same_props (dl_props l) (base_props bm l))"
proof (induction ls arbitrary: cnt)
  case (Cons l ls)
  let ?k = "link_key l"
  have step: "links_unchanged bm cnt (l # ls) \<longleftrightarrow> cnt ?k \<noteq> 0 \<and> same_props (dl_props l) (base_props bm l)
      \<and> links_unchanged bm (cnt(?k := cnt ?k - 1)) ls"
    by (simp add: Let_def same_props_def base_props_def)
  have "(\<forall>k. length (filter (\<lambda>x. link_key x = k) (l # ls)) \<le> cnt k) \<longleftrightarrow>
      cnt ?k \<noteq> 0 \<and> (\<forall>k. length (filter (\<lambda>x. link_key x = k) ls) \<le> (cnt(?k := cnt ?k - 1)) k)"
    (is "?L \<longleftrightarrow> ?R")
  proof
    assume L: ?L
    then have "length (filter (\<lambda>x. link_key x = ?k) (l # ls)) \<le> cnt ?k" by blast
    then have "cnt ?k \<noteq> 0" "length (filter (\<lambda>x. link_key x = ?k) ls) \<le> cnt ?k - 1" by simp_all
    moreover have "length (filter (\<lambda>x. link_key x = k) ls) \<le> cnt k" if "k \<noteq> ?k" for k
      using L that by (auto dest: spec [of _ k])
    ultimately show ?R by simp
  next
    assume R: ?R
    show ?L
    proof
      fix k show "length (filter (\<lambda>x. link_key x = k) (l # ls)) \<le> cnt k"
      proof (cases "k = ?k")
        case True
        have "length (filter (\<lambda>x. link_key x = ?k) ls) \<le> cnt ?k - 1" "cnt ?k \<noteq> 0"
          using R by (auto dest: spec [of _ ?k])
        then show ?thesis using True by simp
      next
        case False
        then show ?thesis using R by (auto dest: spec [of _ k])
      qed
    qed
  qed
  then show ?case unfolding step Cons.IH [of "cnt(?k := cnt ?k - 1)"] by (simp only: list.set ball_simps) blast
qed simp

lemma length_filter_count: "length (filter (\<lambda>l. f l = k) ls) = count (mset (map f ls)) k"
  by (induction ls) auto

lemma keys_mset:
  assumes "length (ls :: draft_link list) = length bs"
  shows "(\<forall>k. length (filter (\<lambda>l. link_key l = k) ls) \<le> length (filter (\<lambda>l. link_key l = k) bs))
    \<longleftrightarrow> mset (map link_key ls) = mset (map link_key bs)"
proof -
  have "mset (map link_key ls) \<subseteq># mset (map link_key bs) \<longleftrightarrow> mset (map link_key ls) = mset (map link_key bs)"
    using assms by (metis length_map mset_subset_size nat_less_le size_mset subset_mset.le_less subset_mset.order_refl)
  then show ?thesis by (simp add: length_filter_count subseteq_mset_def del: mset_map)
qed

lemma same_props_len:
  "props_len a = props_len b \<and> (\<forall>k \<in> dom (pget b). same_value (pget b k) (pget a k)) \<longleftrightarrow> (\<forall>k. same_value (pget b k) (pget a k))"
proof -
  have len: "props_len x = card (dom (pget x))" for x by (simp add: props_len_def msize_card pget_def)
  have fin: "finite (dom (pget x))" for x by (simp add: pget_def finite_dom_map_of)
  show ?thesis
  proof
    assume a: "props_len a = props_len b \<and> (\<forall>k \<in> dom (pget b). same_value (pget b k) (pget a k))"
    have "k \<in> dom (pget a)" if "k \<in> dom (pget b)" for k
    proof -
      have "same_value (pget b k) (pget a k)" using a that by blast
      then show ?thesis using that by (cases "pget a k") auto
    qed
    then have "dom (pget b) \<subseteq> dom (pget a)" by blast
    then have "dom (pget b) = dom (pget a)" using a len fin by (metis card_subset_eq)
    then show "\<forall>k. same_value (pget b k) (pget a k)" using a by (metis domIff same_value.simps(1))
  next
    assume a: "\<forall>k. same_value (pget b k) (pget a k)"
    then have "dom (pget a) = dom (pget b)" by (auto simp: same_value_alt dom_def) (metis option.map_disc_iff not_None_eq)+
    then show "props_len a = props_len b \<and> (\<forall>k \<in> dom (pget b). same_value (pget b k) (pget a k))" using a len by simp
  qed
qed

subsection \<open>Properties of the merge\<close>

definition both_changed :: "'a \<Rightarrow> 'a \<Rightarrow> 'a \<Rightarrow> bool" where
  "both_changed base ours theirs \<longleftrightarrow> ours \<noteq> base \<and> theirs \<noteq> base \<and> ours \<noteq> theirs"

lemma merge3_field: "merge3 base ours theirs = (if ours = base then theirs else ours, both_changed base ours theirs)"
  by (auto simp: merge3_def both_changed_def)

lemma merge_drafts_rest:
  "d_deleted (fst (merge_drafts base ours theirs)) = fst (merge3 (d_deleted base) (d_deleted ours) (d_deleted theirs))"
  "fst (merge_drafts base ours theirs)\<lparr>d_props := d_props ours, d_owner := d_owner ours, d_state := d_state ours,
     d_deleted := d_deleted ours, d_links := d_links ours\<rparr> = ours"
  by (simp_all add: merge_drafts_def Let_def split: prod.splits)

text \<open>
  C14. The merge is field by field: a property, the owner, the state or the deletion mark that ours left
  as at the fork takes theirs, another keeps ours, the links are those of the merge of the links, and
  the rest of the draft is ours. A property, the owner or the state changed on both sides to different
  values is named in the conflicts, with the links in conflict and nothing else.
\<close>

theorem merge_field_by_field:
  "pget (d_props (fst (merge_drafts base ours theirs))) k =
     (if same_value (pget (d_props ours) k) (pget (d_props base) k) then pget (d_props theirs) k else pget (d_props ours) k)
   \<and> d_owner (fst (merge_drafts base ours theirs)) = (if d_owner ours = d_owner base then d_owner theirs else d_owner ours)
   \<and> d_state (fst (merge_drafts base ours theirs)) = (if d_state ours = d_state base then d_state theirs else d_state ours)
   \<and> d_deleted (fst (merge_drafts base ours theirs)) = (if d_deleted ours = d_deleted base then d_deleted theirs else d_deleted ours)
   \<and> d_links (fst (merge_drafts base ours theirs)) = fst (merge_links (d_links base) (d_links ours) (d_links theirs))
   \<and> fst (merge_drafts base ours theirs)\<lparr>d_props := d_props ours, d_owner := d_owner ours, d_state := d_state ours,
       d_deleted := d_deleted ours, d_links := d_links ours\<rparr> = ours
   \<and> set (snd (merge_drafts base ours theirs)) =
       conflict_prop ` {k. prop_conflict k base ours theirs}
       \<union> {c. c = ''owner'' \<and> both_changed (d_owner base) (d_owner ours) (d_owner theirs)}
       \<union> {c. c = ''state'' \<and> both_changed (d_state base) (d_state ours) (d_state theirs)}
       \<union> {k. link_conflict k (d_links base) (d_links ours) (d_links theirs)}"
proof -
  obtain out cs where m: "merge_drafts base ours theirs = (out, cs)" by fastforce
  have fields: "d_owner out = fst (merge3 (d_owner base) (d_owner ours) (d_owner theirs))"
    "d_state out = fst (merge3 (d_state base) (d_state ours) (d_state theirs))" using merge_drafts_scalars [OF m] by (metis fst_conv)+
  have cond: "(if b then {x} else {}) = {c. c = x \<and> b}" for b and x :: string by auto
  note rest = merge_drafts_rest [where base = base and ours = ours and theirs = theirs, unfolded m fst_conv] merge_drafts_links [of base ours theirs, unfolded m fst_conv]
  have "set cs = conflict_prop ` {k. prop_conflict k base ours theirs}
       \<union> {c. c = ''owner'' \<and> both_changed (d_owner base) (d_owner ours) (d_owner theirs)}
       \<union> {c. c = ''state'' \<and> both_changed (d_state base) (d_state ours) (d_state theirs)}
       \<union> {k. link_conflict k (d_links base) (d_links ours) (d_links theirs)}"
    using merge_drafts_conflicts [of base ours theirs] by (simp only: m snd_conv merge3_field cond)
  then show ?thesis unfolding m fst_conv snd_conv using merge_drafts_props [OF m, of k] rest fields
    by (simp only: merge3_field fst_conv simp_thms)
qed

text \<open>
  The links are merged by type and target: a key ours left as at the fork takes theirs (ours keeping
  the id of its link, a link theirs brought having none, a link theirs removed going), another keeps
  ours; a key changed on both sides to different values is in the conflicts.
\<close>

theorem merge_links_by_key:
  assumes "distinct (map link_key (d_links ours))" and "plain_types (d_links ours)" and "plain_types (d_links theirs)"
  shows "first_link k (d_links (fst (merge_drafts base ours theirs)))
      = merged_link k (d_links base) (d_links ours) (d_links theirs)
    \<and> (link_conflict k (d_links base) (d_links ours) (d_links theirs) \<longrightarrow>
        k \<in> set (snd (merge_drafts base ours theirs))
        \<and> first_link k (d_links (fst (merge_drafts base ours theirs))) = first_link k (d_links ours))"
  using merge_links_first [OF assms] merge_drafts_conflicts [of base ours theirs]
  by (auto simp: merge_drafts_links merged_link_def link_conflict_def)

definition demo_link :: "string \<Rightarrow> int \<Rightarrow> draft_link" where
  "demo_link i v = \<lparr>dl_id = i, dl_type = ''alm@uses'', dl_to = \<lparr>nr_id = ''m'', nr_version = v\<rparr>, dl_target = zero_url, dl_props = None\<rparr>"

theorem merge_links_by_key_witness:
  "let b = demo_draft\<lparr>d_links := [demo_link ''a'' 1]\<rparr>; o' = demo_draft\<lparr>d_links := [demo_link ''b'' 1]\<rparr>;
       t = demo_draft\<lparr>d_links := [demo_link ''c'' 2]\<rparr>
   in first_link (conflict_link ''alm@uses'' ''m'') (d_links (fst (merge_drafts b o' t))) = Some (demo_link ''b'' 2)"
proof -
  let ?b = "demo_draft\<lparr>d_links := [demo_link ''a'' 1]\<rparr>" and ?o = "demo_draft\<lparr>d_links := [demo_link ''b'' 1]\<rparr>"
    and ?t = "demo_draft\<lparr>d_links := [demo_link ''c'' 2]\<rparr>" and ?k = "conflict_link ''alm@uses'' ''m''"
  have h: "distinct (map link_key (d_links ?o))" "plain_types (d_links ?o)" "plain_types (d_links ?t)"
    by (simp_all add: plain_types_def demo_link_def)
  have "merged_link ?k (d_links ?b) (d_links ?o) (d_links ?t) = Some (demo_link ''b'' 2)" by code_simp
  then show ?thesis using merge_links_by_key [OF h, of ?k ?b] by (simp only: Let_def)
qed

lemma merge3_clean: "(x, False) = merge3 b p q \<Longrightarrow> (y, False) = merge3 b q p \<Longrightarrow> x = y"
  by (auto simp: merge3_def split: if_splits)

lemma merge3_bool: "fst (merge3 b p q) = fst (merge3 b q (p :: bool))"
  by (cases b; cases p; cases q) (simp_all add: merge3_def)

text \<open>
  The merge does not favour a side: swapping the sides names the same conflicts, and a merge
  without conflict gives the same values, owner, state and deletion either way.
\<close>

theorem merge_symmetric:
  "set (snd (merge_drafts base ours theirs)) = set (snd (merge_drafts base theirs ours))
   \<and> (snd (merge_drafts base ours theirs) = [] \<longrightarrow>
       (\<forall>k. same_value (pget (d_props (fst (merge_drafts base ours theirs))) k)
                       (pget (d_props (fst (merge_drafts base theirs ours))) k))
       \<and> d_owner (fst (merge_drafts base ours theirs)) = d_owner (fst (merge_drafts base theirs ours))
       \<and> d_state (fst (merge_drafts base ours theirs)) = d_state (fst (merge_drafts base theirs ours))
       \<and> d_deleted (fst (merge_drafts base ours theirs)) = d_deleted (fst (merge_drafts base theirs ours)))"
proof -
  obtain o1 c1 where a: "merge_drafts base ours theirs = (o1, c1)" by fastforce
  obtain o2 c2 where b: "merge_drafts base theirs ours = (o2, c2)" by fastforce
  have lsym: "same_link x y = same_link y x" for x y
    by (cases x; cases y) (auto dest: same_value_sym)
  have sym: "same_value x y = same_value y x" for x y by (auto dest: same_value_sym)
  have conf: "set c1 = set c2"
    using merge_drafts_conflicts [of base ours theirs] merge_drafts_conflicts [of base theirs ours] a b
    by (auto simp: prop_conflict_def link_conflict_def merge3_def lsym sym split: if_splits)
  have "same_value (pget (d_props o1) k) (pget (d_props o2) k)" if "c1 = []" for k
    using merge_drafts_props [OF a, of k] merge_drafts_props [OF b, of k] that by (auto simp: same_value_alt)
  moreover have "d_owner o1 = d_owner o2 \<and> d_state o1 = d_state o2 \<and> d_deleted o1 = d_deleted o2" if "c1 = []"
  proof -
    have "c2 = []" using conf that by simp
    note A = merge_drafts_scalars [OF a, unfolded that] and B = merge_drafts_scalars [OF b, unfolded this]
    have "d_owner o1 = d_owner o2"
      by (rule merge3_clean [of _ "d_owner base" "d_owner ours" "d_owner theirs"]) (use A B in simp_all)
    moreover have "d_state o1 = d_state o2"
      by (rule merge3_clean [of _ "d_state base" "d_state ours" "d_state theirs"]) (use A B in simp_all)
    ultimately show ?thesis using A B merge3_bool by metis
  qed
  ultimately show ?thesis using conf by (simp add: a b)
qed

theorem merge_symmetric_witness:
  "let o' = demo_draft\<lparr>d_props := Some [(''a'', GInt 2)]\<rparr>; t = demo_draft\<lparr>d_state := ''s''\<rparr>
   in snd (merge_drafts demo_draft o' t) = [] \<and> d_state (fst (merge_drafts demo_draft t o')) = ''s''"
proof -
  let ?o = "demo_draft\<lparr>d_props := Some [(''a'', GInt 2)]\<rparr>" and ?t = "demo_draft\<lparr>d_state := ''s''\<rparr>"
  have c: "snd (merge_drafts demo_draft ?o ?t) = []" by code_simp
  have "d_state (fst (merge_drafts demo_draft ?o ?t)) = ''s''" by code_simp
  then show ?thesis using merge_symmetric [of demo_draft ?o ?t] c by (simp only: Let_def simp_thms)
qed

text \<open>
  A checked out draft is unchanged exactly when it keeps the deletion mark, brings no other version
  in, has for every property the value of its base (as JSON), names no other owner, has the state of
  its base, and its links have the keys of the links of its base, with the properties of the first link
  of the base of their key.
\<close>

theorem draft_unchanged_iff:
  "\<not> draft_changed base d \<longleftrightarrow>
     (\<exists>b db. base = Some b \<and> d_base d = Some db \<and> d_deleted d = d_deleted b \<and> d_merged_with d \<in> {None, Some db}
        \<and> (\<forall>k. same_value (pget (d_props d) k) (pget (d_props b) k))
        \<and> (url_is_zero (d_owner d) \<or> d_owner d = d_owner b) \<and> d_state d = d_state b
        \<and> mset (map link_key (d_links d)) = mset (map link_key (d_links b))
        \<and> list_all (\<lambda>l. same_props (dl_props l) (base_props (links_by_key (d_links b)) l)) (d_links d))"
proof (cases "base = None \<or> d_base d = None")
  case True
  then show ?thesis by (auto simp: draft_changed_def split: option.splits)
next
  case False
  then obtain b db where b: "base = Some b" "d_base d = Some db" by auto
  have keys: "length (d_links d) = length (d_links b)
      \<and> (\<forall>k. length (filter (\<lambda>l. link_key l = k) (d_links d)) \<le> length (filter (\<lambda>l. link_key l = k) (d_links b)))
      \<longleftrightarrow> mset (map link_key (d_links d)) = mset (map link_key (d_links b))"
    using keys_mset by (metis length_map size_mset)
  have props: "props_len (d_props b) = props_len (d_props d)
      \<and> list_all (\<lambda>k. same_value (pget (d_props d) k) (pget (d_props b) k)) (mkeys (pmap (d_props d)))
      \<longleftrightarrow> (\<forall>k. same_value (pget (d_props d) k) (pget (d_props b) k))"
    using same_props_len [of "d_props b" "d_props d"] by (simp add: list_all_iff pget_def)
  show ?thesis
    unfolding draft_changed_def b using keys props
    by (auto simp: links_unchanged_iff list_all_iff split: option.splits if_splits)
qed

end
