(* ===== verification/Impacts.thy ===== *)
theory Impacts
  imports Events
begin

text \<open>
  contracts/domain/impacts.go: a list of change impacts, a slice or blocks of 16, read by position and
  through the lookups of the view that holds it. An access out of range panics in the code and is
  None here. What the lookups promise is a locale; the view of a change interprets it.
\<close>

subsection \<open>Blocks\<close>

definition block :: nat where "block = 16"

lemma block_pos [simp]: "0 < block"
  by (simp add: block_def)

definition nth_opt :: "'a list \<Rightarrow> nat \<Rightarrow> 'a option" where
  "nth_opt xs i = (if i < length xs then Some (xs ! i) else None)"

definition block_at :: "'a list list \<Rightarrow> nat \<Rightarrow> 'a option" where
  "block_at bs i = (case nth_opt bs (i div block) of None \<Rightarrow> None | Some b \<Rightarrow> nth_opt b (i mod block))"

function chunks :: "'a list \<Rightarrow> 'a list list" where
  "chunks xs = (if xs = [] then [] else take block xs # chunks (drop block xs))"
  by pat_completeness auto
termination
  by (relation "measure length") (auto simp: block_def neq_Nil_conv)

declare chunks.simps [simp del]

definition block_append :: "'a list list \<Rightarrow> 'a \<Rightarrow> 'a list list" where
  "block_append bs x = (if bs \<noteq> [] \<and> length (last bs) < block then butlast bs @ [last bs @ [x]] else bs @ [[x]])"

definition block_set :: "'a list list \<Rightarrow> nat \<Rightarrow> 'a \<Rightarrow> 'a list list option" where
  "block_set bs i x = (case nth_opt bs (i div block) of None \<Rightarrow> None
     | Some b \<Rightarrow> if i mod block < length b then Some (bs[i div block := b[i mod block := x]]) else None)"

text \<open>Every block but the last is full, none is empty.\<close>

fun blocks_ok :: "'a list list \<Rightarrow> bool" where
  "blocks_ok [] = True"
| "blocks_ok [b] = (b \<noteq> [] \<and> length b \<le> block)"
| "blocks_ok (b # c # bs) = (length b = block \<and> blocks_ok (c # bs))"

lemma blocks_ok_Cons: "blocks_ok (b # bs) \<longleftrightarrow> (if bs = [] then b \<noteq> [] \<and> length b \<le> block else length b = block \<and> blocks_ok bs)"
  by (cases bs) auto

lemma chunks_blocks: "concat (chunks xs) = xs \<and> blocks_ok (chunks xs)"
proof (induction xs rule: chunks.induct)
  case (1 xs)
  show ?case
  proof (cases "xs = []")
    case True
    then show ?thesis by (simp add: chunks.simps)
  next
    case False
    have IH: "concat (chunks (drop block xs)) = drop block xs" "blocks_ok (chunks (drop block xs))"
      using 1 [OF False] by simp_all
    have "block < length xs" if "chunks (drop block xs) \<noteq> []"
      using that by (subst (asm) chunks.simps) (auto split: if_splits)
    then have "blocks_ok (take block xs # chunks (drop block xs))"
      using IH(2) False by (auto simp: blocks_ok_Cons block_def)
    then show ?thesis using IH(1) False by (simp add: chunks.simps [of xs])
  qed
qed

lemma block_at_concat: "blocks_ok bs \<Longrightarrow> block_at bs i = nth_opt (concat bs) i"
proof (induction bs arbitrary: i)
  case Nil
  then show ?case by (simp add: block_at_def nth_opt_def)
next
  case (Cons b bs)
  show ?case
  proof (cases "i < length b")
    case True
    then have "i < block" using Cons.prems by (auto simp: blocks_ok_Cons split: if_splits)
    then show ?thesis using True by (simp add: block_at_def nth_opt_def nth_append)
  next
    case False
    show ?thesis
    proof (cases "bs = []")
      case True
      then have "length b \<le> block" "b \<noteq> []" using Cons.prems by simp_all
      moreover have "i div block = 0 \<longrightarrow> i mod block = i" by (metis div_mod_decomp mult_zero_right mult_0 add_0)
      ultimately show ?thesis using True False by (auto simp: block_at_def nth_opt_def)
    next
      case ne: False
      then have b: "length b = block" "blocks_ok bs" using Cons.prems by (simp_all add: blocks_ok_Cons)
      then have "i div block = Suc ((i - block) div block)" "i mod block = (i - block) mod block"
        using False by (simp_all add: le_div_geq le_mod_geq)
      then have "block_at (b # bs) i = block_at bs (i - block)" by (simp add: block_at_def nth_opt_def)
      then show ?thesis using Cons.IH [OF b(2)] False b(1) by (auto simp: nth_opt_def nth_append)
    qed
  qed
qed

lemma blocks_ok_append: "blocks_ok bs \<Longrightarrow> blocks_ok (block_append bs x) \<and> concat (block_append bs x) = concat bs @ [x]"
proof (induction bs)
  case Nil
  then show ?case by (simp add: block_append_def block_def)
next
  case (Cons b bs)
  show ?case
  proof (cases "bs = []")
    case True
    then show ?thesis using Cons.prems by (auto simp: block_append_def block_def)
  next
    case False
    then have "block_append (b # bs) x = b # block_append bs x" by (simp add: block_append_def)
    moreover have "block_append bs x \<noteq> []" by (simp add: block_append_def)
    ultimately show ?thesis using Cons False by (simp add: blocks_ok_Cons)
  qed
qed

lemma blocks_ok_set:
  "blocks_ok bs \<Longrightarrow> i < length (concat bs) \<Longrightarrow>
   \<exists>bs'. block_set bs i x = Some bs' \<and> blocks_ok bs' \<and> concat bs' = (concat bs)[i := x]"
proof (induction bs arbitrary: i)
  case Nil
  then show ?case by simp
next
  case (Cons b bs)
  show ?case
  proof (cases "i < length b")
    case True
    then have "i < block" using Cons.prems by (auto simp: blocks_ok_Cons split: if_splits)
    then have "block_set (b # bs) i x = Some (b[i := x] # bs)" using True by (simp add: block_set_def nth_opt_def)
    then show ?thesis using True Cons.prems by (auto simp: blocks_ok_Cons list_update_append split: if_splits)
  next
    case False
    then have ne: "bs \<noteq> []" using Cons.prems by auto
    then have b: "length b = block" "blocks_ok bs" using Cons.prems by (simp_all add: blocks_ok_Cons)
    then have ix: "i div block = Suc ((i - block) div block)" "i mod block = (i - block) mod block"
      using False by (simp_all add: le_div_geq le_mod_geq)
    have "i - block < length (concat bs)" using Cons.prems(2) False b(1) by simp
    then obtain bs' where bs': "block_set bs (i - block) x = Some bs'" "blocks_ok bs'" "concat bs' = (concat bs)[i - block := x]"
      using Cons.IH [OF b(2)] by blast
    have "block_set (b # bs) i x = Some (b # bs')"
      using bs'(1) by (auto simp: block_set_def nth_opt_def ix split: if_splits)
    moreover have "bs' \<noteq> []" using bs'(1) ne by (auto simp: block_set_def split: option.splits if_splits)
    ultimately show ?thesis using bs' b False by (auto simp: blocks_ok_Cons list_update_append)
  qed
qed

subsection \<open>The list\<close>

record lookup =
  lk_position :: "string \<Rightarrow> nat option"
  lk_of_node :: "string \<Rightarrow> nat list"
  lk_of_key :: "string \<Rightarrow> nat list"
  lk_odd :: int

record impacts =
  il_flat :: "impact list"
  il_blocks :: "impact list list"
  il_n :: nat
  il_look :: "lookup option"
  il_looked :: nat

definition impacts_of :: "impact list \<Rightarrow> impacts" where
  "impacts_of s = \<lparr>il_flat = s, il_blocks = [], il_n = length s, il_look = None, il_looked = 0\<rparr>"

definition impacts_of_blocks :: "impact list list \<Rightarrow> nat \<Rightarrow> impacts" where
  "impacts_of_blocks bs n = \<lparr>il_flat = [], il_blocks = bs, il_n = n, il_look = None, il_looked = 0\<rparr>"

definition indexed_impacts :: "impact list list \<Rightarrow> nat \<Rightarrow> lookup \<Rightarrow> impacts" where
  "indexed_impacts bs n lk = \<lparr>il_flat = [], il_blocks = bs, il_n = n, il_look = Some lk, il_looked = n\<rparr>"

definition il_at :: "impacts \<Rightarrow> nat \<Rightarrow> impact option" where
  "il_at l i = (if il_flat l \<noteq> [] then nth_opt (il_flat l) i else block_at (il_blocks l) i)"

definition il_all :: "impacts \<Rightarrow> impact list" where
  "il_all l = (if il_flat l \<noteq> [] then il_flat l else concat (il_blocks l))"

definition has_id :: "string \<Rightarrow> impact option \<Rightarrow> bool" where
  "has_id i c = (case c of Some c \<Rightarrow> im_id c = i | None \<Rightarrow> False)"

definition il_index :: "impacts \<Rightarrow> string \<Rightarrow> nat option" where
  "il_index l i = (case il_look l of
     None \<Rightarrow> index_of (\<lambda>c. im_id c = i) (il_all l)
   | Some lk \<Rightarrow>
       (case lk_position lk i of
          Some p \<Rightarrow> if p < il_looked l \<and> has_id i (il_at l p) then Some p
            else find (\<lambda>j. has_id i (il_at l j)) [il_looked l..<il_n l]
        | None \<Rightarrow> find (\<lambda>j. has_id i (il_at l j)) [il_looked l..<il_n l]))"

definition il_near :: "impacts \<Rightarrow> nat list \<Rightarrow> (nat \<times> impact option) list" where
  "il_near l ps = map (\<lambda>i. (i, il_at l i)) (filter (\<lambda>i. i < il_looked l) ps @ [il_looked l..<il_n l])"

definition il_enum :: "impacts \<Rightarrow> (nat \<times> impact option) list" where
  "il_enum l = map (\<lambda>(i, c). (i, Some c)) (List.enumerate 0 (il_all l))"

definition il_of_node :: "impacts \<Rightarrow> string \<Rightarrow> (nat \<times> impact option) list" where
  "il_of_node l i = (case il_look l of None \<Rightarrow> il_enum l | Some lk \<Rightarrow> il_near l (lk_of_node lk i))"

definition il_of_key :: "impacts \<Rightarrow> string \<Rightarrow> (nat \<times> impact option) list" where
  "il_of_key l k = (case il_look l of None \<Rightarrow> il_enum l | Some lk \<Rightarrow> il_near l (lk_of_key lk k))"

definition odd_impact :: "impact \<Rightarrow> bool" where
  "odd_impact c \<longleftrightarrow> im_superseded c \<or> im_flow c \<noteq> []"

definition il_find :: "impacts \<Rightarrow> (impact \<Rightarrow> bool) \<Rightarrow> nat option" where
  "il_find l f = index_of f (il_all l)"

definition il_plain :: "impacts \<Rightarrow> bool" where
  "il_plain l = (case il_look l of
     None \<Rightarrow> il_find l odd_impact = None
   | Some lk \<Rightarrow> if 0 < lk_odd lk then False
       else list_all (\<lambda>j. case il_at l j of Some c \<Rightarrow> \<not> odd_impact c | None \<Rightarrow> True) [il_looked l..<il_n l])"

definition il_slice :: "impacts \<Rightarrow> impact list" where
  "il_slice l = (if il_n l = 0 then [] else il_all l)"

definition pointed :: "impacts \<Rightarrow> impact list list" where
  "pointed l = (if il_flat l = [] then il_blocks l else chunks (il_flat l))"

definition il_append :: "impacts \<Rightarrow> impact \<Rightarrow> impacts" where
  "il_append l c = \<lparr>il_flat = [], il_blocks = block_append (pointed l) c, il_n = il_n l + 1,
     il_look = il_look l, il_looked = il_looked l\<rparr>"

definition il_set :: "impacts \<Rightarrow> nat \<Rightarrow> impact \<Rightarrow> impacts option" where
  "il_set l i c = map_option (\<lambda>bs. \<lparr>il_flat = [], il_blocks = bs, il_n = il_n l, il_look = None, il_looked = 0\<rparr>)
     (block_set (pointed l) i c)"

text \<open>What a list stands for: its impacts in order, and a lookup for a prefix of them.\<close>

definition il_ok :: "impacts \<Rightarrow> bool" where
  "il_ok l \<longleftrightarrow> il_n l = length (il_all l) \<and> (il_flat l = [] \<longrightarrow> blocks_ok (il_blocks l))
     \<and> il_looked l \<le> il_n l \<and> (il_look l = None \<longrightarrow> il_looked l = 0)"

lemma pointed_ok: "il_ok l \<Longrightarrow> blocks_ok (pointed l) \<and> concat (pointed l) = il_all l"
  by (simp add: il_ok_def pointed_def il_all_def chunks_blocks)

lemma il_at_all: "il_ok l \<Longrightarrow> il_at l i = nth_opt (il_all l) i"
  by (simp add: il_at_def il_all_def block_at_concat il_ok_def)

lemma il_append_ok: "il_ok l \<Longrightarrow> il_ok (il_append l c) \<and> il_all (il_append l c) = il_all l @ [c]"
  using pointed_ok [of l] blocks_ok_append [of "pointed l" c]
  by (auto simp: il_append_def il_all_def [of "il_append l c"] il_ok_def [of "il_append l c"])
    (auto simp: il_ok_def il_all_def)

lemma il_set_ok:
  assumes "il_ok l" "i < il_n l"
  shows "\<exists>l'. il_set l i c = Some l' \<and> il_ok l' \<and> il_all l' = (il_all l)[i := c]"
proof -
  have "i < length (concat (pointed l))" using assms pointed_ok [OF assms(1)] by (simp add: il_ok_def)
  then obtain bs where bs: "block_set (pointed l) i c = Some bs" "blocks_ok bs" "concat bs = (il_all l)[i := c]"
    using blocks_ok_set [of "pointed l" i c] pointed_ok [OF assms(1)] by metis
  then show ?thesis using assms by (auto simp: il_set_def il_ok_def il_all_def)
qed

subsection \<open>What a lookup promises\<close>

text \<open>
  A holder of impacts answers for the list it holds: the position of an id is the first one with it,
  the positions of a node or a key are those of the impacts naming it, in order, and the number of odd
  impacts is theirs.
\<close>

definition names_node :: "string \<Rightarrow> impact \<Rightarrow> bool" where
  "names_node i c \<longleftrightarrow> i \<noteq> [] \<and> (map_option nr_id (im_pre c) = Some i \<or> map_option nr_id (im_post c) = Some i)"

definition positions :: "('a \<Rightarrow> bool) \<Rightarrow> 'a list \<Rightarrow> nat list" where
  "positions p xs = filter (\<lambda>i. p (xs ! i)) [0..<length xs]"

locale impact_lookup =
  fixes look :: "'v \<Rightarrow> lookup" and holds :: "'v \<Rightarrow> impact list \<Rightarrow> bool"
  assumes position_law: "holds v xs \<Longrightarrow> lk_position (look v) i = index_of (\<lambda>c. im_id c = i) xs"
    and node_law: "holds v xs \<Longrightarrow> i \<noteq> [] \<Longrightarrow> lk_of_node (look v) i = positions (names_node i) xs"
    and key_law: "holds v xs \<Longrightarrow> k \<noteq> [] \<Longrightarrow> lk_of_key (look v) k = positions (\<lambda>c. im_key c = k) xs"
    and odd_law: "holds v xs \<Longrightarrow> lk_odd (look v) = int (length (filter odd_impact xs))"
begin

text \<open>A list with the lookup of a holder, which answers for the first positions of it.\<close>

definition looks :: "impacts \<Rightarrow> 'v \<Rightarrow> bool" where
  "looks l v \<longleftrightarrow> il_ok l \<and> il_look l = Some (look v) \<and> holds v (take (il_looked l) (il_all l))"

lemma looks_append: "looks l v \<Longrightarrow> looks (il_append l c) v"
  using il_append_ok [of l c] by (auto simp: looks_def il_append_def il_ok_def)

lemma tail_find:
  assumes "il_ok l"
  shows "find (\<lambda>j. has_id i (il_at l j)) [il_looked l..<il_n l]
    = map_option ((+) (il_looked l)) (index_of (\<lambda>c. im_id c = i) (drop (il_looked l) (il_all l)))"
proof -
  have "find (\<lambda>j. has_id i (nth_opt xs j)) [k..<length xs] = map_option ((+) k) (index_of (\<lambda>c. im_id c = i) (drop k xs))"
    if "k \<le> length xs" for k xs
    using that
  proof (induction "length xs - k" arbitrary: k)
    case 0
    then show ?case by simp
  next
    case (Suc m)
    then have "k < length xs" by simp
    then have "drop k xs = xs ! k # drop (Suc k) xs" "[k..<length xs] = k # [Suc k..<length xs]"
      by (simp_all add: Cons_nth_drop_Suc upt_conv_Cons)
    moreover have "map_option ((+) (Suc k)) o' = map_option (\<lambda>x. Suc (k + x)) o'" for o'
      by (cases o') simp_all
    ultimately show ?case using Suc.hyps(1) [of "Suc k"] Suc.hyps(2) \<open>k < length xs\<close>
      by (simp add: has_id_def nth_opt_def option.map_comp comp_def)
  qed
  then show ?thesis using assms by (simp add: il_at_all [OF assms] il_ok_def)
qed

lemma index_of_append: "index_of p (xs @ ys) = (case index_of p xs of Some i \<Rightarrow> Some i
    | None \<Rightarrow> map_option ((+) (length xs)) (index_of p ys))"
proof (induction xs)
  case Nil
  then show ?case by (cases "index_of p ys") simp_all
next
  case (Cons x xs)
  then show ?case by (cases "index_of p xs"; cases "index_of p ys") simp_all
qed

lemma index_found: "looks l v \<Longrightarrow> il_index l i = index_of (\<lambda>c. im_id c = i) (il_all l)"
proof -
  assume lk: "looks l v"
  then have ok: "il_ok l" and look: "il_look l = Some (look v)" by (simp_all add: looks_def)
  let ?p = "\<lambda>c. im_id c = i" and ?xs = "take (il_looked l) (il_all l)"
  have len: "length ?xs = il_looked l" using ok by (simp add: il_ok_def)
  have pos: "lk_position (look v) i = index_of ?p ?xs" using position_law lk by (simp add: looks_def)
  have "index_of ?p (il_all l) = index_of ?p (?xs @ drop (il_looked l) (il_all l))" by simp
  also have "\<dots> = (case index_of ?p ?xs of Some j \<Rightarrow> Some j
      | None \<Rightarrow> map_option ((+) (il_looked l)) (index_of ?p (drop (il_looked l) (il_all l))))"
    by (simp only: index_of_append len)
  finally have eq: "index_of ?p (il_all l) = (case index_of ?p ?xs of Some j \<Rightarrow> Some j
      | None \<Rightarrow> map_option ((+) (il_looked l)) (index_of ?p (drop (il_looked l) (il_all l))))" .
  show ?thesis
  proof (cases "index_of ?p ?xs")
    case None
    then show ?thesis using eq look pos tail_find [OF ok] by (simp add: il_index_def)
  next
    case (Some j)
    note J = index_of_Some [OF Some]
    then have "j < il_looked l" "j < length (il_all l)" using len by auto
    then have "has_id i (il_at l j)" using J il_at_all [OF ok] by (simp add: has_id_def nth_opt_def)
    then show ?thesis using eq look pos Some \<open>j < il_looked l\<close> by (simp add: il_index_def)
  qed
qed

lemma tail_positions:
  assumes "il_ok l"
  shows "map (\<lambda>j. (j, il_at l j)) [il_looked l..<il_n l] = map (\<lambda>j. (j, Some (il_all l ! j))) [il_looked l..<il_n l]"
  using assms by (auto simp: il_at_all nth_opt_def il_ok_def)

lemma plain_found: "looks l v \<Longrightarrow> il_plain l \<longleftrightarrow> (\<forall>c \<in> set (il_all l). \<not> odd_impact c)"
proof -
  assume lk: "looks l v"
  then have ok: "il_ok l" and look: "il_look l = Some (look v)" by (simp_all add: looks_def)
  have n: "il_n l = length (il_all l)" using ok by (simp add: il_ok_def)
  have "lk_odd (look v) = int (length (filter odd_impact (take (il_looked l) (il_all l))))"
    using odd_law lk by (simp add: looks_def)
  then have a: "0 < lk_odd (look v) \<longleftrightarrow> (\<exists>c \<in> set (take (il_looked l) (il_all l)). odd_impact c)"
    by (auto simp: filter_empty_conv)
  have b: "list_all (\<lambda>j. case il_at l j of Some c \<Rightarrow> \<not> odd_impact c | None \<Rightarrow> True) [il_looked l..<il_n l]
      \<longleftrightarrow> (\<forall>c \<in> set (drop (il_looked l) (il_all l)). \<not> odd_impact c)"
  proof -
    have "drop (il_looked l) (il_all l) = map ((!) (il_all l)) [il_looked l..<length (il_all l)]"
      by (rule nth_equalityI) simp_all
    then show ?thesis by (simp add: n il_at_all [OF ok] nth_opt_def list_all_iff)
  qed
  have "set (il_all l) = set (take (il_looked l) (il_all l)) \<union> set (drop (il_looked l) (il_all l))"
    by (metis append_take_drop_id set_append)
  then show ?thesis using a b look by (auto simp: il_plain_def)
qed

text \<open>The impacts naming a node (a key) are found among those the lookup answers.\<close>

lemma positions_take: "k \<le> length xs \<Longrightarrow> i \<in> set (positions p (take k xs)) \<longleftrightarrow> i < k \<and> p (xs ! i)"
  by (auto simp: positions_def)

lemma near_complete:
  assumes "looks l v" "ps = positions p (take (il_looked l) (il_all l))"
  shows "filter (\<lambda>(i, c). p (the c)) (il_near l ps) = filter (\<lambda>(i, c). p (the c)) (il_enum l)"
proof -
  have ok: "il_ok l" using assms(1) by (simp add: looks_def)
  let ?k = "il_looked l" and ?xs = "il_all l"
  have k: "?k \<le> length ?xs" and n: "il_n l = length ?xs" using ok by (simp_all add: il_ok_def)
  have "filter (\<lambda>i. i < ?k) ps = filter (\<lambda>i. p (?xs ! i)) [0..<?k]"
    using k by (auto simp: assms(2) positions_def intro!: filter_cong)
  moreover have "il_enum l = map (\<lambda>i. (i, Some (?xs ! i))) ([0..<?k] @ [?k..<length ?xs])"
  proof -
    have "[0..<?k] @ [?k..<length ?xs] = [0..<length ?xs]" using k upt_add_eq_append [of 0 ?k "length ?xs - ?k"] by simp
    then show ?thesis by (simp add: il_enum_def enumerate_eq_zip) (auto intro!: nth_equalityI)
  qed
  moreover have "il_at l i = Some (?xs ! i)" if "i < length ?xs" for i
    using that by (simp add: il_at_all [OF ok] nth_opt_def)
  then have "map (\<lambda>i. (i, il_at l i)) (filter (\<lambda>i. p (?xs ! i)) [0..<?k] @ [?k..<length ?xs])
      = map (\<lambda>i. (i, Some (?xs ! i))) (filter (\<lambda>i. p (?xs ! i)) [0..<?k] @ [?k..<length ?xs])"
    using k by (intro map_cong) auto
  ultimately have near: "il_near l ps = map (\<lambda>i. (i, Some (?xs ! i))) (filter (\<lambda>i. p (?xs ! i)) [0..<?k] @ [?k..<length ?xs])"
    and enum: "il_enum l = map (\<lambda>i. (i, Some (?xs ! i))) ([0..<?k] @ [?k..<length ?xs])"
    by (simp_all only: il_near_def n)
  show ?thesis unfolding near enum by (simp add: filter_map comp_def)
qed

lemma of_node_found: "looks l v \<Longrightarrow> i \<noteq> [] \<Longrightarrow>
    filter (\<lambda>(j, c). names_node i (the c)) (il_of_node l i) = filter (\<lambda>(j, c). names_node i (the c)) (il_enum l)"
  using near_complete [of l v _ "names_node i"] node_law by (auto simp: looks_def il_of_node_def)

lemma of_key_found: "looks l v \<Longrightarrow> k \<noteq> [] \<Longrightarrow>
    filter (\<lambda>(j, c). im_key (the c) = k) (il_of_key l k) = filter (\<lambda>(j, c). im_key (the c) = k) (il_enum l)"
  using near_complete [of l v _ "\<lambda>c. im_key c = k"] key_law by (auto simp: looks_def il_of_key_def)

end

subsection \<open>Properties of the lists\<close>

text \<open>
  C22. The blocks of a list are an implementation of a list: appending and replacing copy a block and
  give what they give on a list, a position read is the element of it, and the blocks stay full but
  the last.
\<close>

theorem impacts_refine_list:
  assumes "il_ok l" and "i < il_n l"
  shows "il_at l i = Some (il_all l ! i)
    \<and> il_ok (il_append l c) \<and> il_all (il_append l c) = il_all l @ [c]
    \<and> (\<exists>l'. il_set l i c = Some l' \<and> il_ok l' \<and> il_all l' = (il_all l)[i := c])
    \<and> il_slice l = il_all l"
proof -
  have n: "il_n l = length (il_all l)" using assms(1) by (simp add: il_ok_def)
  have "il_at l i = Some (il_all l ! i)" using il_at_all [OF assms(1)] assms(2) n by (simp add: nth_opt_def)
  moreover have "il_slice l = il_all l" using n by (auto simp: il_slice_def)
  ultimately show ?thesis using il_append_ok [OF assms(1)] il_set_ok [OF assms] by blast
qed

theorem impacts_refine_list_witness:
  "let l = impacts_of (replicate 20 demo_impact)
   in map length (il_blocks (il_append l demo_impact)) = [16, 5]
      \<and> (\<exists>l'. il_set l 17 (demo_impact\<lparr>im_key := ''x''\<rparr>) = Some l' \<and> im_key (il_all l' ! 17) = ''x'')"
proof -
  let ?l = "impacts_of (replicate 20 demo_impact)" and ?c = "demo_impact\<lparr>im_key := ''x''\<rparr>"
  have ok: "il_ok ?l" "17 < il_n ?l" by (simp_all add: impacts_of_def il_ok_def il_all_def)
  have "map length (il_blocks (il_append ?l demo_impact)) = [16, 5]" by code_simp
  moreover from impacts_refine_list [OF ok, of ?c] obtain l' where
    "il_set ?l 17 ?c = Some l'" "il_all l' = (il_all ?l)[17 := ?c]" by blast
  then have "\<exists>l'. il_set ?l 17 ?c = Some l' \<and> im_key (il_all l' ! 17) = ''x''"
    by (simp add: impacts_of_def il_all_def)
  ultimately show ?thesis by (simp only: Let_def simp_thms)
qed

end
