(* ===== verification/Diff.thy ===== *)
theory Diff
  imports Merge Impacts
begin

text \<open>
  contracts/domain/draftdiff.go, changestats.go and DraftDiff of draft.go: the difference of two
  shapes of a node, the effect of a committed version and the counters of a change, and the patch that
  turns a draft into another, with its round trip through the fold of a draft.
\<close>

subsection \<open>Shapes\<close>

record link_shape =
  sl_type :: string
  sl_to :: string
  sl_to_key :: string
  sl_props :: props

record node_shape =
  sh_key :: string
  sh_type :: string
  sh_state :: string
  sh_owner :: url
  sh_props :: props
  sh_links :: "link_shape list"

datatype field_kind = FProperty | FState | FOwner | FLink
datatype field_op = OAdded | ORemoved | OChanged

record field_change =
  fc_kind :: field_kind
  fc_name :: string
  fc_op :: field_op
  fc_target :: string
  fc_old :: gval
  fc_new :: gval

definition change_op :: "bool \<Rightarrow> bool \<Rightarrow> field_op" where
  "change_op was_empty is_empty = (if was_empty then OAdded else if is_empty then ORemoved else OChanged)"

definition shape_link_key :: "link_shape \<Rightarrow> string" where
  "shape_link_key l = sl_type l @ [CHR 0x00] @ sl_to l"

definition link_label :: "link_shape \<Rightarrow> string" where
  "link_label l = (if sl_to_key l \<noteq> [] then sl_to_key l else sl_to l)"

definition empty_as_nil :: "props \<Rightarrow> gval" where
  "empty_as_nil p = (if pmap p = [] then GNil else pany p)"

definition shapes_by_key :: "link_shape list \<Rightarrow> (string, link_shape) gomap" where
  "shapes_by_key ls = foldl (\<lambda>m l. mput (shape_link_key l) l m) [] ls"

definition link_change :: "(string, link_shape) gomap \<Rightarrow> (string, link_shape) gomap \<Rightarrow> string \<Rightarrow> field_change list" where
  "link_change lm rm k = (case (map_of lm k, map_of rm k) of
     (Some l, None) \<Rightarrow> [\<lparr>fc_kind = FLink, fc_name = sl_type l, fc_op = ORemoved, fc_target = link_label l,
                        fc_old = empty_as_nil (sl_props l), fc_new = GNil\<rparr>]
   | (None, Some r) \<Rightarrow> [\<lparr>fc_kind = FLink, fc_name = sl_type r, fc_op = OAdded, fc_target = link_label r,
                        fc_old = GNil, fc_new = empty_as_nil (sl_props r)\<rparr>]
   | (Some l, Some r) \<Rightarrow> if same_value (Some (empty_as_nil (sl_props l))) (Some (empty_as_nil (sl_props r))) then []
       else [\<lparr>fc_kind = FLink, fc_name = sl_type r, fc_op = OChanged, fc_target = link_label r,
              fc_old = empty_as_nil (sl_props l), fc_new = empty_as_nil (sl_props r)\<rparr>]
   | (None, None) \<Rightarrow> [])"

definition shape_of_key :: "(string, link_shape) gomap \<Rightarrow> (string, link_shape) gomap \<Rightarrow> string \<Rightarrow> link_shape" where
  "shape_of_key lm rm k = (case map_of lm k of Some l \<Rightarrow> l | None \<Rightarrow> the (map_of rm k))"

text \<open>The keys are ordered by type then label; keys alike in both keep the order of the keys.\<close>

definition diff_links :: "link_shape list \<Rightarrow> link_shape list \<Rightarrow> field_change list" where
  "diff_links left right = (let lm = shapes_by_key left; rm = shapes_by_key right;
       keys = stable_sort (\<lambda>a b. (sl_type (shape_of_key lm rm a), link_label (shape_of_key lm rm a))
                < (sl_type (shape_of_key lm rm b), link_label (shape_of_key lm rm b))) (mkeys (lm @ rm))
     in concat (map (link_change lm rm) keys))"

definition prop_change :: "props \<Rightarrow> props \<Rightarrow> string \<Rightarrow> field_change list" where
  "prop_change l r k = (case (pget l k, pget r k) of
     (Some x, None) \<Rightarrow> [\<lparr>fc_kind = FProperty, fc_name = k, fc_op = ORemoved, fc_target = [], fc_old = x, fc_new = GNil\<rparr>]
   | (None, Some y) \<Rightarrow> [\<lparr>fc_kind = FProperty, fc_name = k, fc_op = OAdded, fc_target = [], fc_old = GNil, fc_new = y\<rparr>]
   | (Some x, Some y) \<Rightarrow> if same_value (Some x) (Some y) then []
       else [\<lparr>fc_kind = FProperty, fc_name = k, fc_op = OChanged, fc_target = [], fc_old = x, fc_new = y\<rparr>]
   | (None, None) \<Rightarrow> [])"

definition diff_shapes :: "node_shape \<Rightarrow> node_shape \<Rightarrow> field_change list" where
  "diff_shapes l r =
     (if sh_state l \<noteq> sh_state r then [\<lparr>fc_kind = FState, fc_name = [], fc_op = change_op (sh_state l = []) (sh_state r = []),
          fc_target = [], fc_old = GStr (sh_state l), fc_new = GStr (sh_state r)\<rparr>] else [])
     @ (if sh_owner l \<noteq> sh_owner r then [\<lparr>fc_kind = FOwner, fc_name = [],
          fc_op = change_op (url_is_zero (sh_owner l)) (url_is_zero (sh_owner r)),
          fc_target = [], fc_old = GStr (url_string (sh_owner l)), fc_new = GStr (url_string (sh_owner r))\<rparr>] else [])
     @ concat (map (prop_change (sh_props l) (sh_props r)) (mkeys (pmap (sh_props l) @ pmap (sh_props r))))
     @ diff_links (sh_links l) (sh_links r)"

subsection \<open>The difference of two flows\<close>

datatype diff_category = DAdded | DRemoved | DModified

record impact_side =
  is_impact :: string
  is_flow :: string
  is_intent :: intent
  is_review :: review_status
  is_drafted :: bool
  is_state :: string
  is_owner :: url

record impact_diff =
  di_node :: string
  di_key :: string
  di_type :: string
  di_category :: diff_category
  di_left :: "impact_side option"
  di_right :: "impact_side option"
  di_changes :: "field_change list"

record flow_diff =
  fd_change :: string
  fd_left :: string
  fd_right :: string
  fd_level :: string
  fd_impacts :: "impact_diff list"
  fd_identical :: int

definition diff_counts :: "flow_diff \<Rightarrow> diff_category \<Rightarrow> nat" where
  "diff_counts d c = length (filter (\<lambda>i. di_category i = c) (fd_impacts d))"

subsection \<open>Effects and counters\<close>

definition shape_of :: "node \<Rightarrow> link list \<Rightarrow> node_shape" where
  "shape_of n ls = \<lparr>sh_key = n_key n, sh_type = n_type n, sh_state = n_state n, sh_owner = zero_url, sh_props = n_props n,
     sh_links = map (\<lambda>l. \<lparr>sl_type = k_type l,
        sl_to = (if link_external l then url_string (k_target l) else nr_id (k_to l)),
        sl_to_key = [], sl_props = k_props l\<rparr>) ls\<rparr>"

definition zero_shape :: node_shape where
  "zero_shape = \<lparr>sh_key = [], sh_type = [], sh_state = [], sh_owner = zero_url, sh_props = None, sh_links = []\<rparr>"

definition count_change :: "effect \<Rightarrow> field_change \<Rightarrow> effect" where
  "count_change e f = (case fc_kind f of
     FProperty \<Rightarrow> if ef_kind e \<noteq> ''deleted'' then e\<lparr>ef_props := ef_props e + 1\<rparr> else e
   | FState \<Rightarrow> e\<lparr>ef_state := ef_kind e \<noteq> ''created'' \<and> ef_kind e \<noteq> ''deleted'' \<and> fc_old f \<noteq> GStr []\<rparr>
   | FLink \<Rightarrow> (case fc_op f of
         OAdded \<Rightarrow> e\<lparr>ef_links_added := ef_links_added e + 1\<rparr>
       | ORemoved \<Rightarrow> e\<lparr>ef_links_removed := ef_links_removed e + 1\<rparr>
       | OChanged \<Rightarrow> e\<lparr>ef_links_changed := ef_links_changed e + 1\<rparr>)
   | FOwner \<Rightarrow> e)"

definition effect_of :: "node option \<Rightarrow> link list \<Rightarrow> node \<Rightarrow> link list \<Rightarrow> effect" where
  "effect_of pre pre_links post post_links =
     (let kind = (case pre of None \<Rightarrow> ''created''
          | Some p \<Rightarrow> if n_deleted post \<and> \<not> n_deleted p then ''deleted''
              else if n_deleted p \<and> \<not> n_deleted post then ''restored'' else ''modified'');
          left = (case pre of None \<Rightarrow> zero_shape
          | Some p \<Rightarrow> if \<not> n_deleted p then shape_of p pre_links else zero_shape\<lparr>sh_state := n_state p\<rparr>);
          right = (if n_deleted post then zero_shape else shape_of post post_links)
      in foldl count_change (zero_effect\<lparr>ef_kind := kind\<rparr>) (diff_shapes left right))"

record change_stats =
  cs_created :: int
  cs_modified :: int
  cs_deleted :: int
  cs_restored :: int
  cs_requalified :: int
  cs_props :: int
  cs_states :: int
  cs_links_added :: int
  cs_links_removed :: int
  cs_links_changed :: int
  cs_proposed :: int
  cs_accepted :: int
  cs_rejected :: int

definition zero_stats :: change_stats where
  "zero_stats = \<lparr>cs_created = 0, cs_modified = 0, cs_deleted = 0, cs_restored = 0, cs_requalified = 0, cs_props = 0,
     cs_states = 0, cs_links_added = 0, cs_links_removed = 0, cs_links_changed = 0, cs_proposed = 0, cs_accepted = 0, cs_rejected = 0\<rparr>"

definition stats_nodes :: "change_stats \<Rightarrow> int" where
  "stats_nodes s = cs_created s + cs_modified s + cs_deleted s + cs_restored s"

definition stats_pending :: "change_stats \<Rightarrow> int" where
  "stats_pending s = cs_proposed s + cs_accepted s + cs_rejected s"

definition stats_committed :: "change_stats \<Rightarrow> change_stats" where
  "stats_committed s = s\<lparr>cs_proposed := 0, cs_accepted := 0, cs_rejected := 0\<rparr>"

definition count_impact :: "change_stats \<Rightarrow> impact \<Rightarrow> change_stats" where
  "count_impact s cn =
     (if im_flow cn \<noteq> [] \<or> im_superseded cn then s
      else if im_committed cn = None then
        (case im_review cn of Accepted \<Rightarrow> s\<lparr>cs_accepted := cs_accepted s + 1\<rparr>
         | Rejected \<Rightarrow> s\<lparr>cs_rejected := cs_rejected s + 1\<rparr>
         | _ \<Rightarrow> s\<lparr>cs_proposed := cs_proposed s + 1\<rparr>)
      else let e = im_effect cn;
          kind = (if ef_kind e = [] then (if im_intent cn = Created then ''created'' else ''modified'') else ef_kind e);
          s1 = (if kind = ''created'' then s\<lparr>cs_created := cs_created s + 1\<rparr>
                else if kind = ''deleted'' then s\<lparr>cs_deleted := cs_deleted s + 1\<rparr>
                else if kind = ''restored'' then s\<lparr>cs_restored := cs_restored s + 1\<rparr>
                else s\<lparr>cs_modified := cs_modified s + 1\<rparr>);
          s2 = (if ef_requalified e then s1\<lparr>cs_requalified := cs_requalified s1 + 1\<rparr> else s1);
          s3 = (if ef_state e then s2\<lparr>cs_states := cs_states s2 + 1\<rparr> else s2)
        in s3\<lparr>cs_props := cs_props s3 + ef_props e, cs_links_added := cs_links_added s3 + ef_links_added e,
              cs_links_removed := cs_links_removed s3 + ef_links_removed e,
              cs_links_changed := cs_links_changed s3 + ef_links_changed e\<rparr>)"

definition stats_of :: "impacts \<Rightarrow> change_stats" where
  "stats_of l = foldl count_impact zero_stats (il_all l)"

subsection \<open>The patch between two drafts\<close>

text \<open>reflect.DeepEqual on values: equal up to the order in which a map is written.\<close>

primrec norm_val :: "gval \<Rightarrow> gval" where
  "norm_val GNil = GNil"
| "norm_val (GBool b) = GBool b"
| "norm_val (GInt n) = GInt n"
| "norm_val (GFloat q) = GFloat q"
| "norm_val (GStr s) = GStr s"
| "norm_val (GStrs ss) = GStrs ss"
| "norm_val (GList vs) = GList (map norm_val vs)"
| "norm_val (GMap m) = (let m' = map (map_prod id norm_val) m in GMap (map (\<lambda>k. (k, the (map_of m' k))) (mkeys m')))"
| "norm_val (GStrMap m) = GStrMap (map (\<lambda>k. (k, the (map_of m k))) (mkeys m))"
| "norm_val (GDur d) = GDur d"

definition deep_equal :: "gval \<Rightarrow> gval \<Rightarrow> bool" where
  "deep_equal a b \<longleftrightarrow> norm_val a = norm_val b"

definition deep_equal_props :: "props \<Rightarrow> props \<Rightarrow> bool" where
  "deep_equal_props a b \<longleftrightarrow> (a = None) = (b = None) \<and> deep_equal (GMap (pmap a)) (GMap (pmap b))"

definition match_link :: "draft_link list \<Rightarrow> bool list \<Rightarrow> bool \<Rightarrow> draft_link \<Rightarrow> nat option" where
  "match_link tos used same l = find (\<lambda>i. \<not> used ! i \<and> dl_type (tos ! i) = dl_type l \<and> dl_to (tos ! i) = dl_to l
     \<and> dl_target (tos ! i) = dl_target l \<and> (\<not> same \<or> deep_equal_props (dl_props (tos ! i)) (dl_props l))) [0..<length tos]"

fun keep_links :: "draft_link list \<Rightarrow> bool list \<Rightarrow> draft_link list \<Rightarrow> bool list \<times> draft_link list" where
  "keep_links tos used [] = (used, [])"
| "keep_links tos used (l # ls) = (case match_link tos used True l of
     Some i \<Rightarrow> keep_links tos (used[i := True]) ls
   | None \<Rightarrow> apsnd (Cons l) (keep_links tos used ls))"

fun change_links :: "draft_link list \<Rightarrow> bool list \<Rightarrow> draft_link list \<Rightarrow> bool list \<times> (string \<times> props) list \<times> string list" where
  "change_links tos used [] = (used, [], [])"
| "change_links tos used (l # ls) = (case match_link tos used False l of
     Some i \<Rightarrow> (let (u, ups, rems) = change_links tos (used[i := True]) ls in (u, (dl_id l, dl_props (tos ! i)) # ups, rems))
   | None \<Rightarrow> (let (u, ups, rems) = change_links tos used ls in (u, ups, dl_id l # rems)))"

definition add_value :: "draft_link \<Rightarrow> gval" where
  "add_value l = (if draft_link_external l
     then GMap [(''id'', GStr (dl_id l)), (''type'', GStr (dl_type l)), (''target'', GStr (url_string (dl_target l))), (''props'', pany (dl_props l))]
     else GMap [(''id'', GStr (dl_id l)), (''type'', GStr (dl_type l)), (''toId'', GStr (nr_id (dl_to l))),
       (''toVersion'', GInt (nr_version (dl_to l))), (''props'', pany (dl_props l))])"

definition put_if :: "bool \<Rightarrow> string \<Rightarrow> gval \<Rightarrow> (string, gval) gomap \<Rightarrow> (string, gval) gomap" where
  "put_if c k v m = (if c then mput k v m else m)"

definition draft_diff :: "draft \<Rightarrow> draft \<Rightarrow> props" where
  "draft_diff from to =
     (let tp = pget (d_props to); fp = pget (d_props from);
          ps = map (\<lambda>k. (k, the (tp k))) (filter (\<lambda>k. \<not> (case fp k of Some w \<Rightarrow> deep_equal (the (tp k)) w | None \<Rightarrow> False))
                 (mkeys (pmap (d_props to))));
          unset = filter (\<lambda>k. tp k = None) (mkeys (pmap (d_props from)));
          (used, rest) = keep_links (d_links to) (replicate (length (d_links to)) False) (d_links from);
          (used2, ups, rems) = change_links (d_links to) used rest;
          adds = map add_value (map (\<lambda>i. d_links to ! i) (filter (\<lambda>i. \<not> used2 ! i) [0..<length (d_links to)]));
          updates = map (\<lambda>(i, p). GMap [(''id'', GStr i), (''props'', pany p)]) ups;
          removes = map (\<lambda>i. GMap [(''id'', GStr i)]) rems;
          p = put_if (removes \<noteq> []) ''removeLinks'' (GList removes)
              (put_if (updates \<noteq> []) ''updateLinks'' (GList updates)
              (put_if (adds \<noteq> []) ''addLinks'' (GList adds)
              (put_if (d_deleted to \<noteq> d_deleted from) ''deleted'' (GBool (d_deleted to))
              (put_if (d_state to \<noteq> d_state from) ''state'' (GMap [(''from'', GStr (d_state from)), (''to'', GStr (d_state to))])
              (put_if (d_owner to \<noteq> d_owner from) ''owner'' (GStr (url_string (d_owner to)))
              (put_if (unset \<noteq> []) ''unset'' (GStrs unset)
              (put_if (ps \<noteq> []) ''props'' (GMap ps) [])))))))
      in if p = [] then None else Some p)"

subsection \<open>An empty difference\<close>






subsection \<open>Counting\<close>

definition counted :: "impact \<Rightarrow> bool" where
  "counted c \<longleftrightarrow> im_flow c = [] \<and> \<not> im_superseded c"

lemma count_impact_sums:
  "stats_nodes (count_impact s c) = stats_nodes s + of_bool (counted c \<and> im_committed c \<noteq> None)
   \<and> stats_pending (count_impact s c) = stats_pending s + of_bool (counted c \<and> im_committed c = None)"
  by (auto simp: count_impact_def counted_def stats_nodes_def stats_pending_def Let_def split: review_status.splits)

lemma count_fold:
  "stats_nodes (foldl count_impact s cs) = stats_nodes s + int (length (filter (\<lambda>c. counted c \<and> im_committed c \<noteq> None) cs))
   \<and> stats_pending (foldl count_impact s cs) = stats_pending s + int (length (filter (\<lambda>c. counted c \<and> im_committed c = None) cs))"
  by (induction cs arbitrary: s) (auto simp: count_impact_sums)

subsection \<open>Properties of the differences\<close>


text \<open>
  The counters of a change partition its impacts: the nodes counted are the committed impacts of the
  main flow not superseded, the pending ones the others of the main flow, and the counters kept on the
  header drop exactly the pending ones.
\<close>

theorem stats_partition:
  "stats_nodes (stats_of l) = int (length (filter (\<lambda>c. counted c \<and> im_committed c \<noteq> None) (il_all l)))
   \<and> stats_pending (stats_of l) = int (length (filter (\<lambda>c. counted c \<and> im_committed c = None) (il_all l)))
   \<and> stats_nodes (stats_of l) + stats_pending (stats_of l) = int (length (filter counted (il_all l)))
   \<and> stats_pending (stats_committed (stats_of l)) = 0
   \<and> stats_nodes (stats_committed (stats_of l)) = stats_nodes (stats_of l)"
proof -
  have "length (filter (\<lambda>c. counted c \<and> im_committed c \<noteq> None) cs) + length (filter (\<lambda>c. counted c \<and> im_committed c = None) cs)
      = length (filter counted cs)" for cs
    by (induction cs) auto
  then show ?thesis using count_fold [of zero_stats "il_all l"]
    by (simp add: stats_of_def stats_nodes_def stats_pending_def stats_committed_def zero_stats_def flip: of_nat_add)
qed

subsection \<open>Values through a patch\<close>

primrec exact_val :: "gval \<Rightarrow> bool" where
  "exact_val GNil = True"
| "exact_val (GBool b) = True"
| "exact_val (GInt n) = (\<bar>n\<bar> \<le> 2 ^ 53)"
| "exact_val (GFloat q) = True"
| "exact_val (GStr s) = True"
| "exact_val (GStrs ss) = True"
| "exact_val (GList vs) = list_all id (map exact_val vs)"
| "exact_val (GMap m) = list_all snd (map (map_prod id exact_val) m)"
| "exact_val (GStrMap m) = True"
| "exact_val (GDur d) = (\<bar>d\<bar> \<le> 2 ^ 53)"

lemma map_of_map_prod: "map_of (map (map_prod id f) m) k = map_option f (map_of m k)"
  by (induction m) auto

lemma mkeys_map_prod: "mkeys (map (map_prod id f) m) = mkeys m"
  by (rule mkeys_cong) (auto simp: map_of_map_prod dom_def)

lemma json_reread: "exact_val v \<Longrightarrow> json_of (reread v) = json_of v"
proof (induction v)
  case (GInt n) then show ?case by (simp add: round64_int)
next
  case (GDur d) then show ?case by (simp add: round64_int)
next
  case (GStrs ss) then show ?case by simp
next
  case (GList vs) then show ?case by (simp add: list_all_iff)
next
  case (GMap m)
  have "map (map_prod id json_of) (map (map_prod id reread) m) = map (map_prod id json_of) m"
    using GMap by (auto simp: list_all_iff)
  then show ?case by (simp only: reread.simps json_of.simps)
next
  case (GStrMap m)
  have "map (map_prod id json_of) (map (map_prod id GStr) m) = map (map_prod id JStr) m" by auto
  then show ?case by (simp only: reread.simps json_of.simps)
qed simp_all

lemma obj_cong: "map_of a = map_of b \<Longrightarrow> obj a = obj b"
  by (simp add: obj_def mkeys_cong [of a b])

lemma map_of_selected: "map_of (map (\<lambda>k. (k, f k)) ks) k = (if k \<in> set ks then Some (f k) else None)"
  by (induction ks) auto

lemma map_of_sorted: "map_of (map (\<lambda>k. (k, the (map_of m k))) (mkeys m)) = map_of m"
proof
  fix k show "map_of (map (\<lambda>k. (k, the (map_of m k))) (mkeys m)) k = map_of m k"
    by (cases "map_of m k") (auto simp: map_of_selected domIff)
qed

lemma obj_sorted: "obj (map (map_prod id f) (map (\<lambda>k. (k, the (map_of m k))) (mkeys m))) = obj (map (map_prod id f) m)"
proof (rule obj_cong)
  show "map_of (map (map_prod id f) (map (\<lambda>k. (k, the (map_of m k))) (mkeys m))) = map_of (map (map_prod id f) m)"
    by (simp only: fun_eq_iff map_of_map_prod map_of_sorted) simp
qed

lemma json_norm: "json_of (norm_val v) = json_of v"
proof (induction v)
  case (GMap m)
  have "map (map_prod id json_of) (map (map_prod id norm_val) m) = map (map_prod id json_of) m"
    using GMap by auto
  then show ?case by (simp only: norm_val.simps json_of.simps Let_def obj_sorted)
next
  case (GStrMap m)
  show ?case by (simp only: norm_val.simps json_of.simps obj_sorted)
qed auto

lemma deep_equal_json: "deep_equal a b \<Longrightarrow> json_of a = json_of b"
  by (metis deep_equal_def json_norm)

lemma deep_equal_props_json: "deep_equal_props a b \<Longrightarrow> json_of (pany a) = json_of (pany b)"
  using deep_equal_json [of "GMap (pmap a)" "GMap (pmap b)"]
  by (cases a; cases b) (auto simp: deep_equal_props_def)

definition exact_props :: "props \<Rightarrow> bool" where
  "exact_props p \<longleftrightarrow> exact_val (GMap (pmap p))"

lemma js_props_json: "exact_props p \<Longrightarrow> json_of (pany (js_props (Some (pany p)))) = json_of (pany p)"
  using json_reread [of "GMap (pmap p)"] by (cases p) (auto simp: exact_props_def)

subsection \<open>Links through a patch\<close>

text \<open>What a link says, its id aside.\<close>

definition link_content :: "draft_link \<Rightarrow> string \<times> node_ref \<times> url \<times> json" where
  "link_content l = (dl_type l, dl_to l, dl_target l, json_of (pany (dl_props l)))"

definition sel :: "draft_link list \<Rightarrow> bool list \<Rightarrow> draft_link multiset" where
  "sel tos used = mset (map ((!) tos) (filter ((!) used) [0..<length tos]))"

lemma filter_upd:
  "i < n \<Longrightarrow> n \<le> length used \<Longrightarrow> \<not> used ! i \<Longrightarrow>
   mset (map f (filter ((!) (used[i := True])) [0..<n])) = add_mset (f i) (mset (map f (filter ((!) used) [0..<n])))"
proof (induction n)
  case (Suc n)
  show ?case
  proof (cases "i = n")
    case True
    have "filter ((!) (used[i := True])) [0..<n] = filter ((!) used) [0..<n]"
      using True by (intro filter_cong) auto
    then show ?thesis using Suc.prems True by simp
  next
    case False
    then show ?thesis using Suc by (cases "used ! n") auto
  qed
qed simp

lemma sel_update: "i < length tos \<Longrightarrow> length used = length tos \<Longrightarrow> \<not> used ! i \<Longrightarrow>
    sel tos (used[i := True]) = add_mset (tos ! i) (sel tos used)"
  unfolding sel_def by (rule filter_upd) simp_all

lemma match_link_Some:
  "match_link tos used same l = Some i \<Longrightarrow> i < length tos \<and> \<not> used ! i \<and> dl_type (tos ! i) = dl_type l
     \<and> dl_to (tos ! i) = dl_to l \<and> dl_target (tos ! i) = dl_target l
     \<and> (same \<longrightarrow> deep_equal_props (dl_props (tos ! i)) (dl_props l))"
  by (auto simp: match_link_def find_Some_iff)

lemma keep_links_sel:
  "length used = length tos \<Longrightarrow> keep_links tos used ls = (used', rest) \<Longrightarrow>
   length used' = length tos \<and> (\<exists>kept. mset ls = mset kept + mset rest
     \<and> image_mset link_content (sel tos used') = image_mset link_content (sel tos used) + mset (map link_content kept))"
proof (induction tos used ls arbitrary: used' rest rule: keep_links.induct)
  case (1 tos used)
  then show ?case by (auto intro: exI [of _ "[]"])
next
  case (2 tos used l ls)
  show ?case
  proof (cases "match_link tos used True l")
    case None
    then obtain rest1 where r: "keep_links tos used ls = (used', rest1)" "rest = l # rest1"
      using "2.prems" by (cases "keep_links tos used ls") auto
    obtain kept where "length used' = length tos" "mset ls = mset kept + mset rest1"
      "image_mset link_content (sel tos used') = image_mset link_content (sel tos used) + mset (map link_content kept)"
      using "2.IH"(1) [OF None "2.prems"(1) r(1)] by blast
    then show ?thesis using r by (intro conjI exI [of _ kept]) auto
  next
    case (Some i)
    note M = match_link_Some [OF Some]
    have r: "keep_links tos (used[i := True]) ls = (used', rest)" using "2.prems" Some by simp
    obtain kept where k: "length used' = length tos" "mset ls = mset kept + mset rest"
      "image_mset link_content (sel tos used') = image_mset link_content (sel tos (used[i := True])) + mset (map link_content kept)"
      using "2.IH"(2) [OF Some _ r] "2.prems"(1) by auto
    have "link_content (tos ! i) = link_content l" using M deep_equal_props_json by (simp add: link_content_def)
    then show ?thesis using k M "2.prems"(1) by (intro conjI exI [of _ "l # kept"]) (auto simp: sel_update)
  qed
qed

lemma change_links_sel:
  "length used = length tos \<Longrightarrow> change_links tos used ls = (used', ups, rems) \<Longrightarrow>
   length used' = length tos \<and> (\<exists>pairs dropped. ups = map (\<lambda>(l, p). (dl_id l, p)) pairs \<and> rems = map dl_id dropped
     \<and> mset ls = mset (map fst pairs) + mset dropped \<and> set (map snd pairs) \<subseteq> dl_props ` set tos
     \<and> image_mset link_content (sel tos used') = image_mset link_content (sel tos used)
         + mset (map (\<lambda>(l, p). link_content (l\<lparr>dl_props := p\<rparr>)) pairs))"
proof (induction tos used ls arbitrary: used' ups rems rule: change_links.induct)
  case (1 tos used)
  then show ?case by (intro conjI exI [of _ "[]"]) auto
next
  case (2 tos used l ls)
  show ?case
  proof (cases "match_link tos used False l")
    case None
    then obtain rems1 where r: "change_links tos used ls = (used', ups, rems1)" "rems = dl_id l # rems1"
      using "2.prems" by (cases "change_links tos used ls") auto
    obtain pairs dropped where "length used' = length tos" "ups = map (\<lambda>(l, p). (dl_id l, p)) pairs" "rems1 = map dl_id dropped"
      "mset ls = mset (map fst pairs) + mset dropped" "set (map snd pairs) \<subseteq> dl_props ` set tos"
      "image_mset link_content (sel tos used') = image_mset link_content (sel tos used)
         + mset (map (\<lambda>(l, p). link_content (l\<lparr>dl_props := p\<rparr>)) pairs)"
      using "2.IH"(1) [OF None "2.prems"(1) r(1)] by blast
    then show ?thesis using r by (intro conjI exI [of _ pairs] exI [of _ "l # dropped"]) simp_all
  next
    case (Some i)
    note M = match_link_Some [OF Some]
    obtain ups1 where r: "change_links tos (used[i := True]) ls = (used', ups1, rems)" "ups = (dl_id l, dl_props (tos ! i)) # ups1"
      using "2.prems" Some by (cases "change_links tos (used[i := True]) ls") auto
    obtain pairs dropped where P: "length used' = length tos" "ups1 = map (\<lambda>(l, p). (dl_id l, p)) pairs" "rems = map dl_id dropped"
      "mset ls = mset (map fst pairs) + mset dropped" "set (map snd pairs) \<subseteq> dl_props ` set tos"
      "image_mset link_content (sel tos used') = image_mset link_content (sel tos (used[i := True]))
         + mset (map (\<lambda>(l, p). link_content (l\<lparr>dl_props := p\<rparr>)) pairs)"
      using "2.IH"(2) [OF Some _ r(1)] "2.prems"(1) by auto
    have "link_content (tos ! i) = link_content (l\<lparr>dl_props := dl_props (tos ! i)\<rparr>)" using M by (simp add: link_content_def)
    then show ?thesis using P r M "2.prems"(1)
      by (intro conjI exI [of _ "(l, dl_props (tos ! i)) # pairs"] exI [of _ dropped]) (simp_all add: sel_update)
  qed
qed

subsection \<open>The patch applied\<close>

definition patch_update :: "string \<times> props \<Rightarrow> patch_link" where
  "patch_update u = patch_link_of (GMap [(''id'', GStr (fst u)), (''props'', pany (snd u))])"

definition patch_remove :: "string \<Rightarrow> patch_link" where
  "patch_remove i = patch_link_of (GMap [(''id'', GStr i)])"

lemma patch_update_simps: "pl_id (patch_update u) = fst u" "pl_props (patch_update u) = js_props (Some (pany (snd u)))"
  by (simp_all add: patch_update_def patch_link_of_def Let_def)

lemma patch_remove_id: "pl_id (patch_remove i) = i"
  by (simp add: patch_remove_def patch_link_of_def Let_def)

lemma removes_filter: "foldl remove_links ls rs = filter (\<lambda>l. dl_id l \<notin> pl_id ` set rs) ls"
  by (induction rs arbitrary: ls) (auto simp: remove_links_def intro: filter_cong)

lemma updates_map:
  "distinct (map fst us) \<Longrightarrow> foldl update_links ls (map patch_update us)
    = map (\<lambda>l. case map_of us (dl_id l) of None \<Rightarrow> l | Some p \<Rightarrow> l\<lparr>dl_props := js_props (Some (pany p))\<rparr>) ls"
proof (induction us arbitrary: ls)
  case (Cons u us)
  obtain i p where u: "u = (i, p)" by (cases u)
  have "i \<notin> fst ` set us" using Cons.prems u by simp
  then have "map_of us i = None" by (simp add: map_of_eq_None_iff)
  then show ?case using Cons u
    by (auto simp: update_links_def patch_update_simps split: option.splits)
qed simp

text \<open>Links as the code writes them: a link to another source names it with no node, another has no URL.\<close>

definition link_wf :: "draft_link \<Rightarrow> bool" where
  "link_wf l \<longleftrightarrow> exact_props (dl_props l) \<and> (if draft_link_external l
     then dl_to l = zero_ref \<and> validate (dl_target l) \<and> u_version (dl_target l) \<le> max_int else dl_target l = zero_url)"

lemma added_content: "link_wf l \<Longrightarrow> link_content (added_link (patch_link_of (add_value l))) = link_content l
    \<and> dl_id (added_link (patch_link_of (add_value l))) = dl_id l"
proof -
  assume wf: "link_wf l"
  show ?thesis
  proof (cases "draft_link_external l")
    case True
    then have v: "validate (dl_target l)" "u_version (dl_target l) \<le> max_int" and t: "dl_to l = zero_ref"
      using wf by (simp_all add: link_wf_def)
    have p: "parse (url_string (dl_target l)) = Some (dl_target l)" using parse_url_string [OF v] .
    then have "url_string (dl_target l) \<noteq> []" by (auto simp: parse_def)
    then show ?thesis using wf True p t js_props_json [of "dl_props l"]
      by (simp add: add_value_def patch_link_of_def added_link_def link_content_def url_of_def link_wf_def zero_ref_def Let_def)
  next
    case False
    then show ?thesis using wf js_props_json [of "dl_props l"]
      by (simp add: add_value_def patch_link_of_def added_link_def link_content_def link_wf_def Let_def)
  qed
qed

text \<open>The links a patch leaves: those kept, those given other properties, those added.\<close>

lemma patched_links_content:
  assumes dist: "distinct (map dl_id ls)" and part: "mset ls = mset kept + mset (map fst pairs) + mset dropped"
    and disj: "set (map dl_id adds) \<inter> set (map dl_id ls) = {}" and ex: "\<forall>p \<in> set (map snd pairs). exact_props p"
  shows "mset (map link_content (foldl remove_links (foldl update_links (ls @ adds)
       (map patch_update (map (\<lambda>(l, p). (dl_id l, p)) pairs))) (map patch_remove (map dl_id dropped))))
    = mset (map link_content kept) + mset (map (\<lambda>(l, p). link_content (l\<lparr>dl_props := p\<rparr>)) pairs) + mset (map link_content adds)"
proof -
  let ?us = "map (\<lambda>(l, p). (dl_id l, p)) pairs" and ?rs = "map dl_id dropped"
  let ?up = "\<lambda>l. case map_of ?us (dl_id l) of None \<Rightarrow> l | Some p \<Rightarrow> l\<lparr>dl_props := js_props (Some (pany p))\<rparr>"
  have fst_us: "map fst ?us = map dl_id (map fst pairs)" by auto
  have all: "distinct (map dl_id (kept @ map fst pairs @ dropped))"
  proof -
    have "mset (map dl_id (kept @ map fst pairs @ dropped)) = mset (map dl_id ls)" using part by (simp add: ac_simps multiset.map_comp)
    then show ?thesis using dist by (metis mset_eq_imp_distinct_iff)
  qed
  have ids: "dl_id ` set ls = dl_id ` (set kept \<union> set (map fst pairs) \<union> set dropped)"
    using arg_cong [OF part, of set_mset] by auto
  have dus: "distinct (map fst ?us)" using all unfolding fst_us by simp
  have upd: "foldl update_links (ls @ adds) (map patch_update ?us) = map ?up (ls @ adds)" by (rule updates_map [OF dus])
  have idup: "dl_id (?up l) = dl_id l" for l by (simp split: option.splits)
  have rem: "foldl remove_links (map ?up (ls @ adds)) (map patch_remove ?rs)
      = map ?up (filter (\<lambda>l. dl_id l \<notin> set ?rs) (ls @ adds))"
    unfolding removes_filter filter_map comp_def idup by (simp add: patch_remove_id image_image)
  have none: "map_of ?us (dl_id l) = None" if "dl_id l \<notin> dl_id ` set (map fst pairs)" for l
    using that fst_us by (metis map_of_eq_None_iff set_map)
  have A: "map ?up (filter (\<lambda>l. dl_id l \<notin> set ?rs) adds) = adds"
  proof -
    have h: "dl_id l \<notin> dl_id ` set (map fst pairs) \<and> dl_id l \<notin> set ?rs" if "l \<in> set adds" for l
      using that disj ids by auto
    then have f: "filter (\<lambda>l. dl_id l \<notin> set ?rs) adds = adds" unfolding filter_id_conv by blast
    have "?up l = l" if "l \<in> set adds" for l
    proof -
      have "map_of ?us (dl_id l) = None" using none h [OF that] by blast
      then show ?thesis by (simp only: option.case)
    qed
    then have "map ?up adds = adds" by (rule map_idI)
    then show ?thesis unfolding f .
  qed
  have L: "mset (map link_content (map ?up (filter (\<lambda>l. dl_id l \<notin> set ?rs) ls)))
      = image_mset (\<lambda>l. link_content (?up l)) (filter_mset (\<lambda>l. dl_id l \<notin> set ?rs) (mset kept + mset (map fst pairs) + mset dropped))"
    unfolding part [symmetric] by (simp add: mset_filter comp_def)
  have K: "filter_mset (\<lambda>l. dl_id l \<notin> set ?rs) (mset kept) = mset kept" "filter_mset (\<lambda>l. dl_id l \<notin> set ?rs) (mset (map fst pairs)) = mset (map fst pairs)"
    "filter_mset (\<lambda>l. dl_id l \<notin> set ?rs) (mset dropped) = {#}"
    using all by (auto simp: filter_mset_eq_conv)
  have U: "link_content (?up l) = link_content (l\<lparr>dl_props := p\<rparr>)" if "(l, p) \<in> set pairs" for l p
  proof -
    have "map_of ?us (dl_id l) = Some p" using dus that by (intro map_of_is_SomeI) (auto intro: rev_image_eqI)
    moreover have "exact_props p" using ex that by force
    ultimately show ?thesis using js_props_json [of p] by (simp add: link_content_def)
  qed
  have N: "link_content (?up l) = link_content l" if "l \<in> set kept" for l
  proof -
    have "dl_id l \<notin> dl_id ` set (map fst pairs)" using all that by auto
    then have "map_of ?us (dl_id l) = None" by (rule none)
    then show ?thesis by (simp only: option.case)
  qed
  have "mset (map link_content (map ?up (filter (\<lambda>l. dl_id l \<notin> set ?rs) ls)))
      = mset (map link_content kept) + mset (map (\<lambda>(l, p). link_content (l\<lparr>dl_props := p\<rparr>)) pairs)"
  proof -
    have "image_mset (\<lambda>l. link_content (?up l)) (mset (map fst pairs)) = mset (map (\<lambda>(l, p). link_content (l\<lparr>dl_props := p\<rparr>)) pairs)"
    proof -
      have "map (\<lambda>l. link_content (?up l)) (map fst pairs) = map (\<lambda>(l, p). link_content (l\<lparr>dl_props := p\<rparr>)) pairs"
        unfolding map_map comp_def
      proof (rule map_cong [OF refl])
        fix x assume "x \<in> set pairs"
        then show "link_content (?up (fst x)) = (case x of (l, p) \<Rightarrow> link_content (l\<lparr>dl_props := p\<rparr>))"
          using U [of "fst x" "snd x"] by (simp only: prod.collapse case_prod_beta)
      qed
      then show ?thesis by (simp only: mset_map [symmetric])
    qed
    moreover have "image_mset (\<lambda>l. link_content (?up l)) (mset kept) = mset (map link_content kept)"
    proof -
      have "map (\<lambda>l. link_content (?up l)) kept = map link_content kept" by (rule map_cong [OF refl]) (rule N)
      then show ?thesis by (simp only: mset_map [symmetric])
    qed
    ultimately show ?thesis unfolding L by (simp only: filter_union_mset K image_mset_union image_mset_empty add_0_right)
  qed
  then show ?thesis unfolding upd rem using A by simp
qed

lemma map_of_put_if_at: "map_of (put_if c k v m) j = (if j = k \<and> c then Some v else map_of m j)"
  by (simp add: put_if_def)

lemma js_list_opt: "js_list (if vs \<noteq> [] then Some (GList vs) else None) = vs"
  by simp

definition changed_props :: "draft \<Rightarrow> draft \<Rightarrow> (string, gval) gomap" where
  "changed_props from to = map (\<lambda>k. (k, the (pget (d_props to) k)))
     (filter (\<lambda>k. \<not> (case pget (d_props from) k of Some w \<Rightarrow> deep_equal (the (pget (d_props to) k)) w | None \<Rightarrow> False))
        (mkeys (pmap (d_props to))))"

definition dropped_props :: "draft \<Rightarrow> draft \<Rightarrow> string list" where
  "dropped_props from to = filter (\<lambda>k. pget (d_props to) k = None) (mkeys (pmap (d_props from)))"

definition link_diff :: "draft \<Rightarrow> draft \<Rightarrow> draft_link list \<times> (string \<times> props) list \<times> string list" where
  "link_diff from to = (let (used, rest) = keep_links (d_links to) (replicate (length (d_links to)) False) (d_links from);
       (used2, ups, rems) = change_links (d_links to) used rest
     in (map (\<lambda>i. d_links to ! i) (filter (\<lambda>i. \<not> used2 ! i) [0..<length (d_links to)]), ups, rems))"

lemma draft_diff_lookup:
  assumes "link_diff from to = (adds, ups, rems)"
  shows "pget (draft_diff from to) k =
    (if k = ''removeLinks'' \<and> rems \<noteq> [] then Some (GList (map (\<lambda>i. GMap [(''id'', GStr i)]) rems))
     else if k = ''updateLinks'' \<and> ups \<noteq> [] then Some (GList (map (\<lambda>(i, p). GMap [(''id'', GStr i), (''props'', pany p)]) ups))
     else if k = ''addLinks'' \<and> adds \<noteq> [] then Some (GList (map add_value adds))
     else if k = ''deleted'' \<and> d_deleted to \<noteq> d_deleted from then Some (GBool (d_deleted to))
     else if k = ''state'' \<and> d_state to \<noteq> d_state from then Some (GMap [(''from'', GStr (d_state from)), (''to'', GStr (d_state to))])
     else if k = ''owner'' \<and> d_owner to \<noteq> d_owner from then Some (GStr (url_string (d_owner to)))
     else if k = ''unset'' \<and> dropped_props from to \<noteq> [] then Some (GStrs (dropped_props from to))
     else if k = ''props'' \<and> changed_props from to \<noteq> [] then Some (GMap (changed_props from to))
     else None)"
proof -
  let ?tos = "d_links to"
  obtain used rest where k: "keep_links ?tos (replicate (length ?tos) False) (d_links from) = (used, rest)" by fastforce
  obtain used2 where c: "change_links ?tos used rest = (used2, ups, rems)"
    and adds: "map (\<lambda>i. ?tos ! i) (filter (\<lambda>i. \<not> used2 ! i) [0..<length ?tos]) = adds"
    using assms k by (auto simp: link_diff_def split: prod.splits)
  have p: "pget (if m = [] then None else Some m) j = map_of m j" for m j by (simp add: pget_def)
  show ?thesis
    unfolding draft_diff_def Let_def changed_props_def [symmetric] dropped_props_def [symmetric] k c prod.case adds p map_of_put_if_at
    by (simp only: map_of.simps changed_props_def map_is_Nil_conv)
qed

lemma link_diff_parts:
  assumes "link_diff from to = (adds, ups, rems)"
  shows "\<exists>kept pairs dropped. ups = map (\<lambda>(l, p). (dl_id l, p)) pairs \<and> rems = map dl_id dropped
    \<and> mset (d_links from) = mset kept + mset (map fst pairs) + mset dropped \<and> set (map snd pairs) \<subseteq> dl_props ` set (d_links to)
    \<and> set adds \<subseteq> set (d_links to)
    \<and> mset (map link_content (d_links to)) = mset (map link_content kept)
        + mset (map (\<lambda>(l, p). link_content (l\<lparr>dl_props := p\<rparr>)) pairs) + mset (map link_content adds)"
proof -
  let ?tos = "d_links to" and ?u0 = "replicate (length (d_links to)) False"
  obtain used rest where k: "keep_links ?tos ?u0 (d_links from) = (used, rest)" by fastforce
  obtain used2 where c: "change_links ?tos used rest = (used2, ups, rems)"
    and adds: "adds = map ((!) ?tos) (filter (\<lambda>i. \<not> used2 ! i) [0..<length ?tos])"
    using assms k by (auto simp: link_diff_def split: prod.splits)
  have u0: "sel ?tos ?u0 = {#}" by (simp add: sel_def filter_empty_conv)
  obtain kept where K: "length used = length ?tos" "mset (d_links from) = mset kept + mset rest"
    "image_mset link_content (sel ?tos used) = mset (map link_content kept)"
    using keep_links_sel [OF _ k] u0 by auto
  obtain pairs dropped where P: "ups = map (\<lambda>(l, p). (dl_id l, p)) pairs" "rems = map dl_id dropped"
    "mset rest = mset (map fst pairs) + mset dropped" "set (map snd pairs) \<subseteq> dl_props ` set ?tos"
    "image_mset link_content (sel ?tos used2) = mset (map link_content kept) + mset (map (\<lambda>(l, p). link_content (l\<lparr>dl_props := p\<rparr>)) pairs)"
    using change_links_sel [OF K(1) c] K(3) by auto
  have "mset ?tos = sel ?tos used2 + mset adds"
  proof -
    have "mset ?tos = mset (map ((!) ?tos) [0..<length ?tos])" by (simp add: map_nth)
    also have "\<dots> = image_mset ((!) ?tos) (filter_mset ((!) used2) (mset [0..<length ?tos]) + filter_mset (\<lambda>i. \<not> used2 ! i) (mset [0..<length ?tos]))"
      by (simp only: mset_map multiset_partition [symmetric])
    finally show ?thesis by (simp add: sel_def adds mset_filter)
  qed
  then have "mset (map link_content ?tos) = image_mset link_content (sel ?tos used2) + mset (map link_content adds)"
    by (simp only: mset_map image_mset_union)
  moreover have "set adds \<subseteq> set ?tos" by (auto simp: adds)
  ultimately show ?thesis using K P
    by (intro exI [of _ kept] exI [of _ pairs] exI [of _ dropped]) (simp add: ac_simps)
qed

lemma unmarshal_valid: "validate u \<Longrightarrow> u_version u \<le> max_int \<Longrightarrow> unmarshal_text (url_string u) = Some u \<and> \<not> url_is_zero u"
proof -
  assume v: "validate u" "u_version u \<le> max_int"
  have "parse (url_string u) = Some u" by (rule parse_url_string [OF v])
  then have "url_string u \<noteq> []" by (auto simp: parse_def)
  then show ?thesis using \<open>parse (url_string u) = Some u\<close> v by (auto simp: unmarshal_text_def validate_def url_is_zero_def)
qed

lemma patched_props_lookup:
  "pget (patched_props ps p) k = (if k \<in> set (dp_unset p) then None
     else (case pget (dp_props p) k of Some v \<Rightarrow> Some v | None \<Rightarrow> pget ps k))"
proof -
  have del: "map_of (foldl (\<lambda>m k. mdel k m) m ks) k = (if k \<in> set ks then None else map_of m k)" for m :: "(string, gval) gomap" and ks
    by (induction ks arbitrary: m) auto
  show ?thesis by (auto simp: patched_props_def pget_def del map_add_def split: option.splits)
qed

lemma changed_props_lookup: "map_of (changed_props from to) k =
    (if pget (d_props to) k \<noteq> None \<and> \<not> (case pget (d_props from) k of Some w \<Rightarrow> deep_equal (the (pget (d_props to) k)) w | None \<Rightarrow> False)
     then pget (d_props to) k else None)"
  by (auto simp: changed_props_def map_of_selected pget_def dom_def)

lemma exact_props_values: "exact_props p \<Longrightarrow> pget p k = Some v \<Longrightarrow> exact_val v"
  by (force simp: exact_props_def pget_def list_all_iff dest!: map_of_SomeD)

text \<open>What the patch of a difference decodes to, part by part.\<close>

lemma diff_patch_parts:
  assumes "link_diff from to = (adds, ups, rems)" and "d_owner to = zero_url \<or> d_owner to = d_owner from \<or> (validate (d_owner to) \<and> u_version (d_owner to) \<le> max_int)"
  shows "dp_props (patch_of (draft_diff from to)) = (if changed_props from to \<noteq> [] then js_props (Some (GMap (changed_props from to))) else None)"
    and "dp_unset (patch_of (draft_diff from to)) = dropped_props from to"
    and "dp_owner (patch_of (draft_diff from to)) = (if d_owner to = d_owner from then zero_url else d_owner to)"
    and "dp_deleted (patch_of (draft_diff from to)) = (if d_deleted to \<noteq> d_deleted from then Some (d_deleted to) else None)"
    and "dp_state (patch_of (draft_diff from to)) = (if d_state to \<noteq> d_state from then Some (d_state from, d_state to) else None)"
    and "links_of (dp_add_link (patch_of (draft_diff from to))) (dp_add_links (patch_of (draft_diff from to)))
      = map (\<lambda>l. patch_link_of (add_value l)) adds"
    and "links_of (dp_update_link (patch_of (draft_diff from to))) (dp_update_links (patch_of (draft_diff from to))) = map patch_update ups"
    and "links_of (dp_remove_link (patch_of (draft_diff from to))) (dp_remove_links (patch_of (draft_diff from to))) = map patch_remove rems"
proof -
  note L = draft_diff_lookup [OF assms(1)]
  have zero: "unmarshal_text (url_string zero_url) = Some zero_url"
    by (simp add: url_is_zero_def unmarshal_text_def url_string_def zero_url_def)
  have owner: "(case pget (draft_diff from to) ''owner'' of Some (GStr s) \<Rightarrow> unmarshal_text s | _ \<Rightarrow> Some zero_url)
      = Some (if d_owner to = d_owner from then zero_url else d_owner to)"
    using assms(2) unmarshal_valid [of "d_owner to"] zero by (auto simp: L)
  show "dp_props (patch_of (draft_diff from to)) = (if changed_props from to \<noteq> [] then js_props (Some (GMap (changed_props from to))) else None)"
    "dp_unset (patch_of (draft_diff from to)) = dropped_props from to"
    "dp_owner (patch_of (draft_diff from to)) = (if d_owner to = d_owner from then zero_url else d_owner to)"
    "dp_deleted (patch_of (draft_diff from to)) = (if d_deleted to \<noteq> d_deleted from then Some (d_deleted to) else None)"
    "dp_state (patch_of (draft_diff from to)) = (if d_state to \<noteq> d_state from then Some (d_state from, d_state to) else None)"
    "links_of (dp_add_link (patch_of (draft_diff from to))) (dp_add_links (patch_of (draft_diff from to)))
      = map (\<lambda>l. patch_link_of (add_value l)) adds"
    "links_of (dp_update_link (patch_of (draft_diff from to))) (dp_update_links (patch_of (draft_diff from to))) = map patch_update ups"
    "links_of (dp_remove_link (patch_of (draft_diff from to))) (dp_remove_links (patch_of (draft_diff from to))) = map patch_remove rems"
    unfolding patch_of_def Let_def owner
    by (auto simp: L links_of_def patch_update_def patch_remove_def)
qed

lemma patch_draft_parts:
  "d_props (patch_draft d e) = patched_props (d_props d) (patch_of (e_patch e))"
  "d_owner (patch_draft d e) = (if url_is_zero (dp_owner (patch_of (e_patch e))) then d_owner d else dp_owner (patch_of (e_patch e)))"
  "d_state (patch_draft d e) = (case dp_state (patch_of (e_patch e)) of None \<Rightarrow> d_state d | Some (_, t) \<Rightarrow> t)"
  "d_deleted (patch_draft d e) = (case dp_deleted (patch_of (e_patch e)) of None \<Rightarrow> d_deleted d | Some b \<Rightarrow> b)"
  "d_links (patch_draft d e) = patched_links (d_links d) (patch_of (e_patch e))"
  by (simp_all add: patch_draft_def Let_def)

lemma diff_props_round_trip:
  assumes "exact_props (d_props to)" and "dp_props p = (if changed_props from to \<noteq> [] then js_props (Some (GMap (changed_props from to))) else None)"
    and "dp_unset p = dropped_props from to"
  shows "map_option json_of (pget (patched_props (d_props from) p) k) = map_option json_of (pget (d_props to) k)"
proof -
  have dp: "pget (dp_props p) k = map_option reread (map_of (changed_props from to) k)"
    by (simp add: assms(2) pget_def map_of_map_prod)
  show ?thesis
  proof (cases "pget (d_props to) k")
    case None
    then have "map_of (changed_props from to) k = None" by (simp add: changed_props_lookup)
    moreover have "k \<in> set (dropped_props from to) \<or> pget (d_props from) k = None"
      using None by (auto simp: dropped_props_def pget_def dom_def)
    ultimately show ?thesis using None dp by (auto simp: patched_props_lookup assms(3))
  next
    case (Some v)
    have nu: "k \<notin> set (dropped_props from to)" using Some by (simp add: dropped_props_def)
    show ?thesis
    proof (cases "map_of (changed_props from to) k")
      case None
      then obtain w where "pget (d_props from) k = Some w" "deep_equal v w"
        using Some by (auto simp: changed_props_lookup split: option.splits if_splits)
      then show ?thesis using Some None dp nu deep_equal_json by (auto simp: patched_props_lookup assms(3))
    next
      case (Some v')
      then have "v' = v" using \<open>pget (d_props to) k = Some v\<close> by (auto simp: changed_props_lookup split: if_splits)
      moreover have "exact_val v" by (rule exact_props_values [OF assms(1) \<open>pget (d_props to) k = Some v\<close>])
      ultimately show ?thesis using Some \<open>pget (d_props to) k = Some v\<close> dp nu json_reread
        by (simp add: patched_props_lookup assms(3))
    qed
  qed
qed

lemma diff_links_round_trip:
  assumes "distinct (map dl_id (d_links from))" and "set (map dl_id (d_links to)) \<inter> set (map dl_id (d_links from)) = {}"
    and "\<forall>l \<in> set (d_links to). link_wf l" and ld: "link_diff from to = (adds, ups, rems)"
    and ps: "links_of (dp_add_link p) (dp_add_links p) = map (\<lambda>l. patch_link_of (add_value l)) adds"
      "links_of (dp_update_link p) (dp_update_links p) = map patch_update ups"
      "links_of (dp_remove_link p) (dp_remove_links p) = map patch_remove rems"
  shows "mset (map link_content (patched_links (d_links from) p)) = mset (map link_content (d_links to))"
proof -
  obtain kept pairs dropped where P: "ups = map (\<lambda>(l, p). (dl_id l, p)) pairs" "rems = map dl_id dropped"
    "mset (d_links from) = mset kept + mset (map fst pairs) + mset dropped"
    "set (map snd pairs) \<subseteq> dl_props ` set (d_links to)" "set adds \<subseteq> set (d_links to)"
    "mset (map link_content (d_links to)) = mset (map link_content kept)
        + mset (map (\<lambda>(l, p). link_content (l\<lparr>dl_props := p\<rparr>)) pairs) + mset (map link_content adds)"
    using link_diff_parts [OF ld] by blast
  let ?adds = "map (\<lambda>l. added_link (patch_link_of (add_value l))) adds"
  have ac: "link_content (added_link (patch_link_of (add_value l))) = link_content l"
    "dl_id (added_link (patch_link_of (add_value l))) = dl_id l" if "l \<in> set adds" for l
    using added_content assms(3) P(5) that by blast+
  have aid: "set (map dl_id ?adds) \<inter> set (map dl_id (d_links from)) = {}"
    using ac(2) assms(2) P(5) by auto
  have ex: "\<forall>p \<in> set (map snd pairs). exact_props p" using P(4) assms(3) by (auto simp: link_wf_def)
  have "mset (map link_content (patched_links (d_links from) p)) = mset (map link_content kept)
      + mset (map (\<lambda>(l, p). link_content (l\<lparr>dl_props := p\<rparr>)) pairs) + mset (map link_content ?adds)"
    unfolding patched_links_def ps P(1,2)
    using patched_links_content [OF assms(1) P(3) aid ex] by (simp add: comp_def)
  moreover have "map link_content ?adds = map link_content adds" using ac(1) by simp
  ultimately show ?thesis unfolding P(6) by (simp only:)
qed

text \<open>
  C15. The patch of a difference, applied to the draft it starts from, gives of the draft it leads to:
  the properties, as the JSON they are written as; the state and the deletion mark; the owner, except
  that an owner cleared stays what it was (a patch carries no reset); and the links, up to their order
  and their ids. Given that the links of the start have distinct ids which the links of the target do
  not have (the rebases number them apart), that these are well-formed, that the numbers of the
  properties read back from JSON as they were, and that an owner the target sets is a valid URL.
\<close>

theorem draft_diff_round_trip:
  assumes "distinct (map dl_id (d_links from))" and "set (map dl_id (d_links to)) \<inter> set (map dl_id (d_links from)) = {}"
    and "\<forall>l \<in> set (d_links to). link_wf l" and "exact_props (d_props to)"
    and "d_owner to = zero_url \<or> d_owner to = d_owner from \<or> (validate (d_owner to) \<and> u_version (d_owner to) \<le> max_int)"
    and "e_patch e = draft_diff from to"
  shows "map_option json_of (pget (d_props (patch_draft from e)) k) = map_option json_of (pget (d_props to) k)
    \<and> d_owner (patch_draft from e) = (if d_owner to = zero_url then d_owner from else d_owner to)
    \<and> d_state (patch_draft from e) = d_state to \<and> d_deleted (patch_draft from e) = d_deleted to
    \<and> mset (map link_content (d_links (patch_draft from e))) = mset (map link_content (d_links to))"
proof -
  obtain adds ups rems where ld: "link_diff from to = (adds, ups, rems)" using prod_cases3 by blast
  note p = diff_patch_parts [OF ld assms(5), folded assms(6)] and n = patch_draft_parts [of "from" e]
  have props: "map_option json_of (pget (d_props (patch_draft from e)) k) = map_option json_of (pget (d_props to) k)"
    unfolding n by (rule diff_props_round_trip [OF assms(4) p(1,2)])
  have links: "mset (map link_content (d_links (patch_draft from e))) = mset (map link_content (d_links to))"
    unfolding n by (rule diff_links_round_trip [OF assms(1-3) ld p(6-8)])
  have valid: "\<not> url_is_zero (d_owner to)" if "d_owner to \<noteq> zero_url" "d_owner to \<noteq> d_owner from"
    using assms(5) that by (auto simp: validate_def url_is_zero_def)
  have "url_is_zero zero_url" by (simp add: zero_url_def url_is_zero_def)
  then show ?thesis using props links valid by (auto simp: n p(3-5))
qed

theorem draft_diff_round_trip_witness:
  "let from = demo_draft\<lparr>d_links := [demo_link ''a'' 1]\<rparr>;
       to = demo_draft\<lparr>d_props := Some [(''b'', GInt 2)], d_state := ''s'', d_links := [demo_link ''b'' 2]\<rparr>;
       n = patch_draft from (demo_update\<lparr>e_patch := draft_diff from to\<rparr>)
   in map_option json_of (pget (d_props n) ''b'') = Some (JNum 2) \<and> pget (d_props n) ''a'' = None
      \<and> d_state n = ''s'' \<and> map link_content (d_links n) = [link_content (demo_link ''b'' 2)]"
proof -
  let ?from = "demo_draft\<lparr>d_links := [demo_link ''a'' 1]\<rparr>"
  let ?to = "demo_draft\<lparr>d_props := Some [(''b'', GInt 2)], d_state := ''s'', d_links := [demo_link ''b'' 2]\<rparr>"
  let ?e = "demo_update\<lparr>e_patch := draft_diff ?from ?to\<rparr>"
  have h: "distinct (map dl_id (d_links ?from))" "set (map dl_id (d_links ?to)) \<inter> set (map dl_id (d_links ?from)) = {}"
    "\<forall>l \<in> set (d_links ?to). link_wf l" "exact_props (d_props ?to)"
    "d_owner ?to = zero_url \<or> d_owner ?to = d_owner ?from \<or> (validate (d_owner ?to) \<and> u_version (d_owner ?to) \<le> max_int)"
    "e_patch ?e = draft_diff ?from ?to"
    by (simp_all add: demo_link_def demo_draft_def link_wf_def exact_props_def draft_link_external_def ref_is_zero_def)
  note r = draft_diff_round_trip [OF h]
  have "mset (map link_content (d_links (patch_draft ?from ?e))) = {#link_content (demo_link ''b'' 2)#}" using r by simp
  then have "map link_content (d_links (patch_draft ?from ?e)) = [link_content (demo_link ''b'' 2)]"
    by (simp only: mset_single_iff)
  moreover have "d_state (patch_draft ?from ?e) = ''s''" using r by simp
  moreover have "map_option json_of (pget (d_props (patch_draft ?from ?e)) ''b'') = Some (JNum 2)"
    "map_option json_of (pget (d_props (patch_draft ?from ?e)) ''a'') = None"
    using r [of "''b''"] r [of "''a''"] by simp_all
  ultimately show ?thesis by (simp only: Let_def option.map_disc_iff simp_thms)
qed

end
