(* ===== verification/Items.thy ===== *)
theory Items
  imports Events
begin

text \<open>
  The facts of the blackboard of a change: contracts/domain/change.go (items), the payloads of
  flow.go and decision.go, and the deltas of a review (reviewrecord.go), with their validation. A
  nil error is None; a message is a value of an error type. A use case registers the validator of
  its own kinds of item: the registry is an argument. The numbers of a payload are the rationals of
  its float64 values.
\<close>

subsection \<open>Payloads\<close>

record option_spec =
  os_name :: string
  os_hypothesis :: string
  os_intent :: string

record flow_event =
  fe_op :: string
  fe_flow :: string
  fe_parent :: string
  fe_fork_after :: string
  fe_stale :: "string list"
  fe_stale_runs :: "string list"
  fe_origin :: props
  fe_by :: string
  fe_option :: "option_spec option"
  fe_comment :: string

record decision_event =
  de_op :: string
  de_point :: string
  de_question :: string
  de_options :: "string list"
  de_criteria :: "string list"
  de_policy :: props
  de_outcome :: string
  de_option :: string
  de_confidence :: rat
  de_justification :: string
  de_questions :: "string list"
  de_human :: bool
  de_question_id :: string
  de_answer :: string
  de_process :: string
  de_accept :: bool
  de_comment :: string
  de_by :: string
  de_role :: string

record decision =
  dc_item :: string
  dc_accept :: bool
  dc_comment :: string

record item =
  it_id :: string
  it_type :: string
  it_target :: string
  it_status :: string
  it_flow :: string
  it_flow_event :: "flow_event option"
  it_decision_event :: "decision_event option"
  it_decision :: "decision option"
  it_recipient :: string
  it_data :: props
  it_produced_by :: string
  it_derived_from :: "string list"
  it_supersedes :: "string list"
  it_execution :: string
  it_created_at :: time

definition valid_option_intent :: "string \<Rightarrow> bool" where
  "valid_option_intent s \<longleftrightarrow> s \<in> set ['''', ''derive'', ''revise'', ''refine'']"

datatype item_error = FlowNeedsFlow | UnknownFlowOp string | NeedsDecisionEvent | NeedsQuestion
  | NeedsPoint string | NeedsPointAndQuestion | UnknownDecisionOp string | NeedsDecisionItem
  | NeedsSignalName | NeedsTo | ReviewNeedsKey | BadReviewStatus | EntryNeedsImpact
  | EntryTwice string | BadOutcome | RegisteredError string

definition validate_flow_event :: "flow_event option \<Rightarrow> item_error option" where
  "validate_flow_event fe = (case fe of None \<Rightarrow> Some FlowNeedsFlow
     | Some e \<Rightarrow> if fe_flow e = [] then Some FlowNeedsFlow
         else if fe_op e \<in> set [''open'', ''adopt'', ''discard'', ''activate'', ''deactivate'', ''evaluate''] then None
         else Some (UnknownFlowOp (fe_op e)))"

definition validate_decision_event :: "decision_event option \<Rightarrow> item_error option" where
  "validate_decision_event de = (case de of None \<Rightarrow> Some NeedsDecisionEvent
     | Some e \<Rightarrow>
         if de_op e = ''open'' then (if de_question e = [] then Some NeedsQuestion else None)
         else if de_op e = ''rule'' \<or> de_op e = ''ratify'' then (if de_point e = [] then Some (NeedsPoint (de_op e)) else None)
         else if de_op e = ''answer'' then (if de_point e = [] \<or> de_question_id e = [] then Some NeedsPointAndQuestion else None)
         else Some (UnknownDecisionOp (de_op e)))"

subsection \<open>Deltas of a review\<close>

record entry_edit =
  ee_impact :: string
  ee_comment :: "string option"
  ee_outcome :: "string option"
  ee_by :: string

record review_delta =
  rd_key :: string
  rd_status :: string
  rd_comment :: "string option"
  rd_by :: string
  rd_remove :: "string list"
  rd_entries :: "entry_edit list"

text \<open>
  The value most entries hold of a field, the first to reach its count, and the count: the loop keeps
  the count of each value, the best value and its count.
\<close>

fun count_value :: "string \<Rightarrow> (string \<Rightarrow> nat) \<times> string \<times> nat \<Rightarrow> (string, gval) gomap \<Rightarrow> (string \<Rightarrow> nat) \<times> string \<times> nat" where
  "count_value f (cnt, best, n) m = (case map_of m f of
     Some (GStr v) \<Rightarrow> let c = cnt v + 1 in
       (cnt(v := c), if c > n then (v, c) else (best, n))
   | _ \<Rightarrow> (cnt, best, n))"

definition best_value :: "string \<Rightarrow> (string, gval) gomap list \<Rightarrow> string \<times> nat" where
  "best_value f ms = snd (foldl (count_value f) (\<lambda>_. 0, [], 0) ms)"

definition leave_default :: "string \<Rightarrow> string \<Rightarrow> (string, gval) gomap \<Rightarrow> (string, gval) gomap" where
  "leave_default f best m = (case map_of m f of
     Some v \<Rightarrow> if v = GStr best then mdel f m else m
   | None \<Rightarrow> mput f GNil m)"

definition default_field :: "(string, gval) gomap \<times> (string, gval) gomap list \<Rightarrow> string
    \<Rightarrow> (string, gval) gomap \<times> (string, gval) gomap list" where
  "default_field r f = (case r of (defaults, ms) \<Rightarrow>
     let (best, n) = best_value f ms in
     if n < 2 then (defaults, ms) else (mput f (GStr best) defaults, map (leave_default f best) ms))"

definition entry_fields :: "string list" where
  "entry_fields = [''outcome'', ''comment'', ''by'']"

definition entry_defaults :: "(string, gval) gomap list \<Rightarrow> (string, gval) gomap \<times> (string, gval) gomap list" where
  "entry_defaults ms = (if length ms < 2 then ([], ms) else foldl default_field ([], ms) entry_fields)"

definition put_opt :: "string \<Rightarrow> string option \<Rightarrow> (string, gval) gomap \<Rightarrow> (string, gval) gomap" where
  "put_opt k v m = (case v of None \<Rightarrow> m | Some s \<Rightarrow> mput k (GStr s) m)"

definition put_str :: "string \<Rightarrow> string \<Rightarrow> (string, gval) gomap \<Rightarrow> (string, gval) gomap" where
  "put_str k s m = (if s = [] then m else mput k (GStr s) m)"

definition entry_map :: "entry_edit \<Rightarrow> (string, gval) gomap" where
  "entry_map e = put_str ''by'' (ee_by e) (put_opt ''outcome'' (ee_outcome e)
     (put_opt ''comment'' (ee_comment e) [(''impact'', GStr (ee_impact e))]))"

definition entry_value :: "(string, gval) gomap \<Rightarrow> gval" where
  "entry_value m = (if msize m = 1 then (case map_of m ''impact'' of Some v \<Rightarrow> v | None \<Rightarrow> GNil) else GMap m)"

definition delta_data :: "review_delta \<Rightarrow> props" where
  "delta_data d = (
     let m1 = put_str ''by'' (rd_by d) (put_opt ''comment'' (rd_comment d)
            (put_str ''status'' (rd_status d) [(''key'', GStr (rd_key d))]));
         m2 = (if rd_remove d = [] then m1 else mput ''remove'' (GList (map GStr (rd_remove d))) m1);
         (defaults, ms) = entry_defaults (map entry_map (rd_entries d));
         m3 = (if defaults = [] then m2 else mput ''defaults'' (GMap defaults) m2)
     in Some (if rd_entries d = [] then m2 else mput ''entries'' (GList (map entry_value ms)) m3))"

text \<open>Reading a delta: strings are trimmed, null is a field left unset.\<close>

definition review_string :: "props \<Rightarrow> string \<Rightarrow> string" where
  "review_string d k = trim (str_of (pget d k))"

definition review_optional :: "props \<Rightarrow> string \<Rightarrow> string option" where
  "review_optional d k = (case pget d k of None \<Rightarrow> None | Some GNil \<Rightarrow> None | Some v \<Rightarrow> Some (trim (str_of (Some v))))"

fun review_list :: "gval option \<Rightarrow> gval list" where
  "review_list (Some (GList vs)) = vs"
| "review_list (Some (GStrs ss)) = map GStr ss"
| "review_list _ = []"

definition edit_of :: "(string, gval) gomap \<Rightarrow> (string, gval) gomap \<Rightarrow> entry_edit" where
  "edit_of defaults m = (let full = Some (m @ filter (\<lambda>(f, v). map_of m f = None) defaults)
     in \<lparr>ee_impact = review_string full ''impact'', ee_comment = review_optional full ''comment'',
          ee_outcome = review_optional full ''outcome'', ee_by = review_string full ''by''\<rparr>)"

fun entry_of :: "(string, gval) gomap \<Rightarrow> gval \<Rightarrow> entry_edit option" where
  "entry_of defaults (GMap m) = Some (edit_of defaults m)"
| "entry_of defaults (GStr s) = Some (edit_of defaults [(''impact'', GStr s)])"
| "entry_of _ _ = None"

definition delta_of :: "props \<Rightarrow> review_delta" where
  "delta_of d = (let defaults = (case map_of_val (pget d ''defaults'') of None \<Rightarrow> [] | Some m \<Rightarrow> m) in
     \<lparr>rd_key = review_string d ''key'', rd_status = review_string d ''status'', rd_comment = review_optional d ''comment'',
      rd_by = review_string d ''by'', rd_remove = map trim (List.map_filter as_str (review_list (pget d ''remove''))),
      rd_entries = List.map_filter (entry_of defaults) (review_list (pget d ''entries''))\<rparr>)"

definition valid_review_status :: "string \<Rightarrow> bool" where
  "valid_review_status s \<longleftrightarrow> s = ''open'' \<or> s = ''submitted'' \<or> s = ''discarded''"

fun check_entries :: "string list \<Rightarrow> entry_edit list \<Rightarrow> item_error option" where
  "check_entries seen [] = None"
| "check_entries seen (e # es) = (if ee_impact e = [] then Some EntryNeedsImpact
     else if ee_impact e \<in> set seen then Some (EntryTwice (ee_impact e))
     else (case ee_outcome e of
         Some oc \<Rightarrow> if oc \<noteq> [] \<and> oc \<noteq> ''accept'' \<and> oc \<noteq> ''reject'' then Some BadOutcome
           else check_entries (ee_impact e # seen) es
       | None \<Rightarrow> check_entries (ee_impact e # seen) es))"

definition validate_review :: "item \<Rightarrow> item_error option" where
  "validate_review it = (let d = delta_of (it_data it) in
     if rd_key d = [] then Some ReviewNeedsKey
     else if rd_status d \<noteq> [] \<and> \<not> valid_review_status (rd_status d) then Some BadReviewStatus
     else check_entries [] (rd_entries d))"

subsection \<open>Items\<close>

text \<open>The validators registered by the use cases, and the permissions their kinds ask for.\<close>

type_synonym validators = "(string, item \<Rightarrow> item_error option) gomap"

record item_permission =
  ip_permission :: string
  ip_subject_field :: string

definition register_item_type :: "validators \<Rightarrow> string \<Rightarrow> (item \<Rightarrow> item_error option) option \<Rightarrow> validators" where
  "register_item_type reg kind vd = mput kind (case vd of None \<Rightarrow> (\<lambda>_. None) | Some v \<Rightarrow> v) reg"

definition require_item_permission :: "(string, item_permission) gomap \<Rightarrow> string \<Rightarrow> item_permission \<Rightarrow> (string, item_permission) gomap" where
  "require_item_permission perms kind p = mput kind p perms"

definition item_permission_of :: "(string, item_permission) gomap \<Rightarrow> string \<Rightarrow> item_permission option" where
  "item_permission_of perms kind = map_of perms kind"

definition validate_item :: "validators \<Rightarrow> item \<Rightarrow> item_error option" where
  "validate_item reg it =
     (if it_type it = ''flow'' then validate_flow_event (it_flow_event it)
      else if it_type it = ''decision_point'' then validate_decision_event (it_decision_event it)
      else if it_type it = ''decision'' then (case it_decision it of None \<Rightarrow> Some NeedsDecisionItem
          | Some d \<Rightarrow> if dc_item d = [] then Some NeedsDecisionItem else None)
      else if it_type it = ''artifact'' then None
      else if it_type it = ''signal'' then (if it_target it = [] then Some NeedsSignalName else None)
      else if it_type it = ''transition'' then (if str_of (pget (it_data it) ''to'') = [] then Some NeedsTo else None)
      else if it_type it = ''review'' then validate_review it
      else (case map_of reg (it_type it) of None \<Rightarrow> None | Some v \<Rightarrow> v it))"

subsection \<open>Reading back the defaults of a delta\<close>

text \<open>What the reader sees of a field of an entry, with the defaults of its delta.\<close>

definition seen_field :: "(string, gval) gomap \<Rightarrow> (string, gval) gomap \<Rightarrow> string \<Rightarrow> gval option" where
  "seen_field defaults m f = (case map_of m f of Some v \<Rightarrow> Some v | None \<Rightarrow> map_of defaults f)"

definition same_field :: "gval option \<Rightarrow> gval option \<Rightarrow> bool" where
  "same_field a b \<longleftrightarrow> (a = b \<or> a \<in> {None, Some GNil} \<and> b \<in> {None, Some GNil})"

lemma map_of_full: "map_of (m @ filter (\<lambda>(f, v). map_of m f = None) defaults) k = seen_field defaults m k"
proof -
  have "map_of (filter (\<lambda>(f, v). map_of m f = None) defaults) k = (if map_of m k = None then map_of defaults k else None)"
    by (induction defaults) auto
  then show ?thesis by (auto simp: seen_field_def map_add_def split: option.splits)
qed

lemma edit_of_seen: "edit_of defaults m = \<lparr>ee_impact = trim (str_of (seen_field defaults m ''impact'')),
    ee_comment = (case seen_field defaults m ''comment'' of None \<Rightarrow> None | Some GNil \<Rightarrow> None | Some v \<Rightarrow> Some (trim (str_of (Some v)))),
    ee_outcome = (case seen_field defaults m ''outcome'' of None \<Rightarrow> None | Some GNil \<Rightarrow> None | Some v \<Rightarrow> Some (trim (str_of (Some v)))),
    ee_by = trim (str_of (seen_field defaults m ''by''))\<rparr>"
  by (simp only: edit_of_def Let_def review_string_def review_optional_def pget_simps map_of_full)

lemma same_field_reads:
  assumes "same_field a b"
  shows "str_of a = str_of b"
    and "(case a of None \<Rightarrow> None | Some GNil \<Rightarrow> None | Some v \<Rightarrow> Some (trim (str_of (Some v))))
      = (case b of None \<Rightarrow> None | Some GNil \<Rightarrow> None | Some v \<Rightarrow> Some (trim (str_of (Some v))))"
  using assms by (auto simp: same_field_def)

lemma edit_of_cong:
  assumes "\<And>f. same_field (seen_field d m f) (seen_field d' m' f)"
  shows "edit_of d m = edit_of d' m'"
  unfolding edit_of_seen using same_field_reads [OF assms] by (simp only:)

lemma same_field_refl [simp]: "same_field a a"
  by (simp add: same_field_def)

lemma same_field_trans: "same_field a b \<Longrightarrow> same_field b c \<Longrightarrow> same_field a c"
  by (auto simp: same_field_def)

lemma default_field_seen:
  assumes "default_field (d, ms) f = (d', ms')" and "map_of d f = None"
  shows "length ms' = length ms \<and> (\<forall>g. g \<noteq> f \<longrightarrow> map_of d' g = map_of d g)
    \<and> (\<forall>i < length ms. \<forall>g. same_field (seen_field d' (ms' ! i) g) (seen_field d (ms ! i) g)
        \<and> map_of (ms' ! i) ''impact'' = (if f = ''impact'' then map_of (ms' ! i) ''impact'' else map_of (ms ! i) ''impact''))"
  using assms
  by (auto simp: default_field_def leave_default_def seen_field_def same_field_def split: prod.splits if_splits option.splits)

lemma entry_defaults_seen:
  assumes "entry_defaults ms = (d, ms')"
  shows "length ms' = length ms \<and> (\<forall>i < length ms. edit_of d (ms' ! i) = edit_of [] (ms ! i)
    \<and> map_of (ms' ! i) ''impact'' = map_of (ms ! i) ''impact'')"
proof (cases "length ms < 2")
  case True
  then show ?thesis using assms by (simp add: entry_defaults_def)
next
  case False
  obtain d1 m1 where s1: "default_field ([], ms) ''outcome'' = (d1, m1)" by fastforce
  obtain d2 m2 where s2: "default_field (d1, m1) ''comment'' = (d2, m2)" by fastforce
  have s3: "default_field (d2, m2) ''by'' = (d, ms')"
    using assms False s1 s2 by (simp add: entry_defaults_def entry_fields_def)
  note r1 = default_field_seen [OF s1] and r2 = default_field_seen [OF s2] and r3 = default_field_seen [OF s3]
  have n: "map_of d1 ''comment'' = None" "map_of d1 ''by'' = None" using r1 by simp_all
  then have "map_of d2 ''by'' = None" using r2 by simp
  note R = r1 [simplified] r2 [OF n(1)] r3 [OF this]
  have "same_field (seen_field d (ms' ! i) g) (seen_field [] (ms ! i) g)" if "i < length ms" for i g
  proof -
    have "same_field (seen_field d (ms' ! i) g) (seen_field d2 (m2 ! i) g)" using R that by simp
    moreover have "same_field (seen_field d2 (m2 ! i) g) (seen_field d1 (m1 ! i) g)" using R that by simp
    moreover have "same_field (seen_field d1 (m1 ! i) g) (seen_field [] (ms ! i) g)" using R that by simp
    ultimately show ?thesis by (blast intro: same_field_trans)
  qed
  moreover have "length ms' = length ms \<and> (\<forall>i < length ms. map_of (ms' ! i) ''impact'' = map_of (ms ! i) ''impact'')"
    using R by simp
  ultimately show ?thesis by (auto intro!: edit_of_cong)
qed

text \<open>Reading trims the strings of a delta.\<close>

definition trim_edit :: "entry_edit \<Rightarrow> entry_edit" where
  "trim_edit e = \<lparr>ee_impact = trim (ee_impact e), ee_comment = map_option trim (ee_comment e), ee_outcome = map_option trim (ee_outcome e),
     ee_by = trim (ee_by e)\<rparr>"

definition trim_delta :: "review_delta \<Rightarrow> review_delta" where
  "trim_delta d = \<lparr>rd_key = trim (rd_key d), rd_status = trim (rd_status d), rd_comment = map_option trim (rd_comment d), rd_by = trim (rd_by d),
     rd_remove = map trim (rd_remove d), rd_entries = map trim_edit (rd_entries d)\<rparr>"

text \<open>How many entries hold a value of a field, and the one most hold.\<close>

definition times_held :: "string \<Rightarrow> string \<Rightarrow> (string, gval) gomap list \<Rightarrow> nat" where
  "times_held f v ms = length (filter (\<lambda>m. map_of m f = Some (GStr v)) ms)"

lemma count_loop:
  assumes "foldl (count_value f) (\<lambda>_. 0, [], 0) ms = (cnt, best, n)"
  shows "cnt = (\<lambda>v. times_held f v ms) \<and> (\<forall>v. times_held f v ms \<le> n) \<and> (n = 0 \<or> times_held f best ms = n)"
  using assms
proof (induction ms arbitrary: cnt best n rule: rev_induct)
  case Nil
  then show ?case by (auto simp: times_held_def)
next
  case (snoc m ms)
  obtain c b k where p: "foldl (count_value f) (\<lambda>_. 0, [], 0) ms = (c, b, k)" using prod_cases3 by blast
  note IH = snoc.IH [OF p]
  have e: "count_value f (c, b, k) m = (cnt, best, n)" using snoc.prems p by simp
  show ?case
  proof (cases "\<exists>v. map_of m f = Some (GStr v)")
    case True
    then obtain v where v: "map_of m f = Some (GStr v)" by blast
    have h: "times_held f w (ms @ [m]) = times_held f w ms + (if w = v then 1 else 0)" for w using v by (simp add: times_held_def)
    show ?thesis
    proof (cases "c v + 1 > k")
      case True
      then have "cnt = c(v := c v + 1) \<and> best = v \<and> n = c v + 1" using e v by (auto simp: Let_def)
      then show ?thesis using IH h True by (auto intro: le_trans le_SucI)
    next
      case False
      then have "cnt = c(v := c v + 1) \<and> best = b \<and> n = k" using e v by (auto simp: Let_def)
      then show ?thesis using IH h False by auto
    qed
  next
    case False
    then have "(cnt, best, n) = (c, b, k)" using e by (auto split: option.splits gval.splits)
    moreover have "times_held f w (ms @ [m]) = times_held f w ms" for w using False by (simp add: times_held_def)
    ultimately show ?thesis using IH by simp
  qed
qed

lemma best_value_times:
  assumes "best_value f ms = (best, n)"
  shows "times_held f v ms \<le> n \<and> (n = 0 \<or> times_held f best ms = n)"
proof -
  obtain c b k where p: "foldl (count_value f) (\<lambda>_. 0, [], 0) ms = (c, b, k)" using prod_cases3 by blast
  then have "b = best" "k = n" using assms by (simp_all add: best_value_def)
  then show ?thesis using count_loop [OF p] by blast
qed

lemma times_held_cong: "map (\<lambda>m. map_of m f) ms = map (\<lambda>m. map_of m f) ms' \<Longrightarrow> times_held f v ms = times_held f v ms'"
proof -
  have "times_held f v ms = length (filter (\<lambda>x. x = Some (GStr v)) (map (\<lambda>m. map_of m f) ms))" for ms
    by (simp add: times_held_def filter_map comp_def)
  then show "map (\<lambda>m. map_of m f) ms = map (\<lambda>m. map_of m f) ms' \<Longrightarrow> times_held f v ms = times_held f v ms'" by metis
qed

lemma default_field_keeps:
  assumes "default_field (d, ms) f = (d', ms')" and "g \<noteq> f"
  shows "map_of d' g = map_of d g \<and> map (\<lambda>m. map_of m g) ms' = map (\<lambda>m. map_of m g) ms"
  using assms by (auto simp: default_field_def leave_default_def split: prod.splits if_splits option.splits)

lemma default_fields_keep:
  "foldl default_field (d, ms) fs = (d', ms') \<Longrightarrow> g \<notin> set fs
    \<Longrightarrow> map_of d' g = map_of d g \<and> map (\<lambda>m. map_of m g) ms' = map (\<lambda>m. map_of m g) ms"
proof (induction fs arbitrary: d ms)
  case (Cons f fs)
  obtain d1 m1 where s: "default_field (d, ms) f = (d1, m1)" by fastforce
  show ?case using Cons.IH [of d1 m1] Cons.prems s default_field_keeps [OF s, of g] by simp
qed simp

lemma default_field_once:
  assumes "default_field (d, ms) f = (d', ms')" and "2 \<le> times_held f v ms"
  shows "\<exists>w. times_held f v ms \<le> times_held f w ms \<and> map_of d' f = Some (GStr w) \<and> Some (GStr w) \<notin> set (map (\<lambda>m. map_of m f) ms')"
proof -
  obtain w n where b: "best_value f ms = (w, n)" by fastforce
  have n: "times_held f v ms \<le> n" "times_held f w ms = n" "\<not> n < 2" using best_value_times [OF b, of v] assms(2) by auto
  have "d' = mput f (GStr w) d" "ms' = map (leave_default f w) ms" using assms(1) b n(3) by (auto simp: default_field_def)
  then have "map_of d' f = Some (GStr w) \<and> Some (GStr w) \<notin> set (map (\<lambda>m. map_of m f) ms')"
    by (auto simp: leave_default_def split: option.splits if_splits)
  then show ?thesis using n by blast
qed

lemma default_fields_once:
  "foldl default_field (d, ms) fs = (d', ms') \<Longrightarrow> distinct fs \<Longrightarrow> f \<in> set fs \<Longrightarrow> 2 \<le> times_held f v ms
    \<Longrightarrow> \<exists>w. times_held f v ms \<le> times_held f w ms \<and> map_of d' f = Some (GStr w) \<and> Some (GStr w) \<notin> set (map (\<lambda>m. map_of m f) ms')"
proof (induction fs arbitrary: d ms)
  case (Cons g fs)
  obtain d1 m1 where s: "default_field (d, ms) g = (d1, m1)" by fastforce
  have r: "foldl default_field (d1, m1) fs = (d', ms')" using Cons.prems(1) s by simp
  show ?case
  proof (cases "f = g")
    case True
    then show ?thesis using default_field_once [OF s [folded True] Cons.prems(4)] default_fields_keep [OF r, of f] Cons.prems(2) by auto
  next
    case False
    have "times_held f w m1 = times_held f w ms" for w using default_field_keeps [OF s False] by (intro times_held_cong) blast
    then show ?thesis using Cons.IH [OF r] Cons.prems(2-4) False by simp
  qed
qed simp

lemma entry_defaults_once:
  assumes "entry_defaults ms = (d, ms')" and "f \<in> set entry_fields" and "2 \<le> times_held f v ms"
  shows "\<exists>w. times_held f v ms \<le> times_held f w ms \<and> map_of d f = Some (GStr w) \<and> Some (GStr w) \<notin> set (map (\<lambda>m. map_of m f) ms')"
proof -
  have "times_held f v ms \<le> length ms" by (simp add: times_held_def)
  then have "foldl default_field ([], ms) entry_fields = (d, ms')" using assms(1,3) by (simp add: entry_defaults_def)
  then show ?thesis using default_fields_once [of "[]" ms entry_fields] assms(2,3) by (simp add: entry_fields_def)
qed

lemma trim_Nil [simp]: "trim [] = []"
  by (simp add: trim_def)

lemma map_of_put_opt: "map_of (put_opt k v m) j = (if j = k \<and> v \<noteq> None then map_option GStr v else map_of m j)"
  by (simp add: put_opt_def split: option.splits)

lemma map_of_put_str: "map_of (put_str k s m) j = (if j = k \<and> s \<noteq> [] then Some (GStr s) else map_of m j)"
  by (simp add: put_str_def)

lemma entry_map_impact: "map_of (entry_map e) ''impact'' = Some (GStr (ee_impact e))"
  by (simp add: entry_map_def map_of_put_opt map_of_put_str)

lemma entry_map_edit: "edit_of [] (entry_map e) = trim_edit e"
  by (cases "ee_comment e"; cases "ee_outcome e")
    (auto simp: edit_of_seen seen_field_def entry_map_def map_of_put_opt map_of_put_str trim_edit_def)

lemma entry_of_value:
  assumes "map_of m ''impact'' = Some (GStr i)"
  shows "entry_of d (entry_value m) = Some (edit_of d m)"
proof (cases "msize m = 1")
  case True
  then have "dom (map_of m) = {''impact''}"
    using assms by (metis card_1_singletonE domI msize_card singletonD)
  then have "map_of m f = None" if "f \<noteq> ''impact''" for f using that by (metis domIff singletonD)
  then have "map_of m f = map_of [(''impact'', GStr i)] f" for f
    using assms by (cases "f = ''impact''") simp_all
  then have "edit_of d m = edit_of d [(''impact'', GStr i)]"
    by (intro edit_of_cong) (simp add: seen_field_def)
  then show ?thesis using True assms by (simp add: entry_value_def)
next
  case False
  then show ?thesis by (simp add: entry_value_def)
qed

lemma map_filter_Some: "map f xs = map Some ys \<Longrightarrow> List.map_filter f xs = ys"
proof (induction xs arbitrary: ys)
  case (Cons x xs)
  then obtain z zs where "ys = z # zs" "f x = Some z" "map f xs = map Some zs" by (cases ys) simp_all
  then show ?case using Cons.IH [of zs] by (simp add: List.map_filter_simps)
qed (simp add: List.map_filter_simps)

lemma map_filter_entries:
  assumes "entry_defaults (map entry_map es) = (d, ms)"
  shows "List.map_filter (entry_of d) (map entry_value ms) = map trim_edit es"
proof -
  note h = entry_defaults_seen [OF assms(1)]
  have at: "entry_of d (entry_value (ms ! i)) = Some (trim_edit (es ! i))" if "i < length es" for i
  proof -
    have "edit_of d (ms ! i) = trim_edit (es ! i)" "map_of (ms ! i) ''impact'' = Some (GStr (ee_impact (es ! i)))"
      using h that by (simp_all add: entry_map_edit entry_map_impact)
    then show ?thesis using entry_of_value by metis
  qed
  have "map (entry_of d) (map entry_value ms) = map Some (map trim_edit es)"
    using h at by (intro nth_equalityI) simp_all
  then show ?thesis by (rule map_filter_Some)
qed

lemma delta_data_lookup:
  assumes "entry_defaults (map entry_map (rd_entries d)) = (defaults, ms)"
  shows "pget (delta_data d) k =
      (if k = ''entries'' \<and> rd_entries d \<noteq> [] then Some (GList (map entry_value ms))
       else if k = ''defaults'' \<and> rd_entries d \<noteq> [] \<and> defaults \<noteq> [] then Some (GMap defaults)
       else if k = ''remove'' \<and> rd_remove d \<noteq> [] then Some (GList (map GStr (rd_remove d)))
       else if k = ''by'' \<and> rd_by d \<noteq> [] then Some (GStr (rd_by d))
       else if k = ''comment'' \<and> rd_comment d \<noteq> None then map_option GStr (rd_comment d)
       else if k = ''status'' \<and> rd_status d \<noteq> [] then Some (GStr (rd_status d))
       else if k = ''key'' then Some (GStr (rd_key d)) else None)"
  by (cases "rd_entries d = []"; cases "defaults = []"; cases "rd_remove d = []")
    (simp_all add: delta_data_def assms map_of_put_opt map_of_put_str)

text \<open>
  C35. A review delta written as the data of its item reads back as the delta with its strings trimmed, the
  fields its entries share and the entries written as their impact alone included. A field of which two
  entries hold one value is written once: the defaults hold the value most entries hold, which no entry
  written repeats.
\<close>

theorem review_delta_round_trip:
  "delta_of (delta_data d) = trim_delta d
   \<and> (f \<in> set entry_fields \<and> 2 \<le> times_held f v (map entry_map (rd_entries d)) \<longrightarrow>
       (\<exists>dm w. map_of_val (pget (delta_data d) ''defaults'') = Some dm \<and> map_of dm f = Some (GStr w)
          \<and> times_held f v (map entry_map (rd_entries d)) \<le> times_held f w (map entry_map (rd_entries d))
          \<and> list_all (\<lambda>x. case x of GMap m \<Rightarrow> map_of m f \<noteq> Some (GStr w) | _ \<Rightarrow> True) (review_list (pget (delta_data d) ''entries''))))"
proof -
  obtain defaults ms where e: "entry_defaults (map entry_map (rd_entries d)) = (defaults, ms)" by fastforce
  note lookup = delta_data_lookup [OF e]
  have entries: "List.map_filter (entry_of defaults) (map entry_value ms) = map trim_edit (rd_entries d)"
    by (rule map_filter_entries [OF e])
  have defs: "(case map_of_val (pget (delta_data d) ''defaults'') of None \<Rightarrow> [] | Some m \<Rightarrow> m)
      = (if rd_entries d = [] then [] else defaults)"
    by (simp add: lookup)
  have es: "List.map_filter (entry_of (if rd_entries d = [] then [] else defaults)) (review_list (pget (delta_data d) ''entries''))
      = map trim_edit (rd_entries d)"
    using entries by (simp add: lookup List.map_filter_def)
  have "List.map_filter as_str (map GStr (rd_remove d)) = rd_remove d" by (rule map_filter_Some) simp
  then have rm: "map trim (List.map_filter as_str (review_list (pget (delta_data d) ''remove''))) = map trim (rd_remove d)"
    by (simp add: lookup)
  have fields: "review_string (delta_data d) ''key'' = trim (rd_key d)" "review_string (delta_data d) ''status'' = trim (rd_status d)"
    "review_string (delta_data d) ''by'' = trim (rd_by d)" "review_optional (delta_data d) ''comment'' = map_option trim (rd_comment d)"
    by (auto simp: review_string_def review_optional_def lookup split: option.splits)
  have once: "\<exists>dm w. map_of_val (pget (delta_data d) ''defaults'') = Some dm \<and> map_of dm f = Some (GStr w)
      \<and> times_held f v (map entry_map (rd_entries d)) \<le> times_held f w (map entry_map (rd_entries d))
      \<and> list_all (\<lambda>x. case x of GMap m \<Rightarrow> map_of m f \<noteq> Some (GStr w) | _ \<Rightarrow> True) (review_list (pget (delta_data d) ''entries''))"
    if h: "f \<in> set entry_fields" "2 \<le> times_held f v (map entry_map (rd_entries d))"
  proof -
    obtain w where w: "times_held f v (map entry_map (rd_entries d)) \<le> times_held f w (map entry_map (rd_entries d))"
      "map_of defaults f = Some (GStr w)" "Some (GStr w) \<notin> set (map (\<lambda>m. map_of m f) ms)"
      using entry_defaults_once [OF e h] by blast
    have ne: "rd_entries d \<noteq> []" "defaults \<noteq> []" using h(2) w(2) by (auto simp: times_held_def)
    then have "map_of_val (pget (delta_data d) ''defaults'') = Some defaults" by (simp add: lookup)
    moreover have "review_list (pget (delta_data d) ''entries'') = map entry_value ms" using ne by (simp add: lookup)
    moreover have "list_all (\<lambda>x. case x of GMap m \<Rightarrow> map_of m f \<noteq> Some (GStr w) | _ \<Rightarrow> True) (map entry_value ms)"
      unfolding list_all_iff
    proof
      fix x assume "x \<in> set (map entry_value ms)"
      then obtain i where i: "i < length ms" "x = entry_value (ms ! i)" by (auto simp: in_set_conv_nth)
      let ?m = "ms ! i"
      have m: "x = entry_value ?m" by (rule i(2))
      have "map_of ?m f \<in> set (map (\<lambda>m. map_of m f) ms)" using i(1) by simp
      then have "map_of ?m f \<noteq> Some (GStr w)" using w(3) by metis
      moreover have "map_of ?m ''impact'' = Some (GStr (ee_impact (rd_entries d ! i)))"
        using entry_defaults_seen [OF e] i(1) entry_map_impact by simp
      then have "m' = ?m" if "entry_value ?m = GMap m'" for m'
        using that by (auto simp: entry_value_def split: if_splits)
      ultimately have "\<forall>m'. entry_value ?m = GMap m' \<longrightarrow> map_of m' f \<noteq> Some (GStr w)" by blast
      then show "case x of GMap m \<Rightarrow> map_of m f \<noteq> Some (GStr w) | _ \<Rightarrow> True" unfolding m by (simp split: gval.splits)
    qed
    ultimately show ?thesis using w(1,2) by (intro exI [of _ defaults] exI [of _ w]) (simp only: simp_thms)
  qed
  show ?thesis using once unfolding delta_of_def Let_def defs es rm fields by (simp add: trim_delta_def)
qed

theorem review_delta_round_trip_witness:
  "let d = \<lparr>rd_key = ''r1'', rd_status = ''submitted'', rd_comment = Some ''ok'', rd_by = '' ann'', rd_remove = [''x''],
       rd_entries = [\<lparr>ee_impact = ''a'', ee_comment = None, ee_outcome = Some ''accept'', ee_by = []\<rparr>,
         \<lparr>ee_impact = ''b'', ee_comment = Some ''no'', ee_outcome = Some ''accept'', ee_by = []\<rparr>]\<rparr>
   in delta_of (delta_data d) = d\<lparr>rd_by := ''ann''\<rparr> \<and> (\<exists>dm w. map_of dm ''outcome'' = Some (GStr w)
      \<and> map_of_val (pget (delta_data d) ''defaults'') = Some dm)"
proof -
  let ?d = "\<lparr>rd_key = ''r1'', rd_status = ''submitted'', rd_comment = Some ''ok'', rd_by = '' ann'', rd_remove = [''x''],
       rd_entries = [\<lparr>ee_impact = ''a'', ee_comment = None, ee_outcome = Some ''accept'', ee_by = []\<rparr>,
         \<lparr>ee_impact = ''b'', ee_comment = Some ''no'', ee_outcome = Some ''accept'', ee_by = []\<rparr>]\<rparr>"
  have h: "''outcome'' \<in> set entry_fields" "2 \<le> times_held ''outcome'' ''accept'' (map entry_map (rd_entries ?d))" by code_simp+
  have t: "trim_delta ?d = ?d\<lparr>rd_by := ''ann''\<rparr>" by code_simp
  show ?thesis using review_delta_round_trip [of ?d "''outcome''" "''accept''"] h unfolding Let_def t by blast
qed

end
