(* ===== verification/Reviews.thy ===== *)
theory Reviews
  imports Items
begin

text \<open>
  contracts/domain/reviewrecord.go: the fold of the review items of a change into its reviews, and the
  verdicts a submitted review decides. A nil fold is the empty one, as its methods read it.
\<close>

subsection \<open>Reviews\<close>

record review_entry =
  rn_impact :: string
  rn_comment :: string
  rn_outcome :: string
  rn_by :: string
  rn_at :: time

definition decided :: "review_entry \<Rightarrow> bool" where
  "decided e \<longleftrightarrow> rn_outcome e = ''accept'' \<or> rn_outcome e = ''reject''"

definition review_outcome :: "review_status \<Rightarrow> string" where
  "review_outcome s = (if s = Accepted then ''accept'' else ''reject'')"

definition effective_comment :: "string \<Rightarrow> string \<Rightarrow> string" where
  "effective_comment glob own = (let g = trim glob; e = trim own in
     if e = [] then g else if g = [] then e else e @ [CHR 0x0A, CHR 0x0A] @ ''Review: '' @ g)"

record review_state =
  rs_key :: string
  rs_flow :: string
  rs_comment :: string
  rs_status :: string
  rs_entries :: "review_entry list"
  rs_by :: string
  rs_submitted_at :: time
  rs_item :: string
  rs_versions :: int
  rs_submitted_by :: string
  rs_execution :: string

definition zero_review :: review_state where
  "zero_review = \<lparr>rs_key = [], rs_flow = [], rs_comment = [], rs_status = [], rs_entries = [], rs_by = [],
     rs_submitted_at = 0, rs_item = [], rs_versions = 0, rs_submitted_by = [], rs_execution = []\<rparr>"

definition rs_open :: "review_state \<Rightarrow> bool" where
  "rs_open s \<longleftrightarrow> rs_status s = ''open''"

definition rs_entry :: "review_state \<Rightarrow> string \<Rightarrow> review_entry option" where
  "rs_entry s i = find (\<lambda>e. rn_impact e = i) (rs_entries s)"

subsection \<open>The fold\<close>

record review_fold =
  rf_at :: "(string, nat) gomap"
  rf_list :: "review_state list"

definition no_reviews :: review_fold where
  "no_reviews = \<lparr>rf_at = [], rf_list = []\<rparr>"

definition rf_get :: "review_fold \<Rightarrow> string \<Rightarrow> review_state option" where
  "rf_get f k = map_option (\<lambda>i. rf_list f ! i) (map_of (rf_at f) k)"

definition edit_entry :: "time \<Rightarrow> review_entry list \<Rightarrow> entry_edit \<Rightarrow> review_entry list" where
  "edit_entry now es e = (
     let (es1, j) = (case index_of (\<lambda>x. rn_impact x = ee_impact e) es of
            Some j \<Rightarrow> (es, j)
          | None \<Rightarrow> (es @ [\<lparr>rn_impact = ee_impact e, rn_comment = [], rn_outcome = [], rn_by = [], rn_at = 0\<rparr>], length es));
         x1 = (case ee_comment e of None \<Rightarrow> es1 ! j | Some c \<Rightarrow> (es1 ! j)\<lparr>rn_comment := c\<rparr>);
         x2 = (case ee_outcome e of None \<Rightarrow> x1 | Some oc \<Rightarrow> x1\<lparr>rn_outcome := oc, rn_at := now\<rparr>);
         x3 = (if ee_by e = [] then x2 else x2\<lparr>rn_by := ee_by e\<rparr>)
     in es1[j := x3])"

text \<open>What a delta makes of an open review: the one it is of, or the one it opens.\<close>

definition delta_entries :: "review_delta \<Rightarrow> time \<Rightarrow> review_entry list \<Rightarrow> review_entry list" where
  "delta_entries d now es = foldl (edit_entry now)
     (foldl (\<lambda>es rm. filter (\<lambda>e. rn_impact e \<noteq> rm) es) es (rd_remove d)) (rd_entries d)"

definition apply_delta :: "review_delta \<Rightarrow> item \<Rightarrow> review_state \<Rightarrow> review_state" where
  "apply_delta d it s = (
     let s1 = (case rd_comment d of None \<Rightarrow> s | Some c \<Rightarrow> s\<lparr>rs_comment := c\<rparr>);
         s2 = s1\<lparr>rs_entries := delta_entries d (it_created_at it) (rs_entries s1)\<rparr>;
         s3 = (if rd_status d = [] then s2 else s2\<lparr>rs_status := rd_status d\<rparr>);
         s4 = (if rs_status s3 = ''submitted''
               then s3\<lparr>rs_submitted_at := it_created_at it, rs_submitted_by := it_produced_by it, rs_execution := it_execution it\<rparr>
               else s3)
     in s4\<lparr>rs_item := it_id it, rs_versions := rs_versions s4 + 1\<rparr>)"

definition rf_apply :: "review_fold \<Rightarrow> item \<Rightarrow> review_fold \<times> review_state \<times> bool" where
  "rf_apply f it = (
     if it_type it \<noteq> ''review'' \<or> it_status it = ''rejected'' \<or> it_status it = ''superseded'' then (f, zero_review, False)
     else let d = delta_of (it_data it) in
       if rd_key d = [] \<or> (rd_status d \<noteq> [] \<and> \<not> valid_review_status (rd_status d)) then (f, zero_review, False)
       else (case map_of (rf_at f) (rd_key d) of
           Some i \<Rightarrow> let s0 = rf_list f ! i in
             if \<not> rs_open s0 then (f, s0, False)
             else let s = apply_delta d it s0 in (f\<lparr>rf_list := (rf_list f)[i := s]\<rparr>, s, rs_status s = ''submitted'')
         | None \<Rightarrow>
             if rd_status d \<noteq> ''open'' \<and> rd_status d \<noteq> ''submitted'' then (f, zero_review, False)
             else let s = apply_delta d it (zero_review\<lparr>rs_key := rd_key d, rs_flow := it_flow it,
                        rs_by := (if rd_by d = [] then it_produced_by it else rd_by d)\<rparr>)
               in (\<lparr>rf_at = mput (rd_key d) (length (rf_list f)) (rf_at f), rf_list = rf_list f @ [s]\<rparr>, s, rs_status s = ''submitted'')))"

definition reviews_of :: "item list \<Rightarrow> review_fold" where
  "reviews_of its = foldl (\<lambda>f it. fst (rf_apply f it)) no_reviews its"

subsection \<open>Verdicts\<close>

definition verdict :: "review_state \<Rightarrow> string \<Rightarrow> item \<Rightarrow> int \<Rightarrow> review_entry \<Rightarrow> event" where
  "verdict s change it seq e = (
     let status = (if rn_outcome e = ''reject'' then Rejected else Accepted);
         b = (if rn_by e \<noteq> [] then rn_by e else if rs_submitted_by s \<noteq> [] then rs_submitted_by s else rs_by s);
         t = (if rn_at e = 0 then it_created_at it else rn_at e)
     in \<lparr>e_id = it_id it @ ''/'' @ rn_impact e, e_change = change, e_seq = seq, e_impact = rn_impact e, e_op = OpReviewed,
         e_flow = rs_flow s, e_execution = rs_execution s, e_by = b, e_for = [], e_at = t, e_causation = it_id it,
         e_state = None, e_post = None, e_draft = None, e_from_base = None, e_pre = None, e_committed = None, e_effect = None,
         e_commit = [], e_branch = [], e_recorded = False,
         e_review = Some \<lparr>rv_status = status, rv_by = b, rv_comment = effective_comment (rs_comment s) (rn_comment e), rv_at = t,
           rv_flow = rs_flow s, rv_execution = rs_execution s, rv_superseded = False, rv_review_id = rs_key s\<rparr>,
         e_stale = [], e_patch = None\<rparr>)"

definition verdicts :: "review_state \<Rightarrow> string \<Rightarrow> item \<Rightarrow> int \<Rightarrow> event list" where
  "verdicts s change it seq = (if rs_status s \<noteq> ''submitted'' then []
     else map (verdict s change it seq) (filter decided (rs_entries s)))"

subsection \<open>The reviews of a fold\<close>

definition review_ok :: "review_state \<Rightarrow> bool" where
  "review_ok s \<longleftrightarrow> valid_review_status (rs_status s) \<and> distinct (map rn_impact (rs_entries s))"

text \<open>The index of the reviews is the position of their key, which one review has.\<close>

definition fold_ok :: "review_fold \<Rightarrow> bool" where
  "fold_ok f \<longleftrightarrow> indexed rs_key (rf_at f) (rf_list f) \<and> list_all review_ok (rf_list f)"

lemma key_index: "fold_ok f \<Longrightarrow> map_of (rf_at f) k = Some i \<Longrightarrow> i < length (rf_list f) \<and> rs_key (rf_list f ! i) = k"
  by (auto simp: fold_ok_def dest: indexed_Some)

lemma no_reviews_ok [simp]: "fold_ok no_reviews"
  by (simp add: fold_ok_def no_reviews_def)

lemma edit_entry_impacts:
  "map rn_impact (edit_entry t es e) =
     (if ee_impact e \<in> rn_impact ` set es then map rn_impact es else map rn_impact es @ [ee_impact e])"
proof (cases "index_of (\<lambda>x. rn_impact x = ee_impact e) es")
  case None
  then have "ee_impact e \<notin> rn_impact ` set es" by (auto simp: index_of_None)
  then show ?thesis using None by (simp add: edit_entry_def Let_def list_update_append map_update split: option.splits)
next
  case (Some j)
  then have j: "j < length es" "rn_impact (es ! j) = ee_impact e" using index_of_Some by blast+
  then have "ee_impact e \<in> rn_impact ` set es" by (metis image_eqI nth_mem)
  moreover have "map rn_impact (es[j := x]) = map rn_impact es" if "rn_impact x = rn_impact (es ! j)" for x
    using that j by (metis list_update_id map_update)
  ultimately show ?thesis using Some j by (simp add: edit_entry_def Let_def split: option.splits)
qed

lemma edit_entries_distinct:
  "distinct (map rn_impact es) \<Longrightarrow> distinct (map rn_impact (foldl (edit_entry t) es xs))
   \<and> rn_impact ` set (foldl (edit_entry t) es xs) = rn_impact ` set es \<union> ee_impact ` set xs"
proof (induction xs arbitrary: es)
  case (Cons x xs)
  have d: "distinct (map rn_impact (edit_entry t es x))"
    using Cons.prems by (simp only: edit_entry_impacts) (auto simp: image_iff)
  have "rn_impact ` set (edit_entry t es x) = set (map rn_impact (edit_entry t es x))" by simp
  also have "\<dots> = insert (ee_impact x) (rn_impact ` set es)" unfolding edit_entry_impacts by auto
  finally show ?case using Cons.IH [OF d] by simp
qed simp

lemma removes_distinct:
  "distinct (map rn_impact es) \<Longrightarrow> distinct (map rn_impact (foldl (\<lambda>es rm. filter (\<lambda>e. rn_impact e \<noteq> rm) es) es rms))
   \<and> set (foldl (\<lambda>es rm. filter (\<lambda>e. rn_impact e \<noteq> rm) es) es rms) \<subseteq> set es"
proof (induction rms arbitrary: es)
  case (Cons r rms)
  have "distinct (map rn_impact (filter (\<lambda>e. rn_impact e \<noteq> r) es))" using Cons.prems by (rule distinct_map_filter)
  from Cons.IH [OF this] show ?case by auto
qed simp

lemma delta_entries_impacts:
  assumes "distinct (map rn_impact es)"
  shows "distinct (map rn_impact (delta_entries d t es))
    \<and> rn_impact ` set (delta_entries d t es) \<subseteq> rn_impact ` set es \<union> ee_impact ` set (rd_entries d)"
  unfolding delta_entries_def
  using edit_entries_distinct [OF conjunct1 [OF removes_distinct [OF assms, of "rd_remove d"]], of t "rd_entries d"]
    removes_distinct [OF assms, of "rd_remove d"] by fast

lemma apply_delta_fields [simp]:
  "rs_key (apply_delta d it s) = rs_key s"
  "rs_status (apply_delta d it s) = (if rd_status d = [] then rs_status s else rd_status d)"
  "rs_entries (apply_delta d it s) = delta_entries d (it_created_at it) (rs_entries s)"
  "rs_flow (apply_delta d it s) = rs_flow s"
  by (simp_all add: apply_delta_def Let_def split: option.splits)

text \<open>A step of the fold: the review it is of is replaced or appended, or nothing changes.\<close>

inductive review_step :: "review_fold \<Rightarrow> item \<Rightarrow> review_fold \<Rightarrow> review_state \<Rightarrow> bool \<Rightarrow> bool" where
  skip: "review_step f it f s False"
| edit: "map_of (rf_at f) k = Some i \<Longrightarrow> rs_open (rf_list f ! i) \<Longrightarrow> d = delta_of (it_data it) \<Longrightarrow> k = rd_key d
    \<Longrightarrow> rd_status d = [] \<or> valid_review_status (rd_status d)
    \<Longrightarrow> s = apply_delta d it (rf_list f ! i)
    \<Longrightarrow> review_step f it (f\<lparr>rf_list := (rf_list f)[i := s]\<rparr>) s (rs_status s = ''submitted'')"
| start: "map_of (rf_at f) k = None \<Longrightarrow> d = delta_of (it_data it) \<Longrightarrow> k = rd_key d
    \<Longrightarrow> rd_status d = ''open'' \<or> rd_status d = ''submitted'' \<Longrightarrow> rs_key s0 = k \<Longrightarrow> rs_entries s0 = []
    \<Longrightarrow> s = apply_delta d it s0
    \<Longrightarrow> review_step f it \<lparr>rf_at = mput k (length (rf_list f)) (rf_at f), rf_list = rf_list f @ [s]\<rparr> s (rs_status s = ''submitted'')"

lemma rf_apply_step:
  assumes "rf_apply f it = (f', s, b)"
  shows "review_step f it f' s b"
proof -
  let ?d = "delta_of (it_data it)"
  let ?off = "it_type it \<noteq> ''review'' \<or> it_status it = ''rejected'' \<or> it_status it = ''superseded''"
  let ?bad = "rd_key ?d = [] \<or> (rd_status ?d \<noteq> [] \<and> \<not> valid_review_status (rd_status ?d))"
  let ?s0 = "zero_review\<lparr>rs_key := rd_key ?d, rs_flow := it_flow it, rs_by := (if rd_by ?d = [] then it_produced_by it else rd_by ?d)\<rparr>"
  note r = assms [unfolded rf_apply_def Let_def]
  show ?thesis
  proof (cases "?off \<or> ?bad")
    case True
    then have "f' = f" "b = False" using r by (auto split: if_split_asm)
    then show ?thesis by (simp add: review_step.skip)
  next
    case False
    then have "?off = False" "?bad = False" by blast+
    note r = r [unfolded this if_False]
    show ?thesis
    proof (cases "map_of (rf_at f) (rd_key ?d)")
      case (Some i)
      show ?thesis
      proof (cases "rs_open (rf_list f ! i)")
        case True
        have e: "f' = f\<lparr>rf_list := (rf_list f)[i := s]\<rparr>" "s = apply_delta ?d it (rf_list f ! i)" "b = (rs_status s = ''submitted'')"
          using r Some True by auto
        have "rd_status ?d = [] \<or> valid_review_status (rd_status ?d)" using \<open>?bad = False\<close> by blast
        from review_step.edit [OF Some True refl refl this e(2)] show ?thesis unfolding e(1,3) .
      next
        case False
        then have "f' = f" "b = False" using r Some by simp_all
        then show ?thesis by (simp add: review_step.skip)
      qed
    next
      case None
      show ?thesis
      proof (cases "rd_status ?d = ''open'' \<or> rd_status ?d = ''submitted''")
        case True
        have e: "f' = \<lparr>rf_at = mput (rd_key ?d) (length (rf_list f)) (rf_at f), rf_list = rf_list f @ [s]\<rparr>" "s = apply_delta ?d it ?s0"
          "b = (rs_status s = ''submitted'')"
          using r None True by auto
        have "rs_key ?s0 = rd_key ?d" "rs_entries ?s0 = []" by (simp_all add: zero_review_def)
        from review_step.start [OF None refl refl True this e(2)] show ?thesis unfolding e(1,3) .
      next
        case False
        then have "f' = f" "b = False" using r None by simp_all
        then show ?thesis by (simp add: review_step.skip)
      qed
    qed
  qed
qed

lemma step_ok: "review_step f it f' s b \<Longrightarrow> fold_ok f \<Longrightarrow> fold_ok f'"
proof (induction rule: review_step.induct)
  case (edit f k i d it s)
  then have i: "i < length (rf_list f)" using key_index by blast
  have ro: "review_ok (rf_list f ! i)" using edit i by (simp add: fold_ok_def list_all_length)
  have same: "rs_key s = rs_key (rf_list f ! i)" using edit by simp
  have "review_ok s"
    using ro edit delta_entries_impacts by (auto simp: review_ok_def)
  then have "list_all review_ok ((rf_list f)[i := s])"
    using edit(7) i by (auto simp: fold_ok_def list_all_iff dest: set_update_subset_insert [THEN subsetD])
  then show ?case using edit(7) i same by (simp add: fold_ok_def indexed_update)
next
  case (start f k d it s0 s)
  have "review_ok s" using start delta_entries_impacts [of "[]"] by (auto simp: review_ok_def valid_review_status_def)
  moreover have "rs_key s = k" using start by simp
  ultimately show ?case using start(1,8) indexed_snoc [of rs_key "rf_at f" "rf_list f" s] by (simp add: fold_ok_def)
qed simp

lemma reviews_ok: "fold_ok f \<Longrightarrow> fold_ok (foldl (\<lambda>f it. fst (rf_apply f it)) f its)"
proof (induction its arbitrary: f)
  case (Cons it its)
  obtain f' s b where "rf_apply f it = (f', s, b)" by (cases "rf_apply f it")
  then show ?case using Cons step_ok [OF rf_apply_step] by simp
qed simp

lemma step_final:
  assumes "review_step f it f' s b" and "fold_ok f" and "rf_get f k = Some r" and "\<not> rs_open r"
  shows "rf_get f' k = Some r \<and> (b \<longrightarrow> rs_key s \<noteq> k)"
  using assms
proof (induction rule: review_step.induct)
  case (edit f k' i d it s)
  obtain j where j: "map_of (rf_at f) k = Some j" "rf_list f ! j = r" using edit(8) by (auto simp: rf_get_def)
  have keys: "i < length (rf_list f)" "rs_key (rf_list f ! i) = k'" "rs_key (rf_list f ! j) = k"
    using edit(1,7) j(1) key_index by blast+
  have "i \<noteq> j" using edit(2,9) j(2) by auto
  moreover have "k' \<noteq> k" using edit(1) j(1) \<open>i \<noteq> j\<close> by auto
  ultimately show ?case using j keys edit(6) by (simp add: rf_get_def)
next
  case (start f k' d it s0 s)
  then have "k' \<noteq> k" by (auto simp: rf_get_def)
  moreover obtain j where "map_of (rf_at f) k = Some j" "rf_list f ! j = r" using start(9) by (auto simp: rf_get_def)
  moreover from this have "j < length (rf_list f)" using start(8) key_index by blast
  ultimately show ?case using start(5,7) by (simp add: rf_get_def nth_append)
qed simp

lemma step_submits:
  assumes "review_step f it f' s True" and "fold_ok f"
  shows "rf_get f' (rs_key s) = Some s \<and> rs_status s = ''submitted''"
  using assms
proof (induction f it f' s "True" rule: review_step.induct)
  case (edit f k i d it s)
  then have "i < length (rf_list f)" "rs_key (rf_list f ! i) = k"
    using key_index by blast+
  then show ?case using edit by (simp add: rf_get_def)
next
  case (start f k d it s0 s)
  then show ?case by (simp add: rf_get_def)
qed auto

lemma final_stays:
  "fold_ok f \<Longrightarrow> rf_get f k = Some r \<Longrightarrow> \<not> rs_open r
    \<Longrightarrow> rf_get (foldl (\<lambda>f it. fst (rf_apply f it)) f its) k = Some r"
proof (induction its arbitrary: f)
  case (Cons it its)
  obtain f' s b where a: "rf_apply f it = (f', s, b)" by (cases "rf_apply f it")
  note st = rf_apply_step [OF a]
  show ?case using Cons.IH [OF step_ok [OF st Cons.prems(1)]] step_final [OF st Cons.prems] Cons.prems(3) a by simp
qed simp

text \<open>
  C13. The reviews of a change have distinct keys, an index that finds them, valid statuses and one
  entry per impact; and a review that an item submitted is what it was at that item at the end of the
  log, whatever items follow.
\<close>

theorem submitted_review_is_final:
  assumes "rf_apply (reviews_of before) it = (f, s, True)"
  shows "rf_get (reviews_of (before @ it # after)) (rs_key s) = Some s \<and> rs_status s = ''submitted''
    \<and> fold_ok (reviews_of (before @ it # after))"
proof -
  have b: "fold_ok (reviews_of before)" unfolding reviews_of_def by (rule reviews_ok) simp
  note st = rf_apply_step [OF assms]
  have s: "rf_get f (rs_key s) = Some s" "rs_status s = ''submitted''" using step_submits [OF st b] by simp_all
  have "reviews_of (before @ it # after) = foldl (\<lambda>f it. fst (rf_apply f it)) f after"
    using assms by (simp add: reviews_of_def)
  moreover have "\<not> rs_open s" using s(2) by (simp add: rs_open_def)
  ultimately show ?thesis using final_stays [OF step_ok [OF st b] s(1)] s(2) reviews_ok [OF step_ok [OF st b]] by simp
qed

definition demo_item :: "string \<Rightarrow> review_delta \<Rightarrow> item" where
  "demo_item i d = \<lparr>it_id = i, it_type = ''review'', it_target = [], it_status = ''proposed'', it_flow = [], it_flow_event = None,
     it_decision_event = None, it_decision = None, it_recipient = [], it_data = delta_data d, it_produced_by = ''ann'',
     it_derived_from = [], it_supersedes = [], it_execution = [], it_created_at = 5\<rparr>"

definition demo_delta :: "string \<Rightarrow> review_delta" where
  "demo_delta st = \<lparr>rd_key = ''r'', rd_status = st, rd_comment = None, rd_by = [], rd_remove = [],
     rd_entries = [\<lparr>ee_impact = ''a'', ee_comment = None, ee_outcome = Some ''accept'', ee_by = []\<rparr>]\<rparr>"

theorem submitted_review_is_final_witness:
  "rf_get (reviews_of [demo_item ''i1'' (demo_delta ''open''), demo_item ''i2'' (demo_delta ''submitted''),
      demo_item ''i3'' ((demo_delta ''discarded'')\<lparr>rd_entries := []\<rparr>)]) ''r'' \<noteq> None"
proof -
  have h: "rf_apply (reviews_of [demo_item ''i1'' (demo_delta ''open'')]) (demo_item ''i2'' (demo_delta ''submitted''))
      = (let r = rf_apply (reviews_of [demo_item ''i1'' (demo_delta ''open'')]) (demo_item ''i2'' (demo_delta ''submitted''))
         in (fst r, fst (snd r), True))"
    by code_simp
  have k: "rs_key (fst (snd (rf_apply (reviews_of [demo_item ''i1'' (demo_delta ''open'')]) (demo_item ''i2'' (demo_delta ''submitted'')))))
      = ''r''" by code_simp
  show ?thesis
    using submitted_review_is_final [OF h [unfolded Let_def], of "[demo_item ''i3'' ((demo_delta ''discarded'')\<lparr>rd_entries := []\<rparr>)]"]
    unfolding k by simp
qed

subsection \<open>The verdicts of a review\<close>

definition named_entries :: "review_state \<Rightarrow> bool" where
  "named_entries s \<longleftrightarrow> [] \<notin> rn_impact ` set (rs_entries s)"

lemma check_entries_named: "check_entries seen es = None \<Longrightarrow> [] \<notin> ee_impact ` set es"
  by (induction seen es rule: check_entries.induct) (auto split: if_splits option.splits)

lemma validate_review_named: "validate_review it = None \<Longrightarrow> [] \<notin> ee_impact ` set (rd_entries (delta_of (it_data it)))"
  by (auto simp: validate_review_def Let_def check_entries_named split: if_splits)

lemma step_named:
  assumes "review_step f it f' s b" and "fold_ok f" and "list_all named_entries (rf_list f)" and "validate_review it = None"
  shows "list_all named_entries (rf_list f')"
  using assms
proof (induction rule: review_step.induct)
  case (edit f k i d it s)
  have i: "i < length (rf_list f)" using edit(1,7) key_index by blast
  have old: "distinct (map rn_impact (rs_entries (rf_list f ! i)))" "[] \<notin> rn_impact ` set (rs_entries (rf_list f ! i))"
    using edit(7,8) i by (simp_all add: fold_ok_def list_all_length review_ok_def named_entries_def)
  have "named_entries s"
  proof -
    have "rn_impact ` set (rs_entries s) \<subseteq> rn_impact ` set (rs_entries (rf_list f ! i)) \<union> ee_impact ` set (rd_entries d)"
      using delta_entries_impacts [OF old(1)] edit(6) by simp
    then show ?thesis using old(2) validate_review_named [OF edit(9)] edit(3) unfolding named_entries_def by blast
  qed
  then show ?case using edit(8) by (auto simp: list_all_iff dest: set_update_subset_insert [THEN subsetD])
next
  case (start f k d it s0 s)
  have "rn_impact ` set (rs_entries s) \<subseteq> ee_impact ` set (rd_entries d)"
    using start(6,7) delta_entries_impacts [of "[]" d "it_created_at it"] by simp
  then have "named_entries s"
    using validate_review_named [OF start(10)] start(2) unfolding named_entries_def by blast
  then show ?case using start(9) by simp
qed simp

text \<open>A review item of a log was checked before it was written; the other items leave the reviews as they are.\<close>

definition fact_ok :: "item \<Rightarrow> bool" where
  "fact_ok it \<longleftrightarrow> (it_type it = ''review'' \<longrightarrow> validate_review it = None)"

lemma rf_apply_other: "it_type it \<noteq> ''review'' \<Longrightarrow> fst (rf_apply f it) = f \<and> \<not> snd (snd (rf_apply f it))"
  by (simp add: rf_apply_def Let_def)

lemma reviews_named:
  "fold_ok f \<Longrightarrow> list_all named_entries (rf_list f) \<Longrightarrow> list_all fact_ok its
    \<Longrightarrow> list_all named_entries (rf_list (foldl (\<lambda>f it. fst (rf_apply f it)) f its))"
proof (induction its arbitrary: f)
  case (Cons it its)
  obtain f' s b where a: "rf_apply f it = (f', s, b)" by (cases "rf_apply f it")
  note st = rf_apply_step [OF a]
  have "list_all named_entries (rf_list f')"
  proof (cases "it_type it = ''review''")
    case True
    then show ?thesis using step_named [OF st Cons.prems(1,2)] Cons.prems(3) by (simp add: fact_ok_def)
  next
    case False
    then show ?thesis using rf_apply_other [OF False, of f] a Cons.prems(2) by simp
  qed
  then show ?case using Cons step_ok [OF st] a by simp
qed simp

lemma verdict_fields [simp]:
  "e_op (verdict s c it q e) = OpReviewed" "e_impact (verdict s c it q e) = rn_impact e" "e_review (verdict s c it q e) \<noteq> None"
  "e_flow (verdict s c it q e) = rs_flow s" "e_seq (verdict s c it q e) = q" "e_post (verdict s c it q e) = None"
  "e_draft (verdict s c it q e) = None"
  by (simp_all add: verdict_def Let_def)

lemma verdicts_ok:
  assumes "named_entries s"
  shows "list_all event_ok (verdicts s c it q)"
  using assms by (force simp: verdicts_def list_all_iff event_ok_def named_entries_def)

text \<open>
  C36. Of a log whose review items are valid, whatever else it holds, the verdicts a submitted review decides
  are valid events, one for each decided entry and in their order, so at most one per change impact: each
  names the change impact of its entry and the flow of the review, at the position of the item, and its
  review is of that flow and accepted or rejected as the entry says.
\<close>

theorem verdicts_are_valid:
  assumes "list_all fact_ok (before @ [it])" and "rf_apply (reviews_of before) it = (f, s, True)"
  shows "list_all event_ok (verdicts s c it q) \<and> distinct (map e_impact (verdicts s c it q))
    \<and> map e_impact (verdicts s c it q) = map rn_impact (filter decided (rs_entries s))
    \<and> map e_flow (verdicts s c it q) = map (\<lambda>_. rs_flow s) (filter decided (rs_entries s))
    \<and> map e_seq (verdicts s c it q) = map (\<lambda>_. q) (filter decided (rs_entries s))
    \<and> map (\<lambda>e. map_option (\<lambda>r. (rv_flow r, review_outcome (rv_status r))) (e_review e)) (verdicts s c it q)
      = map (\<lambda>n. Some (rs_flow s, rn_outcome n)) (filter decided (rs_entries s))"
proof -
  have b: "fold_ok (reviews_of before)" unfolding reviews_of_def by (rule reviews_ok) simp
  note st = rf_apply_step [OF assms(2)]
  have f: "fold_ok f" and sub: "rf_get f (rs_key s) = Some s" "rs_status s = ''submitted''"
    using step_ok [OF st b] step_submits [OF st b] by simp_all
  have "list_all named_entries (rf_list (reviews_of before))"
    unfolding reviews_of_def using assms(1) by (intro reviews_named) (simp_all, simp add: no_reviews_def)
  moreover have "validate_review it = None" using rf_apply_other [of it "reviews_of before"] assms by (auto simp: fact_ok_def)
  ultimately have "list_all named_entries (rf_list f)" using step_named [OF st b] by simp
  moreover obtain i where "i < length (rf_list f)" "rf_list f ! i = s"
    using sub(1) f key_index by (auto simp: rf_get_def)
  ultimately have n: "named_entries s" "review_ok s" using f by (auto simp: list_all_length fold_ok_def)
  have vs: "verdicts s c it q = map (verdict s c it q) (filter decided (rs_entries s))" using sub(2) by (simp add: verdicts_def)
  have "distinct (map rn_impact (filter decided (rs_entries s)))"
    using n(2) by (intro distinct_map_filter) (simp add: review_ok_def)
  moreover have "map_option (\<lambda>r. (rv_flow r, review_outcome (rv_status r))) (e_review (verdict s c it q n)) = Some (rs_flow s, rn_outcome n)"
    if "decided n" for n using that by (auto simp: verdict_def Let_def decided_def review_outcome_def)
  ultimately show ?thesis using verdicts_ok [OF n(1), of c it q] by (simp add: vs comp_def)
qed

theorem verdicts_are_valid_witness:
  "let before = [(demo_item ''i0'' (demo_delta ''open''))\<lparr>it_type := ''artifact''\<rparr>, demo_item ''i1'' (demo_delta ''open'')];
       i = demo_item ''i2'' ((demo_delta ''submitted'')\<lparr>rd_entries := []\<rparr>); r = rf_apply (reviews_of before) i
   in list_all event_ok (verdicts (fst (snd r)) ''c'' i 7) \<and> map e_impact (verdicts (fst (snd r)) ''c'' i 7) = [''a'']"
proof -
  let ?b = "[(demo_item ''i0'' (demo_delta ''open''))\<lparr>it_type := ''artifact''\<rparr>, demo_item ''i1'' (demo_delta ''open'')]"
  let ?i = "demo_item ''i2'' ((demo_delta ''submitted'')\<lparr>rd_entries := []\<rparr>)"
  let ?r = "rf_apply (reviews_of ?b) ?i"
  have v: "list_all fact_ok (?b @ [?i])" by code_simp
  have h: "?r = (fst ?r, fst (snd ?r), True)" by code_simp
  have n: "map rn_impact (filter decided (rs_entries (fst (snd ?r)))) = [''a'']" by code_simp
  show ?thesis using verdicts_are_valid [OF v h, of "''c''" 7] unfolding n Let_def by blast
qed

end
