(* ===== verification/Flows.thy ===== *)
theory Flows
  imports Diff Reviews
begin

text \<open>
  contracts/domain/change.go and flow.go: the change, the replay of its flow events, the board a flow
  sees, the status of an item and the closure of what a relaunched step makes stale; the opening of a
  flow of graph/graph/flow.go. The replay is computed each time: the code caches it per length of the
  log. A board is None when the recursion over the parents of a flow does not end.
\<close>

subsection \<open>The change\<close>

record guardian =
  gd_methodology :: string
  gd_version :: string

record change =
  ch_id :: string
  ch_title :: string
  ch_intent :: string
  ch_methodology :: string
  ch_methodology_version :: string
  ch_namespace :: string
  ch_parent_id :: string
  ch_owner_org :: url
  ch_project_id :: url
  ch_lifecycle :: string
  ch_state :: string
  ch_goal :: string
  ch_guardians :: "guardian list"
  ch_depends_on :: "string list"
  ch_status :: string
  ch_fork_commit :: string
  ch_branch :: string
  ch_landed_commit :: string
  ch_stats :: change_stats
  ch_data :: props
  ch_seq :: int
  ch_items :: "item list"
  ch_nodes :: "impact list option"
  ch_shared :: impacts
  ch_created_at :: time

definition methodology_ref :: "string \<Rightarrow> string \<Rightarrow> string" where
  "methodology_ref name version = (if version = [] \<or> name = [] then name else name @ ''@'' @ version)"

definition split_methodology_ref :: "string \<Rightarrow> string \<times> string" where
  "split_methodology_ref ref = (case cut (CHR ''@'') (rev ref) of
     None \<Rightarrow> (ref, [])
   | Some (v, n) \<Rightarrow> if n = [] then (ref, []) else (rev n, rev v))"

definition outer_guardians :: "change \<Rightarrow> guardian list" where
  "outer_guardians c = filter (\<lambda>g. gd_methodology g \<noteq> ch_methodology c) (rev (ch_guardians c))"

record header_value =
  hv_from :: gval
  hv_to :: gval

definition edited_fields :: "change \<Rightarrow> change \<Rightarrow> (string, header_value) gomap" where
  "edited_fields before after =
     map (\<lambda>(n, f, t). (n, \<lparr>hv_from = GStr f, hv_to = GStr t\<rparr>))
       (filter (\<lambda>(n, f, t). f \<noteq> t) [(''title'', ch_title before, ch_title after), (''intent'', ch_intent before, ch_intent after),
          (''goal'', ch_goal before, ch_goal after)])
     @ map (\<lambda>k. (''data.'' @ k, \<lparr>hv_from = (case pget (ch_data before) k of None \<Rightarrow> GNil | Some v \<Rightarrow> v),
                                hv_to = the (pget (ch_data after) k)\<rparr>))
         (filter (\<lambda>k. case pget (ch_data before) k of None \<Rightarrow> True | Some v \<Rightarrow> \<not> deep_equal v (the (pget (ch_data after) k)))
           (mkeys (pmap (ch_data after))))"

definition items_of_type :: "item list \<Rightarrow> string \<Rightarrow> item list" where
  "items_of_type its k = filter (\<lambda>it. it_type it = k) its"

definition item_by_id :: "item list \<Rightarrow> string \<Rightarrow> item option" where
  "item_by_id its i = find (\<lambda>it. it_id it = i) its"

definition change_impacts :: "change \<Rightarrow> impacts" where
  "change_impacts c = (if ch_nodes c \<noteq> None \<or> il_n (ch_shared c) = 0
     then impacts_of (case ch_nodes c of None \<Rightarrow> [] | Some ns \<Rightarrow> ns) else ch_shared c)"

definition share_impacts :: "change \<Rightarrow> impacts \<Rightarrow> change" where
  "share_impacts c l = c\<lparr>ch_nodes := None, ch_shared := l\<rparr>"

subsection \<open>The replay of the flow events\<close>

datatype flow_status = FlowOpen | FlowAdopted | FlowDiscarded

record flow =
  fl_id :: string
  fl_parent :: string
  fl_fork_after :: string
  fl_status :: flow_status
  fl_stale :: "string list"
  fl_stale_runs :: "string list"
  fl_origin :: props
  fl_opened_at :: time
  fl_decided_at :: time
  fl_decided_by :: string
  fl_competes_with :: "string list"
  fl_option :: "option_spec option"
  fl_evaluation :: string
  fl_evaluated :: bool
  fl_active :: bool

definition option_status :: "flow \<Rightarrow> string" where
  "option_status f = (case fl_status f of FlowAdopted \<Rightarrow> ''selected'' | FlowDiscarded \<Rightarrow> ''rejected''
     | FlowOpen \<Rightarrow> if fl_evaluated f then ''evaluated'' else ''exploring'')"

record flow_index =
  fx_list :: "flow list"
  fx_by_id :: "(string, nat) gomap"
  fx_active :: string

definition fx_get :: "flow_index \<Rightarrow> string \<Rightarrow> flow option" where
  "fx_get fx i = map_option (\<lambda>n. fx_list fx ! n) (map_of (fx_by_id fx) i)"

fun effective_loop :: "flow_index \<Rightarrow> nat \<Rightarrow> string \<Rightarrow> flow_status \<Rightarrow> flow_status" where
  "effective_loop fx 0 i st = st"
| "effective_loop fx (Suc n) i st = (if i = [] then st else
     (case fx_get fx i of None \<Rightarrow> FlowDiscarded
      | Some f \<Rightarrow> (case fl_status f of
            FlowDiscarded \<Rightarrow> FlowDiscarded
          | FlowOpen \<Rightarrow> effective_loop fx n (fl_parent f) FlowOpen
          | FlowAdopted \<Rightarrow> effective_loop fx n (fl_parent f) st)))"

definition max_hops :: nat where
  "max_hops = 64"

definition effective :: "flow_index \<Rightarrow> string \<Rightarrow> flow_status" where
  "effective fx i = effective_loop fx max_hops i FlowAdopted"

text \<open>The state of the replay: the index, and the positions each flow was opened and decided at.\<close>

record replay =
  rp_index :: flow_index
  rp_open_at :: "(string, nat) gomap"
  rp_decided_at :: "(string, nat) gomap"

definition no_flows :: replay where
  "no_flows = \<lparr>rp_index = \<lparr>fx_list = [], fx_by_id = [], fx_active = []\<rparr>, rp_open_at = [], rp_decided_at = []\<rparr>"

definition opened_flow :: "flow_event \<Rightarrow> time \<Rightarrow> flow" where
  "opened_flow e t = \<lparr>fl_id = fe_flow e, fl_parent = fe_parent e, fl_fork_after = fe_fork_after e, fl_status = FlowOpen,
     fl_stale = fe_stale e, fl_stale_runs = fe_stale_runs e, fl_origin = fe_origin e, fl_opened_at = t, fl_decided_at = 0,
     fl_decided_by = [], fl_competes_with = [], fl_option = fe_option e, fl_evaluation = [], fl_evaluated = False, fl_active = False\<rparr>"

definition flow_event_step :: "replay \<Rightarrow> nat \<Rightarrow> time \<Rightarrow> flow_event \<Rightarrow> replay" where
  "flow_event_step r pos t e =
     (let fx = rp_index r; op = fe_op e;
          open_at = (\<lambda>p. case map_of (fx_by_id fx) (fe_flow e) of None \<Rightarrow> None
             | Some i \<Rightarrow> if fl_status (fx_list fx ! i) = FlowOpen \<and> p (fx_list fx ! i) then Some i else None)
      in
      if op = ''open'' then
        (if map_of (fx_by_id fx) (fe_flow e) \<noteq> None then r
         else r\<lparr>rp_index := fx\<lparr>fx_by_id := mput (fe_flow e) (length (fx_list fx)) (fx_by_id fx), fx_list := fx_list fx @ [opened_flow e t]\<rparr>,
                rp_open_at := mput (fe_flow e) pos (rp_open_at r)\<rparr>)
      else if op = ''activate'' then
        (case open_at (\<lambda>f. fl_option f \<noteq> None) of None \<Rightarrow> r | Some _ \<Rightarrow> r\<lparr>rp_index := fx\<lparr>fx_active := fe_flow e\<rparr>\<rparr>)
      else if op = ''deactivate'' then
        (if fx_active fx = fe_flow e then r\<lparr>rp_index := fx\<lparr>fx_active := []\<rparr>\<rparr> else r)
      else if op = ''evaluate'' then
        (case open_at (\<lambda>_. True) of None \<Rightarrow> r
         | Some i \<Rightarrow> r\<lparr>rp_index := fx\<lparr>fx_list := (fx_list fx)[i := (fx_list fx ! i)\<lparr>fl_evaluated := True, fl_evaluation := fe_comment e\<rparr>]\<rparr>\<rparr>)
      else if op = ''adopt'' \<or> op = ''discard'' then
        (case open_at (\<lambda>_. True) of None \<Rightarrow> r
         | Some i \<Rightarrow> r\<lparr>rp_index := fx\<lparr>fx_list := (fx_list fx)[i := (fx_list fx ! i)
                     \<lparr>fl_status := (if op = ''discard'' then FlowDiscarded else FlowAdopted), fl_decided_at := t, fl_decided_by := fe_by e\<rparr>],
                   fx_active := (if fx_active fx = fe_flow e then [] else fx_active fx)\<rparr>,
                rp_decided_at := mput (fe_flow e) pos (rp_decided_at r)\<rparr>)
      else r)"

definition flow_step :: "replay \<Rightarrow> nat \<times> item \<Rightarrow> replay" where
  "flow_step r p = (case p of (pos, it) \<Rightarrow>
     (case it_flow_event it of None \<Rightarrow> r
      | Some e \<Rightarrow> if it_type it \<noteq> ''flow'' then r else flow_event_step r pos (it_created_at it) e))"

definition replay_of :: "item list \<Rightarrow> replay" where
  "replay_of its = foldl flow_step no_flows (enumerate 0 its)"

text \<open>Two flows compete when they replace the same items, or one builds on what the other replaced.\<close>

definition compete :: "item list \<Rightarrow> flow \<Rightarrow> flow \<Rightarrow> bool" where
  "compete its f a \<longleftrightarrow> list_ex (\<lambda>i. i \<in> set (fl_stale a)) (fl_stale f)
     \<or> list_ex (\<lambda>x. x \<in> set (fl_stale_runs a)) (fl_stale_runs f)
     \<or> list_ex (\<lambda>it. it_flow it = fl_id f \<and> list_ex (\<lambda>d. d \<in> set (fl_stale a)) (it_derived_from it)) its"

definition position :: "(string, nat) gomap \<Rightarrow> string \<Rightarrow> nat" where
  "position m k = (case map_of m k of None \<Rightarrow> 0 | Some n \<Rightarrow> n)"

definition with_competition :: "item list \<Rightarrow> replay \<Rightarrow> flow \<Rightarrow> flow" where
  "with_competition its r f = (if fl_status f \<noteq> FlowOpen then f
     else f\<lparr>fl_competes_with := fl_competes_with f @ map fl_id (filter (\<lambda>a. fl_status a = FlowAdopted \<and> fl_id a \<noteq> fl_id f
        \<and> \<not> position (rp_decided_at r) (fl_id a) < position (rp_open_at r) (fl_id f) \<and> compete its f a)
          (fx_list (rp_index r)))\<rparr>)"

definition flows :: "item list \<Rightarrow> flow_index" where
  "flows its = (let r = replay_of its; fx = rp_index r; l = map (with_competition its r) (fx_list fx) in
     fx\<lparr>fx_list := (case map_of (fx_by_id fx) (fx_active fx) of None \<Rightarrow> l
        | Some i \<Rightarrow> l[i := (l ! i)\<lparr>fl_active := True\<rparr>])\<rparr>)"

definition active_option :: "item list \<Rightarrow> string" where
  "active_option its = fx_active (flows its)"

definition options :: "item list \<Rightarrow> flow list" where
  "options its = filter (\<lambda>f. fl_option f \<noteq> None) (fx_list (flows its))"

definition resolve_flow :: "item list \<Rightarrow> string \<Rightarrow> string" where
  "resolve_flow its f = (if f = ''main'' then [] else if f = [] then active_option its else f)"

definition flow_status_of :: "item list \<Rightarrow> string \<Rightarrow> flow_status" where
  "flow_status_of its i = effective (flows its) i"

subsection \<open>Boards\<close>

definition main_board :: "flow_index \<Rightarrow> item list \<Rightarrow> item list" where
  "main_board fx its = filter (\<lambda>it. \<not> (it_flow it \<noteq> [] \<and> effective fx (it_flow it) \<noteq> FlowAdopted)) its"

definition branch_board :: "flow \<Rightarrow> string \<Rightarrow> item list \<Rightarrow> item list \<Rightarrow> item list" where
  "branch_board f flow base its =
     filter (\<lambda>it. \<not> (it_type it = ''flow'' \<or> it_id it \<in> set (fl_stale f))) base
     @ map (\<lambda>it. it\<lparr>it_flow := []\<rparr>) (filter (\<lambda>it. it_flow it = flow \<and> it_type it \<noteq> ''flow'') its)"

partial_function (option) board :: "flow_index \<Rightarrow> item list \<Rightarrow> string \<Rightarrow> item list option" where
  "board fx its flow = (if flow = [] then Some (main_board fx its)
     else (case fx_get fx flow of None \<Rightarrow> Some []
       | Some f \<Rightarrow> Option.bind (board fx its (fl_parent f)) (\<lambda>base. Some (branch_board f flow base its))))"

declare board.simps [code]

definition view_of :: "change \<Rightarrow> string \<Rightarrow> change option" where
  "view_of c flow = map_option (\<lambda>its. c\<lparr>ch_items := its\<rparr>) (board (flows (ch_items c)) (ch_items c) flow)"

subsection \<open>What depends on the seeds of a relaunch\<close>

definition depends_on :: "item \<Rightarrow> string list \<Rightarrow> bool" where
  "depends_on it stale \<longleftrightarrow> list_ex (\<lambda>d. d \<in> set stale) (it_derived_from it)
     \<or> (case it_decision it of None \<Rightarrow> False | Some d \<Rightarrow> dc_item d \<in> set stale)"

definition stale_pass :: "item list \<Rightarrow> string list \<Rightarrow> string list" where
  "stale_pass its stale = foldl (\<lambda>st it. if it_id it \<in> set st \<or> it_type it = ''flow'' \<or> \<not> depends_on it st then st else it_id it # st) stale its"

lemma stale_pass_Cons: "stale_pass (it # its) st = stale_pass its
    (if it_id it \<in> set st \<or> it_type it = ''flow'' \<or> \<not> depends_on it st then st else it_id it # st)"
  by (simp add: stale_pass_def)

lemma stale_pass_grows: "\<exists>new. stale_pass its st = new @ st \<and> set new \<subseteq> it_id ` set its \<and> set new \<inter> set st = {}"
proof (induction its arbitrary: st)
  case (Cons it its)
  let ?st = "if it_id it \<in> set st \<or> it_type it = ''flow'' \<or> \<not> depends_on it st then st else it_id it # st"
  obtain new where n: "stale_pass its ?st = new @ ?st" "set new \<subseteq> it_id ` set its" "set new \<inter> set ?st = {}"
    using Cons.IH by blast
  show ?case
    by (rule exI [of _ "if ?st = st then new else new @ [it_id it]"]) (use n in \<open>auto simp: stale_pass_Cons\<close>)
qed (simp add: stale_pass_def)

function stale_loop :: "item list \<Rightarrow> string list \<Rightarrow> string list" where
  "stale_loop its stale = (let st = stale_pass its stale in if st = stale then stale else stale_loop its st)"
  by pat_completeness auto
termination
proof (relation "measure (\<lambda>(its, st). card (it_id ` set its - set st))")
  fix its stale x
  assume "x = stale_pass its stale" "x \<noteq> stale"
  then obtain new where n: "stale_pass its stale = new @ stale" "set new \<subseteq> it_id ` set its" "set new \<inter> set stale = {}" "new \<noteq> []"
    using stale_pass_grows [of its stale] by auto
  then have "it_id ` set its - set (new @ stale) \<subset> it_id ` set its - set stale"
    by (cases new) auto
  then have "card (it_id ` set its - set x) < card (it_id ` set its - set stale)"
    unfolding \<open>x = stale_pass its stale\<close> n(1) by (intro psubset_card_mono) auto
  then show "((its, x), its, stale) \<in> measure (\<lambda>(its, st). card (it_id ` set its - set st))" by simp
qed simp

declare stale_loop.simps [simp del]

definition stale_closure :: "item list \<Rightarrow> string list \<Rightarrow> string list" where
  "stale_closure its seeds = (let st = stale_loop its seeds in map it_id (filter (\<lambda>it. it_id it \<in> set st) its))"

subsection \<open>The status of an item\<close>

definition own_status :: "item list \<Rightarrow> string \<Rightarrow> string \<times> string" where
  "own_status its i = foldl (\<lambda>so it. if it_id it = i then (it_status it, it_flow it) else so) (''proposed'', []) its"

definition decided_status :: "item list \<Rightarrow> string \<Rightarrow> string \<Rightarrow> string" where
  "decided_status its i st = foldl (\<lambda>st it. if it_type it = ''decision''
       then (case it_decision it of None \<Rightarrow> st
         | Some d \<Rightarrow> if dc_item d = i then (if dc_accept d then ''accepted'' else ''rejected'') else st)
       else st) st its"

fun stale_status :: "flow_index \<Rightarrow> string \<Rightarrow> flow list \<Rightarrow> string \<Rightarrow> string" where
  "stale_status fx i [] st = st"
| "stale_status fx i (f # fs) st = (if i \<notin> set (fl_stale f) then stale_status fx i fs st
     else (case effective fx (fl_id f) of
         FlowAdopted \<Rightarrow> ''superseded''
       | FlowOpen \<Rightarrow> stale_status fx i fs (if st = ''proposed'' \<or> st = ''accepted'' then ''stale'' else st)
       | FlowDiscarded \<Rightarrow> stale_status fx i fs st))"

definition effective_status :: "item list \<Rightarrow> string \<Rightarrow> string" where
  "effective_status its i =
     (if list_ex (\<lambda>it. i \<in> set (it_supersedes it)) its then ''superseded''
      else let (st0, own) = own_status its i; st = decided_status its i st0; fx = flows its in
        if own \<noteq> [] \<and> effective fx own = FlowOpen then ''candidate''
        else if own \<noteq> [] \<and> effective fx own = FlowDiscarded then ''rejected''
        else stale_status fx i (fx_list fx) st)"

definition in_effect :: "item list \<Rightarrow> string \<Rightarrow> bool" where
  "in_effect its i \<longleftrightarrow> effective_status its i \<notin> set [''rejected'', ''superseded'', ''candidate'']"

definition item_active :: "item list \<Rightarrow> string \<Rightarrow> bool" where
  "item_active its i \<longleftrightarrow> effective_status its i \<noteq> ''superseded'' \<and> effective_status its i \<noteq> ''candidate''"

subsection \<open>The replay keeps what it decided\<close>

lemma nth_update_if: "j < length xs \<Longrightarrow> xs[i := x] ! j = (if i = j then x else xs ! j)"
  by (cases "i = j") simp_all

definition evolves :: "flow \<Rightarrow> flow \<Rightarrow> bool" where
  "evolves f g \<longleftrightarrow> fl_id g = fl_id f \<and> fl_parent g = fl_parent f \<and> fl_stale g = fl_stale f \<and> fl_stale_runs g = fl_stale_runs f
     \<and> fl_option g = fl_option f \<and> (fl_status f = FlowOpen \<or> (fl_status g = fl_status f \<and> fl_decided_by g = fl_decided_by f
        \<and> fl_decided_at g = fl_decided_at f))"

definition extends :: "flow list \<Rightarrow> flow list \<Rightarrow> bool" where
  "extends xs ys \<longleftrightarrow> length xs \<le> length ys \<and> (\<forall>i < length xs. evolves (xs ! i) (ys ! i))"

lemma evolves_refl [simp]: "evolves f f"
  by (simp add: evolves_def)

lemma evolves_trans: "evolves f g \<Longrightarrow> evolves g h \<Longrightarrow> evolves f h"
  by (auto simp: evolves_def)

lemma extends_refl [simp]: "extends xs xs"
  by (simp add: extends_def)

lemma extends_trans: "extends xs ys \<Longrightarrow> extends ys zs \<Longrightarrow> extends xs zs"
  unfolding extends_def using evolves_trans order_trans less_le_trans by metis

definition replay_ok :: "replay \<Rightarrow> bool" where
  "replay_ok r \<longleftrightarrow> indexed fl_id (fx_by_id (rp_index r)) (fx_list (rp_index r))
     \<and> (fx_active (rp_index r) = [] \<or> (\<exists>f \<in> set (fx_list (rp_index r)). fl_id f = fx_active (rp_index r)
        \<and> fl_status f = FlowOpen \<and> fl_option f \<noteq> None))"

text \<open>A step of the replay: nothing, another active option, a flow opened, or an open flow that evolves.\<close>

inductive flow_move :: "replay \<Rightarrow> replay \<Rightarrow> bool" where
  active: "fx_list (rp_index r') = fx_list (rp_index r) \<Longrightarrow> fx_by_id (rp_index r') = fx_by_id (rp_index r)
    \<Longrightarrow> fx_active (rp_index r') \<in> {fx_active (rp_index r), []} \<or> (\<exists>i. map_of (fx_by_id (rp_index r)) (fx_active (rp_index r')) = Some i
      \<and> fl_status (fx_list (rp_index r) ! i) = FlowOpen \<and> fl_option (fx_list (rp_index r) ! i) \<noteq> None) \<Longrightarrow> flow_move r r'"
| opens: "map_of (fx_by_id (rp_index r)) (fl_id f) = None \<Longrightarrow> fx_list (rp_index r') = fx_list (rp_index r) @ [f]
    \<Longrightarrow> fx_by_id (rp_index r') = mput (fl_id f) (length (fx_list (rp_index r))) (fx_by_id (rp_index r))
    \<Longrightarrow> fx_active (rp_index r') = fx_active (rp_index r) \<Longrightarrow> flow_move r r'"
| changes: "map_of (fx_by_id (rp_index r)) i = Some n \<Longrightarrow> fl_status (fx_list (rp_index r) ! n) = FlowOpen
    \<Longrightarrow> evolves (fx_list (rp_index r) ! n) g \<Longrightarrow> fx_list (rp_index r') = (fx_list (rp_index r))[n := g]
    \<Longrightarrow> fx_by_id (rp_index r') = fx_by_id (rp_index r)
    \<Longrightarrow> fx_active (rp_index r') = (if fx_active (rp_index r) = i \<and> fl_status g \<noteq> FlowOpen then [] else fx_active (rp_index r))
    \<Longrightarrow> flow_move r r'"

lemma flow_event_move: "flow_move r (flow_event_step r pos t e)"
proof -
  let ?fx = "rp_index r" and ?i = "fe_flow e"
  have skip: "flow_move r r" by (rule flow_move.active) simp_all
  consider (opn) "fe_op e = ''open''" | (act) "fe_op e = ''activate''" | (dea) "fe_op e = ''deactivate''" | (eva) "fe_op e = ''evaluate''"
    | (dec) "fe_op e = ''adopt'' \<or> fe_op e = ''discard''" | (none) "fe_op e \<notin> set [''open'', ''activate'', ''deactivate'', ''evaluate'', ''adopt'', ''discard'']"
    by auto
  then show ?thesis
  proof cases
    case opn
    then show ?thesis using skip flow_move.opens [of r "opened_flow e t"]
      by (cases "map_of (fx_by_id ?fx) ?i") (auto simp: flow_event_step_def opened_flow_def Let_def)
  next
    case act
    then show ?thesis using skip
      by (cases "map_of (fx_by_id ?fx) ?i") (auto simp: flow_event_step_def Let_def intro!: flow_move.active)
  next
    case dea
    then show ?thesis using skip by (auto simp: flow_event_step_def Let_def intro!: flow_move.active)
  next
    case eva
    show ?thesis
    proof (cases "map_of (fx_by_id ?fx) ?i")
      case None
      then show ?thesis using eva skip by (simp add: flow_event_step_def Let_def)
    next
      case (Some n)
      show ?thesis
      proof (cases "fl_status (fx_list ?fx ! n) = FlowOpen")
        case True
        show ?thesis
          by (rule flow_move.changes [OF Some True, of "(fx_list ?fx ! n)\<lparr>fl_evaluated := True, fl_evaluation := fe_comment e\<rparr>"])
            (use eva Some True in \<open>simp_all add: flow_event_step_def Let_def evolves_def\<close>)
      qed (use eva Some skip in \<open>simp add: flow_event_step_def Let_def\<close>)
    qed
  next
    case dec
    show ?thesis
    proof (cases "map_of (fx_by_id ?fx) ?i")
      case None
      then show ?thesis using dec skip by (auto simp: flow_event_step_def Let_def)
    next
      case (Some n)
      show ?thesis
      proof (cases "fl_status (fx_list ?fx ! n) = FlowOpen")
        case True
        show ?thesis
          by (rule flow_move.changes [OF Some True, of "(fx_list ?fx ! n)\<lparr>fl_status := (if fe_op e = ''discard'' then FlowDiscarded else FlowAdopted),
              fl_decided_at := t, fl_decided_by := fe_by e\<rparr>"])
            (use dec Some True in \<open>auto simp: flow_event_step_def Let_def evolves_def\<close>)
      qed (use dec Some skip in \<open>auto simp: flow_event_step_def Let_def\<close>)
    qed
  next
    case none
    then show ?thesis using skip by (simp add: flow_event_step_def Let_def)
  qed
qed

lemma flow_step_move: "flow_move r (flow_step r p)"
  by (cases p) (auto simp: flow_step_def flow_event_move intro!: flow_move.active split: option.splits)

lemma move_extends: "flow_move r r' \<Longrightarrow> extends (fx_list (rp_index r)) (fx_list (rp_index r'))"
  by (induction rule: flow_move.induct) (auto simp: extends_def nth_append nth_update_if)

lemma move_ok: "flow_move r r' \<Longrightarrow> replay_ok r \<Longrightarrow> replay_ok r'"
proof (induction rule: flow_move.induct)
  case (active r' r)
  then have ix: "indexed fl_id (fx_by_id (rp_index r)) (fx_list (rp_index r))" by (simp add: replay_ok_def)
  show ?case
  proof (cases "fx_active (rp_index r') \<in> {fx_active (rp_index r), []}")
    case True
    then show ?thesis using active by (auto simp: replay_ok_def)
  next
    case False
    then obtain i where "map_of (fx_by_id (rp_index r)) (fx_active (rp_index r')) = Some i"
      "fl_status (fx_list (rp_index r) ! i) = FlowOpen" "fl_option (fx_list (rp_index r) ! i) \<noteq> None"
      using active(3) by blast
    then show ?thesis using active(1,2) ix indexed_Some [OF ix] by (auto simp: replay_ok_def intro!: bexI [of _ "fx_list (rp_index r) ! i"])
  qed
next
  case (opens r f r')
  then show ?case using indexed_snoc [of fl_id "fx_by_id (rp_index r)" "fx_list (rp_index r)" f] by (auto simp: replay_ok_def)
next
  case (changes r i n g r')
  then have ix: "indexed fl_id (fx_by_id (rp_index r)) (fx_list (rp_index r))" by (simp add: replay_ok_def)
  have n: "n < length (fx_list (rp_index r))" "fl_id (fx_list (rp_index r) ! n) = i" using indexed_Some [OF ix changes(1)] by simp_all
  have g: "fl_id g = i" "fl_option g = fl_option (fx_list (rp_index r) ! n)" using changes(3) n by (simp_all add: evolves_def)
  have "indexed fl_id (fx_by_id (rp_index r')) (fx_list (rp_index r'))"
    unfolding changes(4,5) using ix n g by (intro indexed_update) simp_all
  moreover have "fx_active (rp_index r') = [] \<or> (\<exists>f \<in> set (fx_list (rp_index r')). fl_id f = fx_active (rp_index r')
        \<and> fl_status f = FlowOpen \<and> fl_option f \<noteq> None)"
  proof (cases "fx_active (rp_index r') = []")
    case act: False
    then have same: "fx_active (rp_index r') = fx_active (rp_index r)" "fx_active (rp_index r) = i \<longrightarrow> fl_status g = FlowOpen"
      using changes(6) by (auto split: if_splits)
    obtain f where f: "f \<in> set (fx_list (rp_index r))" "fl_id f = fx_active (rp_index r)" "fl_status f = FlowOpen" "fl_option f \<noteq> None"
      using changes(7) act same(1) by (auto simp: replay_ok_def)
    then obtain m where m: "m < length (fx_list (rp_index r))" "fx_list (rp_index r) ! m = f" by (auto simp: in_set_conv_nth)
    show ?thesis
    proof (cases "m = n")
      case True
      then have "fl_id g = fx_active (rp_index r')" "fl_status g = FlowOpen" "fl_option g \<noteq> None" using m f n g same by auto
      moreover have "g \<in> set (fx_list (rp_index r'))" unfolding changes(4) using n by (simp add: set_update_memI)
      ultimately show ?thesis by blast
    next
      case False
      then have "f \<in> set (fx_list (rp_index r'))" unfolding changes(4) using m
        by (metis length_list_update nth_list_update_neq nth_mem)
      then show ?thesis using f same by auto
    qed
  qed simp
  ultimately show ?case by (simp add: replay_ok_def)
qed

lemma steps_ok: "replay_ok r \<Longrightarrow> replay_ok (foldl flow_step r ps) \<and> extends (fx_list (rp_index r)) (fx_list (rp_index (foldl flow_step r ps)))"
proof (induction ps arbitrary: r)
  case (Cons p ps)
  note m = flow_step_move [of r p]
  show ?case using Cons.IH [OF move_ok [OF m Cons.prems]] extends_trans [OF move_extends [OF m]] by simp
qed simp

lemma replay_of_ok: "replay_ok (replay_of its)"
  unfolding replay_of_def by (rule conjunct1 [OF steps_ok]) (simp add: replay_ok_def no_flows_def)

lemma replay_of_append: "extends (fx_list (rp_index (replay_of a))) (fx_list (rp_index (replay_of (a @ b))))"
  unfolding replay_of_def enumerate_append_eq foldl_append
  by (rule conjunct2 [OF steps_ok]) (rule replay_of_ok [unfolded replay_of_def])

text \<open>The competition and the active mark change neither the flows nor their decisions.\<close>

lemma flows_fields [simp]:
  "fx_by_id (flows its) = fx_by_id (rp_index (replay_of its))" "fx_active (flows its) = fx_active (rp_index (replay_of its))"
  "length (fx_list (flows its)) = length (fx_list (rp_index (replay_of its)))"
  by (simp_all add: flows_def Let_def split: option.splits)

lemma with_competition_fields [simp]:
  "fl_id (with_competition its r f) = fl_id f" "fl_parent (with_competition its r f) = fl_parent f"
  "fl_status (with_competition its r f) = fl_status f" "fl_stale (with_competition its r f) = fl_stale f"
  "fl_stale_runs (with_competition its r f) = fl_stale_runs f" "fl_option (with_competition its r f) = fl_option f"
  "fl_decided_by (with_competition its r f) = fl_decided_by f" "fl_decided_at (with_competition its r f) = fl_decided_at f"
  by (simp_all add: with_competition_def)

lemma flows_nth:
  assumes "i < length (fx_list (rp_index (replay_of its)))"
  shows "\<exists>a. fx_list (flows its) ! i = (with_competition its (replay_of its) (fx_list (rp_index (replay_of its)) ! i))\<lparr>fl_active := a\<rparr>"
proof -
  let ?x = "with_competition its (replay_of its) (fx_list (rp_index (replay_of its)) ! i)"
  show ?thesis
  proof (cases "map_of (fx_by_id (rp_index (replay_of its))) (fx_active (rp_index (replay_of its)))")
    case None
    then show ?thesis using assms by (intro exI [of _ "fl_active ?x"]) (simp add: flows_def Let_def)
  next
    case (Some j)
    then show ?thesis using assms
      by (intro exI [of _ "if j = i then True else fl_active ?x"]) (simp add: flows_def Let_def nth_update_if)
  qed
qed

lemma flows_evolves:
  assumes "i < length (fx_list (rp_index (replay_of its)))"
  shows "evolves (fx_list (rp_index (replay_of its)) ! i) (fx_list (flows its) ! i)
    \<and> evolves (fx_list (flows its) ! i) (fx_list (rp_index (replay_of its)) ! i)
    \<and> fl_status (fx_list (flows its) ! i) = fl_status (fx_list (rp_index (replay_of its)) ! i)"
  using flows_nth [OF assms] by (auto simp: evolves_def)

lemma flows_indexed: "indexed fl_id (fx_by_id (flows its)) (fx_list (flows its))"
proof -
  have "map fl_id (fx_list (flows its)) = map fl_id (fx_list (rp_index (replay_of its)))"
  proof (rule nth_equalityI)
    fix i assume "i < length (map fl_id (fx_list (flows its)))"
    then have i: "i < length (fx_list (rp_index (replay_of its)))" by simp
    then show "map fl_id (fx_list (flows its)) ! i = map fl_id (fx_list (rp_index (replay_of its))) ! i"
      using conjunct1 [OF flows_evolves [OF i]] unfolding evolves_def by simp
  qed simp
  then show ?thesis using replay_of_ok [of its] unfolding replay_ok_def indexed_keys [of fl_id] flows_fields by simp
qed

lemma fx_get_Some: "fx_get (flows its) i = Some f \<longleftrightarrow> f \<in> set (fx_list (flows its)) \<and> fl_id f = i"
proof
  assume "fx_get (flows its) i = Some f"
  then obtain n where "map_of (fx_by_id (flows its)) i = Some n" "fx_list (flows its) ! n = f" by (auto simp: fx_get_def)
  then show "f \<in> set (fx_list (flows its)) \<and> fl_id f = i" using indexed_Some [OF flows_indexed] by auto
next
  assume "f \<in> set (fx_list (flows its)) \<and> fl_id f = i"
  then obtain n where "n < length (fx_list (flows its))" "fx_list (flows its) ! n = f" "fl_id f = i" by (auto simp: in_set_conv_nth)
  then show "fx_get (flows its) i = Some f" using indexed_nth [OF flows_indexed] by (force simp: fx_get_def)
qed

text \<open>
  C11. What the log says of a flow stays true: a flow of the log is a flow of the longer log, with the
  parent, the stale items and the option it was opened with, and once adopted or discarded it stays so,
  with the principal who decided.
\<close>

theorem flow_decision_is_final:
  assumes "fx_get (flows before) i = Some f"
  shows "\<exists>g. fx_get (flows (before @ after)) i = Some g \<and> fl_parent g = fl_parent f \<and> fl_stale g = fl_stale f \<and> fl_option g = fl_option f
    \<and> (fl_status f = FlowOpen \<or> (fl_status g = fl_status f \<and> fl_decided_by g = fl_decided_by f))"
proof -
  have "f \<in> set (fx_list (flows before))" "fl_id f = i" using assms by (simp_all add: fx_get_Some)
  then obtain n where n: "n < length (fx_list (rp_index (replay_of before)))" "fx_list (flows before) ! n = f" by (auto simp: in_set_conv_nth)
  have x: "n < length (fx_list (rp_index (replay_of (before @ after))))"
    "evolves (fx_list (rp_index (replay_of before)) ! n) (fx_list (rp_index (replay_of (before @ after))) ! n)"
    using replay_of_append [of before after] n by (simp_all add: extends_def)
  let ?g = "fx_list (flows (before @ after)) ! n"
  have "?g \<in> set (fx_list (flows (before @ after)))" using x(1) by simp
  moreover have "evolves f ?g"
    using evolves_trans [OF conjunct1 [OF conjunct2 [OF flows_evolves [OF n(1)]]] evolves_trans [OF x(2) conjunct1 [OF flows_evolves [OF x(1)]]]]
    unfolding n(2) .
  ultimately show ?thesis using \<open>fl_id f = i\<close> by (intro exI [of _ ?g]) (auto simp: fx_get_Some evolves_def)
qed

definition flow_item :: "string \<Rightarrow> string \<Rightarrow> string \<Rightarrow> string list \<Rightarrow> item" where
  "flow_item op flow parent stale = \<lparr>it_id = op @ flow, it_type = ''flow'', it_target = [], it_status = ''accepted'', it_flow = [],
     it_flow_event = Some \<lparr>fe_op = op, fe_flow = flow, fe_parent = parent, fe_fork_after = [], fe_stale = stale, fe_stale_runs = [],
       fe_origin = None, fe_by = ''ann'', fe_option = None, fe_comment = []\<rparr>,
     it_decision_event = None, it_decision = None, it_recipient = [], it_data = None, it_produced_by = [],
     it_derived_from = [], it_supersedes = [], it_execution = [], it_created_at = 1\<rparr>"

definition fact_item :: "string \<Rightarrow> string \<Rightarrow> string list \<Rightarrow> item" where
  "fact_item i flow from = \<lparr>it_id = i, it_type = ''artifact'', it_target = [], it_status = ''proposed'', it_flow = flow,
     it_flow_event = None, it_decision_event = None, it_decision = None, it_recipient = [], it_data = None, it_produced_by = [],
     it_derived_from = from, it_supersedes = [], it_execution = [], it_created_at = 1\<rparr>"

theorem flow_decision_is_final_witness:
  "\<exists>g. fx_get (flows ([flow_item ''open'' ''f'' [] [], flow_item ''adopt'' ''f'' [] []] @ [flow_item ''discard'' ''f'' [] []])) ''f'' = Some g
     \<and> fl_status g = FlowAdopted"
proof -
  let ?b = "[flow_item ''open'' ''f'' [] [], flow_item ''adopt'' ''f'' [] []]"
  have "fx_get (flows ?b) ''f'' \<noteq> None \<and> fl_status (the (fx_get (flows ?b) ''f'')) = FlowAdopted" by code_simp
  then obtain f where f: "fx_get (flows ?b) ''f'' = Some f" "fl_status f = FlowAdopted" by auto
  show ?thesis using flow_decision_is_final [OF f(1), of "[flow_item ''discard'' ''f'' [] []]"] f(2) by auto
qed

end
