(* ===== verification/Boards.thy ===== *)
theory Boards
  imports Flows
begin

text \<open>
  What holds of the boards of contracts/domain/flow.go and change.go, and the opening of a flow of
  graph/graph/flow.go, which keeps the recursion over the parents of a flow finite. The ids the graph
  draws are an argument (a function from the number of the draw), as the catalogue of the item types in
  force; the storage of the log and the event bus are not modelled.
\<close>

subsection \<open>Opening and deciding a flow\<close>

record open_request =
  of_parent :: string
  of_fork_after :: string
  of_seeds :: "string list"
  of_stale_runs :: "string list"
  of_origin :: props
  of_items :: "item list"

datatype flow_error = ChangeClosed string | ParentDiscarded string | ForkNotOnFlow string
  | SeedNotOnFlow string | OwnOperation string | BadItem | UnknownFlow | FlowDecided | ParentNotAdopted | Competes string

text \<open>The check of an item: its validation, then the attributes its type declares in the catalogue.\<close>

type_synonym item_catalog = "string \<Rightarrow> (string \<times> (gval option \<Rightarrow> bool)) list option"

definition check_item :: "validators \<Rightarrow> item_catalog \<Rightarrow> item \<Rightarrow> bool" where
  "check_item reg cat it \<longleftrightarrow> validate_item reg it = None
     \<and> (case cat (it_type it) of None \<Rightarrow> False | Some checks \<Rightarrow> list_all (\<lambda>(n, ok). ok (pget (it_data it) n)) checks)"

definition flow_fact :: "string \<Rightarrow> time \<Rightarrow> flow_event \<Rightarrow> item" where
  "flow_fact i now e = \<lparr>it_id = i, it_type = ''flow'', it_target = ''flow.'' @ fe_op e, it_status = ''accepted'', it_flow = [],
     it_flow_event = Some e, it_decision_event = None, it_decision = None, it_recipient = [], it_data = None,
     it_produced_by = ''graph.flow'', it_derived_from = [], it_supersedes = [], it_execution = [], it_created_at = now\<rparr>"

definition flow_change_ok :: "change \<Rightarrow> flow_error option" where
  "flow_change_ok c = (if ch_status c \<noteq> ''draft'' \<and> ch_status c \<noteq> ''active'' then Some (ChangeClosed (ch_status c)) else None)"

fun new_items :: "(item \<Rightarrow> bool) \<Rightarrow> (nat \<Rightarrow> string) \<Rightarrow> nat \<Rightarrow> string \<Rightarrow> time \<Rightarrow> item list \<Rightarrow> flow_error + item list" where
  "new_items ok ids n flow now [] = Inr []"
| "new_items ok ids n flow now (it # its) =
     (if it_type it \<in> set [''flow'', ''transition'', ''decision_point''] then Inl (OwnOperation (it_type it))
      else let it' = it\<lparr>it_id := ids n, it_flow := flow, it_created_at := now,
                        it_status := (if it_status it = [] then ''accepted'' else it_status it)\<rparr> in
        if \<not> ok it' then Inl BadItem
        else (case new_items ok ids (n + 1) flow now its of Inl e \<Rightarrow> Inl e | Inr r \<Rightarrow> Inr (it' # r)))"

definition open_event :: "open_request \<Rightarrow> string \<Rightarrow> string list \<Rightarrow> flow_event" where
  "open_event req flow stale = \<lparr>fe_op = ''open'', fe_flow = flow, fe_parent = of_parent req, fe_fork_after = of_fork_after req,
     fe_stale = stale, fe_stale_runs = of_stale_runs req, fe_origin = of_origin req, fe_by = [], fe_option = None, fe_comment = []\<rparr>"

definition open_flow :: "(item \<Rightarrow> bool) \<Rightarrow> (nat \<Rightarrow> string) \<Rightarrow> time \<Rightarrow> change \<Rightarrow> open_request \<Rightarrow> (flow_error + change) option" where
  "open_flow ok ids now c req =
     (case flow_change_ok c of Some e \<Rightarrow> Some (Inl e)
      | None \<Rightarrow>
        if of_parent req \<noteq> [] \<and> flow_status_of (ch_items c) (of_parent req) = FlowDiscarded then Some (Inl (ParentDiscarded (of_parent req)))
        else (case board (flows (ch_items c)) (ch_items c) (of_parent req) of None \<Rightarrow> None
          | Some base \<Rightarrow> Some (
              if of_fork_after req \<noteq> [] \<and> of_fork_after req \<notin> it_id ` set base then Inl (ForkNotOnFlow (of_fork_after req))
              else (case find (\<lambda>s. s \<notin> it_id ` set base) (of_seeds req) of
                  Some s \<Rightarrow> Inl (SeedNotOnFlow s)
                | None \<Rightarrow> let flow = ids 0; stale = stale_closure base (of_seeds req) in
                    (case new_items ok ids 2 flow now (of_items req) of
                       Inl e \<Rightarrow> Inl e
                     | Inr its \<Rightarrow> Inr (c\<lparr>ch_items := ch_items c @ flow_fact (ids 1) now (open_event req flow stale) # its,
                         ch_status := (if ch_status c = ''draft'' then ''active'' else ch_status c)\<rparr>))))))"

text \<open>The decision of a flow: its guards, then the event (what it does to the nodes is not modelled here).\<close>

definition decide_flow :: "string \<Rightarrow> time \<Rightarrow> change \<Rightarrow> string \<Rightarrow> string \<Rightarrow> string \<Rightarrow> flow_error + change" where
  "decide_flow i now c flow op b =
     (case flow_change_ok c of Some e \<Rightarrow> Inl e
      | None \<Rightarrow> (case fx_get (flows (ch_items c)) flow of None \<Rightarrow> Inl UnknownFlow
        | Some cur \<Rightarrow>
            if fl_status cur \<noteq> FlowOpen then Inl FlowDecided
            else if op = ''adopt'' \<and> fl_parent cur \<noteq> [] \<and> flow_status_of (ch_items c) (fl_parent cur) \<noteq> FlowAdopted then Inl ParentNotAdopted
            else if op = ''adopt'' \<and> fl_competes_with cur \<noteq> [] then Inl (Competes (hd (fl_competes_with cur)))
            else Inr (c\<lparr>ch_items := ch_items c @ [flow_fact i now
                \<lparr>fe_op = op, fe_flow = flow, fe_parent = [], fe_fork_after = [], fe_stale = [], fe_stale_runs = [], fe_origin = None,
                  fe_by = b, fe_option = None, fe_comment = []\<rparr>]\<rparr>)))"

definition open_flows :: "item list \<Rightarrow> flow list" where
  "open_flows its = filter (\<lambda>f. fl_status f = FlowOpen) (fx_list (flows its))"

subsection \<open>The state of a chain of flows\<close>

text \<open>The flows from a flow up to the main one.\<close>

fun lineage :: "flow_index \<Rightarrow> string \<Rightarrow> flow list \<Rightarrow> bool" where
  "lineage fx i [] \<longleftrightarrow> i = []"
| "lineage fx i (f # fs) \<longleftrightarrow> i \<noteq> [] \<and> fx_get fx i = Some f \<and> lineage fx (fl_parent f) fs"

definition chain_status :: "flow list \<Rightarrow> flow_status \<Rightarrow> flow_status" where
  "chain_status w st = (if list_ex (\<lambda>f. fl_status f = FlowDiscarded) w then FlowDiscarded
     else if list_ex (\<lambda>f. fl_status f = FlowOpen) w then FlowOpen else st)"

lemma effective_loop_chain: "lineage fx i w \<Longrightarrow> length w \<le> n \<Longrightarrow> effective_loop fx n i st = chain_status w st"
proof (induction w arbitrary: i n st)
  case Nil
  then show ?case by (cases n) (simp_all add: chain_status_def)
next
  case (Cons f w)
  then obtain m where "n = Suc m" by (cases n) auto
  then show ?case using Cons by (auto simp: chain_status_def split: flow_status.splits)
qed

text \<open>
  The state of a flow is that of its chain: on a chain of at most 64 flows up to the main flow, it is
  discarded when one is, else open when one is, else adopted. A flow with an unknown ancestor within
  these counts as discarded.
\<close>

theorem effective_is_of_the_chain:
  assumes "lineage (flows its) i w" and "length w \<le> 64"
  shows "flow_status_of its i = (if list_ex (\<lambda>f. fl_status f = FlowDiscarded) w then FlowDiscarded
     else if list_ex (\<lambda>f. fl_status f = FlowOpen) w then FlowOpen else FlowAdopted)"
  using effective_loop_chain [OF assms(1), of max_hops FlowAdopted] assms(2)
  by (simp add: flow_status_of_def effective_def max_hops_def chain_status_def)

theorem effective_is_of_the_chain_witness:
  "flow_status_of [flow_item ''open'' ''f'' [] [], flow_item ''open'' ''g'' ''f'' [], flow_item ''adopt'' ''g'' [] []] ''g'' = FlowOpen"
proof -
  let ?its = "[flow_item ''open'' ''f'' [] [], flow_item ''open'' ''g'' ''f'' [], flow_item ''adopt'' ''g'' [] []]"
  let ?w = "[the (fx_get (flows ?its) ''g''), the (fx_get (flows ?its) ''f'')]"
  have l: "lineage (flows ?its) ''g'' ?w" by code_simp
  have s: "list_ex (\<lambda>f. fl_status f = FlowDiscarded) ?w = False" "list_ex (\<lambda>f. fl_status f = FlowOpen) ?w = True" by code_simp+
  show ?thesis using effective_is_of_the_chain [OF l] unfolding s by simp
qed

subsection \<open>Boards end\<close>

text \<open>Every flow is forked from the main flow or from one opened before it.\<close>

definition parents_ok :: "(string, nat) gomap \<Rightarrow> flow list \<Rightarrow> bool" where
  "parents_ok m fs \<longleftrightarrow> list_all (\<lambda>n. fl_parent (fs ! n) = [] \<or> (case map_of m (fl_parent (fs ! n)) of None \<Rightarrow> False | Some k \<Rightarrow> k < n))
     [0..<length fs]"

definition parents_first :: "item list \<Rightarrow> bool" where
  "parents_first its \<longleftrightarrow> parents_ok (fx_by_id (flows its)) (fx_list (flows its))"

lemma parents_ok_nth: "parents_ok m fs \<longleftrightarrow> (\<forall>n < length fs. fl_parent (fs ! n) = [] \<or> (\<exists>k < n. map_of m (fl_parent (fs ! n)) = Some k))"
proof -
  have "(case map_of m p of None \<Rightarrow> False | Some k \<Rightarrow> k < n) \<longleftrightarrow> (\<exists>k < n. map_of m p = Some k)" for p n
    by (auto split: option.split)
  then show ?thesis by (simp add: parents_ok_def list_all_iff Ball_def)
qed

lemma board_main [simp]: "board fx its [] = Some (main_board fx its)"
  by (subst board.simps) simp

lemma board_known:
  assumes "parents_ok (fx_by_id fx) (fx_list fx)" and "map_of (fx_by_id fx) flow = Some n" and "n < length (fx_list fx)"
  shows "\<exists>b. board fx its flow = Some b"
  using assms(2,3)
proof (induction n arbitrary: flow rule: less_induct)
  case (less n)
  let ?f = "fx_list fx ! n"
  have g: "fx_get fx flow = Some ?f" using less.prems by (simp add: fx_get_def)
  consider "fl_parent ?f = []" | k where "k < n" "map_of (fx_by_id fx) (fl_parent ?f) = Some k"
    using assms(1) less.prems(2) by (auto simp: parents_ok_nth)
  then have "\<exists>b. board fx its (fl_parent ?f) = Some b"
    using less.IH less.prems(2) by cases auto
  then show ?case using g by (subst board.simps) auto
qed

lemma board_ends: "parents_first its \<Longrightarrow> \<exists>b. board (flows its) its flow = Some b"
  using board_known [of "flows its"] indexed_Some [OF flows_indexed]
  by (cases "map_of (fx_by_id (flows its)) flow") (subst board.simps, simp add: fx_get_def, auto simp: parents_first_def)

lemma parents_ok_cong:
  assumes "length fs = length gs" and "\<And>n. n < length fs \<Longrightarrow> fl_parent (fs ! n) = fl_parent (gs ! n)"
  shows "parents_ok m fs = parents_ok m gs"
  using assms by (simp add: parents_ok_nth)

lemma parents_first_replay: "parents_first its \<longleftrightarrow> parents_ok (fx_by_id (rp_index (replay_of its))) (fx_list (rp_index (replay_of its)))"
  unfolding parents_first_def flows_fields
proof (rule parents_ok_cong)
  fix n assume "n < length (fx_list (flows its))"
  then have "n < length (fx_list (rp_index (replay_of its)))" by simp
  from conjunct1 [OF flows_evolves [OF this]]
  show "fl_parent (fx_list (flows its) ! n) = fl_parent (fx_list (rp_index (replay_of its)) ! n)" by (simp add: evolves_def)
qed simp

text \<open>A flow opened on the main flow or on a known one keeps it, and so does any other item.\<close>

definition opens_known :: "flow_index \<Rightarrow> item \<Rightarrow> bool" where
  "opens_known fx it \<longleftrightarrow> (if it_type it \<noteq> ''flow'' then True else (case it_flow_event it of None \<Rightarrow> True
     | Some e \<Rightarrow> fe_op e \<noteq> ''open'' \<or> fe_parent e = [] \<or> map_of (fx_by_id fx) (fe_parent e) \<noteq> None))"

lemma event_step_same: "fe_op e \<noteq> ''open'' \<Longrightarrow> fx_by_id (rp_index (flow_event_step r pos t e)) = fx_by_id (rp_index r)
    \<and> length (fx_list (rp_index (flow_event_step r pos t e))) = length (fx_list (rp_index r))"
  by (simp add: flow_event_step_def Let_def split: option.splits)

lemma parents_ok_snoc:
  assumes "indexed fl_id m fs" and "parents_ok m fs" and "map_of m (fl_id f) = None" and "fl_parent f = [] \<or> map_of m (fl_parent f) \<noteq> None"
  shows "parents_ok (mput (fl_id f) (length fs) m) (fs @ [f])"
proof -
  have "\<exists>k < length fs. map_of m p = Some k" if "map_of m p \<noteq> None" for p using that indexed_Some [OF assms(1)] by blast
  then show ?thesis using assms by (auto simp: parents_ok_nth nth_append less_Suc_eq)
qed

lemma flow_step_parents:
  assumes "replay_ok r" and "parents_ok (fx_by_id (rp_index r)) (fx_list (rp_index r))" and "opens_known (rp_index r) it"
  shows "parents_ok (fx_by_id (rp_index (flow_step r (pos, it)))) (fx_list (rp_index (flow_step r (pos, it))))"
proof -
  have ix: "indexed fl_id (fx_by_id (rp_index r)) (fx_list (rp_index r))" using assms(1) by (simp add: replay_ok_def)
  have "parents_ok (fx_by_id (rp_index (flow_event_step r pos t e))) (fx_list (rp_index (flow_event_step r pos t e)))"
    if ok: "fe_op e \<noteq> ''open'' \<or> fe_parent e = [] \<or> map_of (fx_by_id (rp_index r)) (fe_parent e) \<noteq> None" for t e
  proof (cases "fe_op e = ''open''")
    case True
    show ?thesis
    proof (cases "map_of (fx_by_id (rp_index r)) (fe_flow e)")
      case None
      have "fl_id (opened_flow e t) = fe_flow e" "fl_parent (opened_flow e t) = fe_parent e" by (simp_all add: opened_flow_def)
      then show ?thesis using parents_ok_snoc [OF ix assms(2), of "opened_flow e t"] None True ok
        by (simp add: flow_event_step_def Let_def)
    qed (use True assms(2) in \<open>simp add: flow_event_step_def Let_def\<close>)
  next
    case False
    then have s: "fx_by_id (rp_index (flow_event_step r pos t e)) = fx_by_id (rp_index r)"
      "length (fx_list (rp_index (flow_event_step r pos t e))) = length (fx_list (rp_index r))" using event_step_same by auto
    have "parents_ok (fx_by_id (rp_index r)) (fx_list (rp_index (flow_event_step r pos t e)))"
      using assms(2) move_extends [OF flow_event_move [of r pos t e]] s(2)
      by (subst parents_ok_cong [of _ "fx_list (rp_index r)"]) (auto simp: extends_def evolves_def)
    then show ?thesis unfolding s(1) .
  qed
  then show ?thesis using assms(2,3) by (auto simp: flow_step_def opens_known_def split: option.splits)
qed

lemma parents_first_snoc:
  assumes "parents_first its" and "opens_known (flows its) it"
  shows "parents_first (its @ [it])"
proof -
  have "opens_known (rp_index (replay_of its)) it"
    using assms(2) unfolding opens_known_def flows_fields .
  from flow_step_parents [OF replay_of_ok assms(1) [unfolded parents_first_replay] this, of "length its"]
  show ?thesis by (simp add: parents_first_replay replay_of_def enumerate_append_eq)
qed

lemma parents_first_facts:
  "parents_first its \<Longrightarrow> list_all (\<lambda>it. it_type it \<noteq> ''flow'') new \<Longrightarrow> parents_first (its @ new)"
proof (induction new arbitrary: its)
  case (Cons it new)
  then have "parents_first (its @ [it])" by (intro parents_first_snoc) (simp_all add: opens_known_def)
  then show ?case using Cons.IH [of "its @ [it]"] Cons.prems(2) by simp
qed simp

lemma new_items_facts: "new_items ok ids n flow now its = Inr r \<Longrightarrow> list_all (\<lambda>it. it_type it \<noteq> ''flow'') r"
  by (induction ok ids n flow now its arbitrary: r rule: new_items.induct) (auto simp: Let_def split: if_splits sum.splits)

lemma status_known: "flow_status_of its p \<noteq> FlowDiscarded \<Longrightarrow> p \<noteq> [] \<Longrightarrow> map_of (fx_by_id (flows its)) p \<noteq> None"
  by (cases "map_of (fx_by_id (rp_index (replay_of its))) p")
    (simp_all add: flow_status_of_def effective_def max_hops_def eval_nat_numeral fx_get_def)

text \<open>The logs of a change: a flow is opened by the operation, any other item is appended.\<close>

inductive flow_log :: "item list \<Rightarrow> bool" where
  empty: "flow_log []"
| opened: "flow_log (ch_items c) \<Longrightarrow> open_flow ok ids now c req = Some (Inr c') \<Longrightarrow> flow_log (ch_items c')"
| appended: "flow_log its \<Longrightarrow> it_type it \<noteq> ''flow'' \<or> (case it_flow_event it of None \<Rightarrow> True | Some e \<Rightarrow> fe_op e \<noteq> ''open'')
    \<Longrightarrow> flow_log (its @ [it])"

lemma open_flow_items:
  assumes "open_flow ok ids now c req = Some (Inr c')"
  shows "\<exists>stale new. ch_items c' = ch_items c @ flow_fact (ids 1) now (open_event req (ids 0) stale) # new
    \<and> list_all (\<lambda>it. it_type it \<noteq> ''flow'') new \<and> (of_parent req = [] \<or> flow_status_of (ch_items c) (of_parent req) \<noteq> FlowDiscarded)"
  using assms by (auto simp: open_flow_def Let_def split: option.splits if_splits sum.splits dest: new_items_facts)

lemma open_flow_parents:
  assumes "open_flow ok ids now c req = Some (Inr c')" and "parents_first (ch_items c)"
  shows "parents_first (ch_items c')"
proof -
  obtain stale new where i: "ch_items c' = ch_items c @ flow_fact (ids 1) now (open_event req (ids 0) stale) # new"
    "list_all (\<lambda>it. it_type it \<noteq> ''flow'') new" "of_parent req = [] \<or> flow_status_of (ch_items c) (of_parent req) \<noteq> FlowDiscarded"
    using open_flow_items [OF assms(1)] by blast
  let ?it = "flow_fact (ids 1) now (open_event req (ids 0) stale)"
  have "opens_known (flows (ch_items c)) ?it"
    using i(3) status_known [of "ch_items c" "of_parent req"] by (auto simp: opens_known_def flow_fact_def open_event_def)
  then have "parents_first (ch_items c @ [?it])" using assms(2) by (rule parents_first_snoc [rotated])
  then show ?thesis unfolding i(1) using parents_first_facts [OF _ i(2)] by fastforce
qed

lemma flow_log_parents: "flow_log its \<Longrightarrow> parents_first its"
proof (induction rule: flow_log.induct)
  case empty
  show ?case by code_simp
next
  case (opened c ok ids now req c')
  then show ?case using open_flow_parents by blast
next
  case (appended its it)
  then show ?case by (intro parents_first_snoc) (auto simp: opens_known_def split: option.splits)
qed

text \<open>
  C32. The recursion over the parents of a flow ends: in a log whose flows were opened by the operation,
  the board of every flow is built; a flow event is on no board of a branch, every item of the branch is
  on its board, and an item of its parent's board is kept exactly when it is no flow event and the branch
  did not make it stale.
\<close>

theorem boards_end:
  assumes "flow_log its" and "fx_get (flows its) flow = Some f" and "flow \<noteq> []"
  shows "\<exists>b base. board (flows its) its flow = Some b \<and> board (flows its) its (fl_parent f) = Some base
    \<and> list_all (\<lambda>it. it_type it \<noteq> ''flow'') b
    \<and> set b = {it \<in> set base. it_type it \<noteq> ''flow'' \<and> it_id it \<notin> set (fl_stale f)}
        \<union> (\<lambda>it. it\<lparr>it_flow := []\<rparr>) ` {it \<in> set its. it_flow it = flow \<and> it_type it \<noteq> ''flow''}"
proof -
  obtain base where b: "board (flows its) its (fl_parent f) = Some base" using board_ends [OF flow_log_parents [OF assms(1)]] by blast
  have "board (flows its) its flow = Some (branch_board f flow base its)" by (subst board.simps) (simp add: assms(2,3) b)
  then show ?thesis using b by (intro exI [of _ "branch_board f flow base its"] exI [of _ base]) (auto simp: branch_board_def list_all_iff)
qed

definition demo_request :: "string \<Rightarrow> string list \<Rightarrow> open_request" where
  "demo_request parent seeds = \<lparr>of_parent = parent, of_fork_after = [], of_seeds = seeds, of_stale_runs = [], of_origin = None, of_items = []\<rparr>"

definition demo_change :: "item list \<Rightarrow> change" where
  "demo_change its = \<lparr>ch_id = ''c'', ch_title = [], ch_intent = [], ch_methodology = [], ch_methodology_version = [], ch_namespace = [],
     ch_parent_id = [], ch_owner_org = zero_url, ch_project_id = zero_url, ch_lifecycle = [], ch_state = [], ch_goal = [],
     ch_guardians = [], ch_depends_on = [], ch_status = ''draft'', ch_fork_commit = [], ch_branch = [], ch_landed_commit = [],
     ch_stats = zero_stats, ch_data = None, ch_seq = 0, ch_items = its, ch_nodes = None, ch_shared = impacts_of [], ch_created_at = 0\<rparr>"

theorem boards_end_witness:
  "\<exists>c'. open_flow (\<lambda>_. True) (\<lambda>n. if n = 0 then ''f'' else ''e'') 9 (demo_change [fact_item ''a'' [] [], fact_item ''b'' [] [''a'']])
      (demo_request [] [''a'']) = Some (Inr c')
    \<and> (\<exists>b. board (flows (ch_items c')) (ch_items c') ''f'' = Some b \<and> list_all (\<lambda>it. it_type it \<noteq> ''flow'') b)"
proof -
  let ?its = "[fact_item ''a'' [] [], fact_item ''b'' [] [''a'']]"
  let ?o = "open_flow (\<lambda>_. True) (\<lambda>n. if n = 0 then ''f'' else ''e'') 9 (demo_change ?its) (demo_request [] [''a''])"
  let ?new = "?its @ [flow_fact ''e'' 9 (open_event (demo_request [] [''a'']) ''f'' [''a'', ''b''])]"
  have "case ?o of Some (Inr c) \<Rightarrow> ch_items c = ?new | _ \<Rightarrow> False" by code_simp
  then obtain c where o: "?o = Some (Inr c)" "ch_items c = ?new" by (auto split: option.splits sum.splits)
  have "flow_log ([] @ [fact_item ''a'' [] []])" by (rule flow_log.appended [OF flow_log.empty]) (simp add: fact_item_def)
  from flow_log.appended [OF this, of "fact_item ''b'' [] [''a'']"] have "flow_log ?its" by (simp add: fact_item_def)
  then have "flow_log (ch_items (demo_change ?its))" by (simp only: demo_change_def change.select_convs)
  from flow_log.opened [OF this o(1)] have l: "flow_log (ch_items c)" .
  have "fx_get (flows ?new) ''f'' \<noteq> None" by code_simp
  then obtain f where f: "fx_get (flows (ch_items c)) ''f'' = Some f" unfolding o(2) by blast
  show ?thesis using boards_end [OF l f] o(1) by blast
qed

subsection \<open>What a relaunch makes stale\<close>

text \<open>What depends on the seeds: what is derived from something that does, or decides on it.\<close>

inductive_set stale_reach :: "item list \<Rightarrow> string list \<Rightarrow> string set" for its seeds where
  seed: "s \<in> set seeds \<Longrightarrow> s \<in> stale_reach its seeds"
| derived: "it \<in> set its \<Longrightarrow> it_type it \<noteq> ''flow'' \<Longrightarrow> d \<in> set (it_derived_from it) \<Longrightarrow> d \<in> stale_reach its seeds
    \<Longrightarrow> it_id it \<in> stale_reach its seeds"
| decides: "it \<in> set its \<Longrightarrow> it_type it \<noteq> ''flow'' \<Longrightarrow> it_decision it = Some d \<Longrightarrow> dc_item d \<in> stale_reach its seeds
    \<Longrightarrow> it_id it \<in> stale_reach its seeds"

lemma depends_reach: "it \<in> set its \<Longrightarrow> it_type it \<noteq> ''flow'' \<Longrightarrow> depends_on it st \<Longrightarrow> set st \<subseteq> stale_reach its seeds
    \<Longrightarrow> it_id it \<in> stale_reach its seeds"
  by (auto simp: depends_on_def list_ex_iff split: option.splits intro: stale_reach.derived stale_reach.decides)

lemma stale_pass_reach: "set xs \<subseteq> set its \<Longrightarrow> set st \<subseteq> stale_reach its seeds \<Longrightarrow> set (stale_pass xs st) \<subseteq> stale_reach its seeds"
proof (induction xs arbitrary: st)
  case (Cons x xs)
  let ?st = "if it_id x \<in> set st \<or> it_type x = ''flow'' \<or> \<not> depends_on x st then st else it_id x # st"
  have "set ?st \<subseteq> stale_reach its seeds" using Cons.prems depends_reach [of x its st seeds] by auto
  then show ?case using Cons by (simp add: stale_pass_Cons)
qed (simp add: stale_pass_def)

lemma stale_pass_fixed: "stale_pass its st = st \<Longrightarrow> it \<in> set its \<Longrightarrow> it_id it \<in> set st \<or> it_type it = ''flow'' \<or> \<not> depends_on it st"
proof (induction its)
  case (Cons x xs)
  show ?case
  proof (cases "it_id x \<in> set st \<or> it_type x = ''flow'' \<or> \<not> depends_on x st")
    case True
    then show ?thesis using Cons by (auto simp: stale_pass_Cons)
  next
    case False
    then have "stale_pass xs (it_id x # st) = st" using Cons.prems(1) by (simp add: stale_pass_Cons)
    moreover obtain new where "stale_pass xs (it_id x # st) = new @ it_id x # st" using stale_pass_grows by blast
    ultimately have "length (new @ it_id x # st) = length st" by simp
    then show ?thesis by simp
  qed
qed simp

lemma stale_loop_spec:
  "set seeds \<subseteq> set stale \<Longrightarrow> set stale \<subseteq> stale_reach its seeds
    \<Longrightarrow> set seeds \<subseteq> set (stale_loop its stale) \<and> set (stale_loop its stale) \<subseteq> stale_reach its seeds
      \<and> stale_pass its (stale_loop its stale) = stale_loop its stale"
proof (induction its stale rule: stale_loop.induct)
  case (1 its stale)
  show ?case
  proof (cases "stale_pass its stale = stale")
    case True
    then have "stale_loop its stale = stale" by (simp add: stale_loop.simps [of its stale])
    then show ?thesis using 1(2,3) True by simp
  next
    case False
    have l: "stale_loop its stale = stale_loop its (stale_pass its stale)" using False by (simp add: stale_loop.simps [of its stale])
    have "set seeds \<subseteq> set (stale_pass its stale)" using 1(2) stale_pass_grows [of its stale] by auto
    moreover have "set (stale_pass its stale) \<subseteq> stale_reach its seeds" using 1(3) stale_pass_reach [of its its stale seeds] by simp
    ultimately show ?thesis unfolding l using 1(1) [OF refl False] by simp
  qed
qed

lemma stale_loop_reach: "set (stale_loop its seeds) = stale_reach its seeds"
proof
  note spec = stale_loop_spec [of seeds seeds its]
  have s: "set seeds \<subseteq> stale_reach its seeds" by (auto intro: stale_reach.seed)
  then show "set (stale_loop its seeds) \<subseteq> stale_reach its seeds" using spec by simp
  have fixed: "stale_pass its (stale_loop its seeds) = stale_loop its seeds" and sub: "set seeds \<subseteq> set (stale_loop its seeds)"
    using spec s by simp_all
  show "stale_reach its seeds \<subseteq> set (stale_loop its seeds)"
  proof
    fix x assume "x \<in> stale_reach its seeds"
    then show "x \<in> set (stale_loop its seeds)"
    proof induction
      case (seed s)
      then show ?case using sub by blast
    next
      case (derived it d)
      then show ?case using stale_pass_fixed [OF fixed derived(1)] by (auto simp: depends_on_def list_ex_iff)
    next
      case (decides it d)
      then show ?case using stale_pass_fixed [OF fixed decides(1)] by (auto simp: depends_on_def)
    qed
  qed
qed

text \<open>
  C33. The loop that marks stale items ends with exactly the items that depend on the seeds, in the order
  of the board: those reached from a seed through items derived from one another or deciding on one
  another, flow events aside.
\<close>

theorem stale_closure_is_reach:
  "stale_closure its seeds = map it_id (filter (\<lambda>it. it_id it \<in> stale_reach its seeds) its)"
  by (simp add: stale_closure_def Let_def stale_loop_reach)

subsection \<open>What counts for a change\<close>

definition not_counted :: "string set" where
  "not_counted = {''rejected'', ''superseded'', ''candidate''}"

lemma stale_status_counts:
  "stale_status fx i fs st \<notin> not_counted \<longleftrightarrow> st \<notin> not_counted \<and> \<not> list_ex (\<lambda>f. i \<in> set (fl_stale f) \<and> effective fx (fl_id f) = FlowAdopted) fs"
proof (induction fs arbitrary: st)
  case (Cons f fs)
  have k: "(if st = ''proposed'' \<or> st = ''accepted'' then ''stale'' else st) \<notin> not_counted \<longleftrightarrow> st \<notin> not_counted"
    by (cases "st = ''proposed''"; cases "st = ''accepted''") (simp_all add: not_counted_def)
  have s: "''superseded'' \<in> not_counted" by (simp add: not_counted_def)
  show ?case
    by (cases "i \<in> set (fl_stale f)"; cases "effective fx (fl_id f)") (simp_all only: stale_status.simps list_ex_Cons_iff Cons.IH k s
      flow_status.case flow_status.distinct if_True if_False simp_thms)
qed simp

lemma in_effect_eq:
  assumes "own_status its i = (st, own)"
  shows "in_effect its i \<longleftrightarrow> \<not> list_ex (\<lambda>it. i \<in> set (it_supersedes it)) its \<and> (own = [] \<or> flow_status_of its own = FlowAdopted)
    \<and> \<not> list_ex (\<lambda>f. i \<in> set (fl_stale f) \<and> flow_status_of its (fl_id f) = FlowAdopted) (fx_list (flows its))
    \<and> decided_status its i st \<notin> not_counted"
proof -
  have e: "in_effect its i \<longleftrightarrow> effective_status its i \<notin> not_counted" by (simp add: in_effect_def not_counted_def)
  have n: "''superseded'' \<in> not_counted" "''candidate'' \<in> not_counted" "''rejected'' \<in> not_counted" by (simp_all add: not_counted_def)
  have pick: "(if A then ''superseded'' else if own \<noteq> [] \<and> E = FlowOpen then ''candidate''
      else if own \<noteq> [] \<and> E = FlowDiscarded then ''rejected'' else S) \<notin> not_counted
    \<longleftrightarrow> \<not> A \<and> (own = [] \<or> E = FlowAdopted) \<and> S \<notin> not_counted" for A E S
    using n by (cases E) simp_all
  show ?thesis
    unfolding e effective_status_def assms Let_def prod.case flow_status_of_def pick stale_status_counts by blast
qed

lemma own_status_unique:
  assumes "distinct (map it_id its)" and "it \<in> set its"
  shows "own_status its (it_id it) = (it_status it, it_flow it)"
proof -
  obtain a b where s: "its = a @ it # b" using assms(2) by (meson split_list)
  have "foldl (\<lambda>so x. if it_id x = it_id it then (it_status x, it_flow x) else so) so b = so" for so
    using assms(1) unfolding s by (induction b) auto
  then show ?thesis by (simp add: own_status_def s)
qed

text \<open>
  An item counts for the change exactly when it is on the main board, no item supersedes it, no
  adopted flow made it stale, and its last decision (its own status when there is none) does not reject
  it.
\<close>

theorem in_effect_iff_on_board:
  assumes "distinct (map it_id its)" and "it \<in> set its"
  shows "in_effect its (it_id it) \<longleftrightarrow> it \<in> set (main_board (flows its) its)
    \<and> \<not> list_ex (\<lambda>x. it_id it \<in> set (it_supersedes x)) its
    \<and> \<not> list_ex (\<lambda>f. it_id it \<in> set (fl_stale f) \<and> flow_status_of its (fl_id f) = FlowAdopted) (fx_list (flows its))
    \<and> decided_status its (it_id it) (it_status it) \<notin> not_counted"
  using in_effect_eq [OF own_status_unique [OF assms]] assms(2) by (auto simp: main_board_def flow_status_of_def)

theorem in_effect_iff_on_board_witness:
  "let its = [fact_item ''a'' [] [], flow_item ''open'' ''f'' [] [''a''], fact_item ''b'' ''f'' [], flow_item ''adopt'' ''f'' [] []]
   in in_effect its ''b'' \<and> \<not> in_effect its ''a''"
proof -
  let ?its = "[fact_item ''a'' [] [], flow_item ''open'' ''f'' [] [''a''], fact_item ''b'' ''f'' [], flow_item ''adopt'' ''f'' [] []]"
  have d: "distinct (map it_id ?its)" by code_simp
  have a: "it_id (fact_item ''a'' [] []) = ''a''" "it_id (fact_item ''b'' ''f'' []) = ''b''" by (simp_all add: fact_item_def)
  have s: "list_ex (\<lambda>f. ''a'' \<in> set (fl_stale f) \<and> flow_status_of ?its (fl_id f) = FlowAdopted) (fx_list (flows ?its)) = True"
    "(fact_item ''b'' ''f'' [] \<in> set (main_board (flows ?its) ?its)) = True"
    "list_ex (\<lambda>x. ''b'' \<in> set (it_supersedes x)) ?its = False"
    "list_ex (\<lambda>f. ''b'' \<in> set (fl_stale f) \<and> flow_status_of ?its (fl_id f) = FlowAdopted) (fx_list (flows ?its)) = False"
    "decided_status ?its ''b'' (it_status (fact_item ''b'' ''f'' [])) = ''proposed''" by code_simp+
  have n: "''proposed'' \<notin> not_counted" by (simp add: not_counted_def)
  show ?thesis
    using in_effect_iff_on_board [OF d, of "fact_item ''a'' [] []"] in_effect_iff_on_board [OF d, of "fact_item ''b'' ''f'' []"]
    unfolding a s Let_def using n by simp
qed

end
