(* ===== verification/Moves.thy ===== *)
theory Moves
  imports Boards
begin

text \<open>
  contracts/domain/transition.go: the journal of the state of a change, the transitions that stand and
  the freezes in force; and the methodology references of change.go. The freezes of a move are read from
  the data of its item as it is stored (a JSON object); a Freezes value a process has just written and
  not read back is not a value of the model.
\<close>

record state_move =
  sm_item :: string
  sm_transition :: string
  sm_from :: string
  sm_to :: string
  sm_decision :: string
  sm_by :: string
  sm_freezes :: "freezes option"

fun freezes_of :: "gval option \<Rightarrow> freezes option" where
  "freezes_of (Some (GMap m)) = Some \<lparr>fz_fields = strs_of (map_of m ''fields''), fz_types = strs_of (map_of m ''types''),
     fz_transitions = bool_of (map_of m ''transitions''), fz_keep_phase = bool_of (map_of m ''keepPhase'')\<rparr>"
| "freezes_of _ = None"

definition state_moves :: "item list \<Rightarrow> state_move list" where
  "state_moves its = map (\<lambda>it. \<lparr>sm_item = it_id it, sm_transition = str_of (pget (it_data it) ''transition''),
       sm_from = str_of (pget (it_data it) ''from''), sm_to = str_of (pget (it_data it) ''to''),
       sm_decision = str_of (pget (it_data it) ''decision''), sm_by = it_produced_by it, sm_freezes = freezes_of (pget (it_data it) ''freezes'')\<rparr>)
     (filter (\<lambda>it. it_type it = ''transition'' \<and> it_flow it = []) its)"

definition move_from :: "state_move list \<Rightarrow> string \<Rightarrow> string" where
  "move_from ms t = foldl (\<lambda>from m. if sm_transition m = t then sm_from m else from) [] ms"

definition pass_step :: "(string \<Rightarrow> string) \<Rightarrow> string list \<Rightarrow> state_move \<Rightarrow> string list" where
  "pass_step from out m = filter (\<lambda>t. from t \<noteq> sm_to m \<and> t \<noteq> sm_transition m) out @ [sm_transition m]"

definition passed :: "item list \<Rightarrow> string list" where
  "passed its = (let ms = state_moves its in foldl (pass_step (move_from ms)) [] ms)"

definition consumed_decisions :: "item list \<Rightarrow> string list" where
  "consumed_decisions its = filter (\<lambda>d. d \<noteq> []) (map sm_decision (state_moves its))"

text \<open>The moves from the last one back: the freezes kept, and the transitions seen.\<close>

fun freeze_loop :: "string list \<Rightarrow> state_move list \<Rightarrow> string list \<Rightarrow> freezes list \<Rightarrow> freezes list" where
  "freeze_loop ps [] seen out = out"
| "freeze_loop ps (m # ms) seen out = (case sm_freezes m of
     None \<Rightarrow> freeze_loop ps ms seen out
   | Some f \<Rightarrow> if sm_transition m \<notin> set ps \<or> sm_transition m \<in> set seen then freeze_loop ps ms seen out
       else freeze_loop ps ms (sm_transition m # seen) (f # out))"

definition in_force_freezes :: "item list \<Rightarrow> freezes list" where
  "in_force_freezes its = freeze_loop (passed its) (rev (state_moves its)) [] []"

subsection \<open>The transitions that stand\<close>

lemma move_from_last:
  "list_all (\<lambda>m. sm_transition m \<noteq> sm_transition x) b \<Longrightarrow> move_from (a @ x # b) (sm_transition x) = sm_from x"
proof -
  have "list_all (\<lambda>m. sm_transition m \<noteq> t) b \<Longrightarrow> foldl (\<lambda>from m. if sm_transition m = t then sm_from m else from) f b = f" for t f
    by (induction b) simp_all
  then show "list_all (\<lambda>m. sm_transition m \<noteq> sm_transition x) b \<Longrightarrow> move_from (a @ x # b) (sm_transition x) = sm_from x"
    by (simp add: move_from_def)
qed

lemma pass_fold:
  "distinct out \<Longrightarrow> distinct (foldl (pass_step from) out ms)
   \<and> (t \<in> set (foldl (pass_step from) out ms) \<longleftrightarrow>
       (t \<in> set out \<and> list_all (\<lambda>m. sm_transition m \<noteq> t \<and> sm_to m \<noteq> from t) ms)
       \<or> (\<exists>a m b. ms = a @ m # b \<and> sm_transition m = t \<and> list_all (\<lambda>m. sm_transition m \<noteq> t \<and> sm_to m \<noteq> from t) b))"
proof (induction ms arbitrary: out)
  case (Cons x ms)
  let ?ok = "\<lambda>m. sm_transition m \<noteq> t \<and> sm_to m \<noteq> from t"
  have d: "distinct (pass_step from out x)" using Cons.prems by (simp add: pass_step_def)
  have m: "t \<in> set (pass_step from out x) \<longleftrightarrow> t = sm_transition x \<or> (t \<in> set out \<and> ?ok x)" by (auto simp: pass_step_def)
  have s: "(\<exists>a m b. x # ms = a @ m # b \<and> sm_transition m = t \<and> list_all ?ok b)
      \<longleftrightarrow> (sm_transition x = t \<and> list_all ?ok ms) \<or> (\<exists>a m b. ms = a @ m # b \<and> sm_transition m = t \<and> list_all ?ok b)"
    (is "?l \<longleftrightarrow> ?r")
  proof
    assume ?l
    then obtain a m b where h: "x # ms = a @ m # b" "sm_transition m = t" "list_all ?ok b" by blast
    then show ?r by (cases a) auto
  next
    assume ?r
    then show ?l
    proof
      assume "sm_transition x = t \<and> list_all ?ok ms"
      then show ?l by (intro exI [of _ "[]"] exI [of _ x] exI [of _ ms]) simp
    next
      assume "\<exists>a m b. ms = a @ m # b \<and> sm_transition m = t \<and> list_all ?ok b"
      then obtain a m b where "ms = a @ m # b" "sm_transition m = t" "list_all ?ok b" by blast
      then show ?l by (intro exI [of _ "x # a"] exI [of _ m] exI [of _ b]) simp
    qed
  qed
  show ?case using Cons.IH [OF d] unfolding s m foldl_Cons list.pred_inject(2) by blast
qed simp

text \<open>
  A transition stands exactly when the change took it and has not gone back since its last time to
  the state it leaves; each transition stands once.
\<close>

theorem passed_stands:
  "distinct (passed its) \<and> (t \<in> set (passed its) \<longleftrightarrow> (\<exists>a m b. state_moves its = a @ m # b \<and> sm_transition m = t
     \<and> list_all (\<lambda>x. sm_transition x \<noteq> t \<and> sm_to x \<noteq> sm_from m) b))"
proof -
  let ?ms = "state_moves its"
  note p = pass_fold [of "[]" "move_from ?ms" ?ms t, simplified]
  have mf: "move_from ?ms t = sm_from m" if "?ms = a @ m # b" "sm_transition m = t" "list_all (\<lambda>x. sm_transition x \<noteq> t \<and> q x) b" for a m b q
    using that move_from_last [of m b a] by (simp add: list_all_iff)
  show ?thesis
  proof (intro conjI iffI)
    assume "t \<in> set (passed its)"
    then obtain a m b where h: "?ms = a @ m # b" "sm_transition m = t" "list_all (\<lambda>x. sm_transition x \<noteq> t \<and> sm_to x \<noteq> move_from ?ms t) b"
      using p by (auto simp: passed_def Let_def)
    then show "\<exists>a m b. ?ms = a @ m # b \<and> sm_transition m = t \<and> list_all (\<lambda>x. sm_transition x \<noteq> t \<and> sm_to x \<noteq> sm_from m) b"
      using h(1,2) h(3) [unfolded mf [OF h]] by blast
  next
    assume "\<exists>a m b. ?ms = a @ m # b \<and> sm_transition m = t \<and> list_all (\<lambda>x. sm_transition x \<noteq> t \<and> sm_to x \<noteq> sm_from m) b"
    then obtain a m b where h: "?ms = a @ m # b" "sm_transition m = t" "list_all (\<lambda>x. sm_transition x \<noteq> t \<and> sm_to x \<noteq> sm_from m) b" by blast
    have "list_all (\<lambda>x. sm_transition x \<noteq> t \<and> sm_to x \<noteq> move_from ?ms t) b" using h(3) unfolding mf [OF h] .
    then show "t \<in> set (passed its)" using p h(1,2) by (auto simp: passed_def Let_def)
  qed (use p in \<open>simp add: passed_def Let_def\<close>)
qed

text \<open>
  The moves of a journal picked by what comes after them: those that stand, and the last of each
  transition to record freezes.
\<close>

fun pick :: "('a \<Rightarrow> 'a list \<Rightarrow> bool) \<Rightarrow> 'a list \<Rightarrow> 'a list" where
  "pick P [] = []"
| "pick P (m # ms) = (if P m ms then m # pick P ms else pick P ms)"

lemma pick_cong: "(\<And>a m b. ms = a @ m # b \<Longrightarrow> P m b = Q m b) \<Longrightarrow> pick P ms = pick Q ms"
proof (induction ms)
  case (Cons x ms)
  have "P m b = Q m b" if "ms = a @ m # b" for a m b using Cons.prems [of "x # a" m b] that by simp
  then show ?case using Cons.IH Cons.prems [of "[]" x ms] by simp
qed simp

lemma pick_in: "m \<in> set (pick P ms) \<longleftrightarrow> (\<exists>a b. ms = a @ m # b \<and> P m b)"
proof (induction ms)
  case (Cons x ms)
  have "(\<exists>a b. x # ms = a @ m # b \<and> P m b) \<longleftrightarrow> (m = x \<and> P x ms) \<or> (\<exists>a b. ms = a @ m # b \<and> P m b)"
    by (auto simp: Cons_eq_append_conv)
  then show ?case using Cons by auto
qed simp

lemma pick_snoc: "pick (\<lambda>m later. list_all (Q m) later \<and> R m) (ms @ [x])
    = filter (\<lambda>m. Q m x) (pick (\<lambda>m later. list_all (Q m) later \<and> R m) ms) @ (if R x then [x] else [])"
  by (induction ms) simp_all

definition later_ok :: "state_move \<Rightarrow> state_move list \<Rightarrow> bool" where
  "later_ok m later \<longleftrightarrow> list_all (\<lambda>x. sm_transition x \<noteq> sm_transition m \<and> sm_to x \<noteq> sm_from m) later"

definition standing :: "state_move list \<Rightarrow> state_move list" where
  "standing ms = pick later_ok ms"

lemma pass_pick: "foldl (pass_step g) [] ms
    = map sm_transition (pick (\<lambda>m later. list_all (\<lambda>x. sm_transition x \<noteq> sm_transition m \<and> sm_to x \<noteq> g (sm_transition m)) later \<and> True) ms)"
  unfolding foldl_conv_fold
proof (induction ms rule: rev_induct)
  case (snoc x ms)
  show ?case unfolding pick_snoc [where R = "\<lambda>_. True"] using snoc
    by (simp add: pass_step_def filter_map comp_def) (rule arg_cong [where f = "map sm_transition"], rule filter_cong, auto)
qed simp

lemma passed_standing: "passed its = map sm_transition (standing (state_moves its))"
proof -
  let ?ms = "state_moves its"
  have "pick (\<lambda>m later. list_all (\<lambda>x. sm_transition x \<noteq> sm_transition m \<and> sm_to x \<noteq> move_from ?ms (sm_transition m)) later \<and> True) ?ms
      = pick later_ok ?ms"
  proof (rule pick_cong)
    fix a m b assume s: "?ms = a @ m # b"
    show "(list_all (\<lambda>x. sm_transition x \<noteq> sm_transition m \<and> sm_to x \<noteq> move_from ?ms (sm_transition m)) b \<and> True) = later_ok m b"
    proof (cases "list_all (\<lambda>x. sm_transition x \<noteq> sm_transition m) b")
      case True
      show ?thesis using move_from_last [OF True, of a] s by (simp add: later_ok_def)
    next
      case False
      then show ?thesis by (auto simp: later_ok_def list_all_iff)
    qed
  qed
  then show ?thesis by (simp add: passed_def Let_def pass_pick standing_def)
qed

definition last_freezing :: "string list \<Rightarrow> string list \<Rightarrow> state_move \<Rightarrow> state_move list \<Rightarrow> bool" where
  "last_freezing ps seen m later \<longleftrightarrow> sm_freezes m \<noteq> None \<and> sm_transition m \<in> set ps \<and> sm_transition m \<notin> set seen
     \<and> list_all (\<lambda>x. sm_transition x = sm_transition m \<longrightarrow> sm_freezes x = None) later"

lemma freeze_loop_pick:
  "freeze_loop ps (rev ms) seen out = map (the \<circ> sm_freezes) (pick (last_freezing ps seen) ms) @ out"
proof (induction ms arbitrary: seen out rule: rev_induct)
  case (snoc x ms)
  have p: "pick (last_freezing ps seen) ms = pick (\<lambda>m later. list_all (\<lambda>x. sm_transition x = sm_transition m \<longrightarrow> sm_freezes x = None) later
      \<and> (sm_freezes m \<noteq> None \<and> sm_transition m \<in> set ps \<and> sm_transition m \<notin> set seen)) ms" for seen ms
    by (rule pick_cong) (auto simp: last_freezing_def)
  show ?case
  proof (cases "sm_freezes x = None \<or> sm_transition x \<notin> set ps \<or> sm_transition x \<in> set seen")
    case True
    have "filter (\<lambda>m. sm_transition x = sm_transition m \<longrightarrow> sm_freezes x = None) (pick (last_freezing ps seen) ms) = pick (last_freezing ps seen) ms"
      using True by (auto simp: filter_id_conv pick_in last_freezing_def)
    then have "pick (last_freezing ps seen) (ms @ [x]) = pick (last_freezing ps seen) ms"
      using True unfolding p pick_snoc by auto
    then show ?thesis using True snoc [of seen out] by (auto split: option.splits)
  next
    case False
    then obtain f where f: "sm_freezes x = Some f" "sm_transition x \<in> set ps" "sm_transition x \<notin> set seen" by auto
    have "filter (\<lambda>m. sm_transition m \<noteq> sm_transition x) (pick (last_freezing ps seen) ms) = pick (last_freezing ps (sm_transition x # seen)) ms"
    proof (induction ms)
      case (Cons m ms)
      show ?case using Cons by (auto simp: last_freezing_def)
    qed simp
    then have "pick (last_freezing ps seen) (ms @ [x]) = pick (last_freezing ps (sm_transition x # seen)) ms @ [x]"
      unfolding p pick_snoc using f by (simp add: eq_commute)
    then show ?thesis using f snoc [of "sm_transition x # seen" "f # out"] by simp
  qed
qed simp

text \<open>
  C27. The transitions that stand are those of the moves that stand, in order: the moves after which the
  change neither takes their transition again nor goes back to the state they leave. In a journal where
  a move that stands records freezes whenever a move of its transition did before, the freezes in force
  are those of the moves that stand, in order.
\<close>

theorem in_force_freezes_exact:
  assumes "\<forall>m \<in> set (standing (state_moves its)). \<forall>x \<in> set (state_moves its).
      sm_transition x = sm_transition m \<and> sm_freezes x \<noteq> None \<longrightarrow> sm_freezes m \<noteq> None"
  shows "passed its = map sm_transition (standing (state_moves its))
    \<and> in_force_freezes its = map (the \<circ> sm_freezes) (filter (\<lambda>m. sm_freezes m \<noteq> None) (standing (state_moves its)))"
proof -
  let ?ms = "state_moves its"
  have keep: "filter q (pick P ms) = pick (\<lambda>m later. P m later \<and> q m) ms" for q P and ms :: "state_move list"
    by (induction ms) simp_all
  have "pick (last_freezing (passed its) []) ?ms = pick (\<lambda>m later. later_ok m later \<and> sm_freezes m \<noteq> None) ?ms"
  proof (rule pick_cong)
    fix a m b assume s: "?ms = a @ m # b"
    show "last_freezing (passed its) [] m b = (later_ok m b \<and> sm_freezes m \<noteq> None)"
    proof
      assume l: "last_freezing (passed its) [] m b"
      then have "sm_transition m \<in> sm_transition ` set (standing ?ms)" by (simp add: last_freezing_def passed_standing)
      then obtain n where n': "n \<in> set (standing ?ms)" "sm_transition n = sm_transition m" by auto
      then obtain c d where "?ms = c @ n # d" "later_ok n d" unfolding standing_def pick_in by blast
      note n = n'(1) this n'(2)
      have nf: "sm_freezes n \<noteq> None" using assms n(1,4) l s by (auto simp: last_freezing_def)
      have "a @ m # b = c @ n # d" using s n(2) by simp
      then obtain us where "a = c @ us \<and> us @ m # b = n # d \<or> a @ us = c \<and> m # b = us @ n # d"
        unfolding append_eq_append_conv2 by blast
      then have "n = m \<and> d = b \<or> n \<in> set b \<or> m \<in> set d" by (cases us) auto
      then show "later_ok m b \<and> sm_freezes m \<noteq> None"
      proof (elim disjE)
        assume "n = m \<and> d = b"
        then show ?thesis using n(3) nf by simp
      next
        assume "n \<in> set b"
        then show ?thesis using l n(4) nf by (auto simp: last_freezing_def list_all_iff)
      next
        assume "m \<in> set d"
        then show ?thesis using n(3,4) by (auto simp: later_ok_def list_all_iff)
      qed
    next
      assume k: "later_ok m b \<and> sm_freezes m \<noteq> None"
      then have "m \<in> set (standing ?ms)" using s by (auto simp: standing_def pick_in)
      then show "last_freezing (passed its) [] m b" using k by (auto simp: last_freezing_def later_ok_def passed_standing list_all_iff)
    qed
  qed
  then have "in_force_freezes its = map (the \<circ> sm_freezes) (filter (\<lambda>m. sm_freezes m \<noteq> None) (standing ?ms))"
    by (simp only: in_force_freezes_def freeze_loop_pick append_Nil2 standing_def keep)
  then show ?thesis using passed_standing by blast
qed

definition move_item :: "string \<Rightarrow> string \<Rightarrow> string \<Rightarrow> string \<Rightarrow> (string, gval) gomap \<Rightarrow> item" where
  "move_item i t from to frz = \<lparr>it_id = i, it_type = ''transition'', it_target = [], it_status = ''accepted'', it_flow = [],
     it_flow_event = None, it_decision_event = None, it_decision = None, it_recipient = [],
     it_data = Some ([(''transition'', GStr t), (''from'', GStr from), (''to'', GStr to)] @ (if frz = [] then [] else [(''freezes'', GMap frz)])),
     it_produced_by = ''ann'', it_derived_from = [], it_supersedes = [], it_execution = [], it_created_at = 1\<rparr>"

theorem in_force_freezes_exact_witness:
  "let its = [move_item ''1'' ''submit'' ''draft'' ''review'' [(''fields'', GStrs [''title''])],
              move_item ''2'' ''reopen'' ''review'' ''draft'' [], move_item ''3'' ''submit'' ''draft'' ''review'' [(''fields'', GStrs [''owner''])],
              move_item ''4'' ''approve'' ''review'' ''done'' [(''transitions'', GBool True)]]
   in map fz_fields (in_force_freezes its) = [[''owner''], []] \<and> passed its = [''submit'', ''approve'']"
proof -
  let ?its = "[move_item ''1'' ''submit'' ''draft'' ''review'' [(''fields'', GStrs [''title''])],
              move_item ''2'' ''reopen'' ''review'' ''draft'' [], move_item ''3'' ''submit'' ''draft'' ''review'' [(''fields'', GStrs [''owner''])],
              move_item ''4'' ''approve'' ''review'' ''done'' [(''transitions'', GBool True)]]"
  have h: "\<forall>m \<in> set (standing (state_moves ?its)). \<forall>x \<in> set (state_moves ?its).
      sm_transition x = sm_transition m \<and> sm_freezes x \<noteq> None \<longrightarrow> sm_freezes m \<noteq> None" by code_simp
  have "map sm_transition (standing (state_moves ?its)) = [''submit'', ''approve'']
    \<and> map fz_fields (map (the \<circ> sm_freezes) (filter (\<lambda>m. sm_freezes m \<noteq> None) (standing (state_moves ?its)))) = [[''owner''], []]" by code_simp
  then show ?thesis using in_force_freezes_exact [OF h] by simp
qed

text \<open>
  A move that does not stand any more may still freeze: after a transition that froze its fields, the
  way back, and the same transition taken again with no freeze, the fields of the first move are frozen.
\<close>

theorem freeze_of_a_move_undone:
  "let its = [move_item ''1'' ''submit'' ''draft'' ''review'' [(''fields'', GStrs [''title''])],
              move_item ''2'' ''reopen'' ''review'' ''draft'' [], move_item ''3'' ''submit'' ''draft'' ''review'' []]
   in passed its = [''submit''] \<and> map fz_fields (in_force_freezes its) = [[''title'']]
      \<and> sm_freezes (last (state_moves its)) = None"
  by code_simp

subsection \<open>Methodology references\<close>

text \<open>
  A reference names a methodology at a version: it is split back into the name and the version, when
  the version holds no separator (nor the name, when there is no version).
\<close>

theorem methodology_ref_round_trip:
  assumes "name \<noteq> []" and "CHR ''@'' \<notin> set version" and "version = [] \<Longrightarrow> CHR ''@'' \<notin> set name"
  shows "split_methodology_ref (methodology_ref name version) = (name, version)"
proof (cases "version = []")
  case True
  then have "cut (CHR ''@'') (rev name) = None" using assms(3) by (simp add: cut_None)
  then show ?thesis using True by (simp add: split_methodology_ref_def methodology_ref_def)
next
  case False
  then have "cut (CHR ''@'') (rev (methodology_ref name version)) = Some (rev version, rev name)"
    using cut_append [of "CHR ''@''" "rev version" "rev name"] assms(1,2) by (simp add: methodology_ref_def)
  then show ?thesis using assms(1) by (simp add: split_methodology_ref_def)
qed

theorem methodology_ref_round_trip_witness:
  "split_methodology_ref (methodology_ref ''a@b'' ''1.2'') = (''a@b'', ''1.2'')"
  by (rule methodology_ref_round_trip) simp_all

end
