(* ===== verification/View.thy ===== *)
theory View
  imports Merge Impacts Reviews "HOL-Library.Sublist"
begin

text \<open>
  graph/graph/draftcache.go and the blocks of cowmap.go: the view of a change, the fold of its log kept
  as indexed containers and moved on by one event or fact at a time. The sharing of the containers
  between copies (copy, the shards, the event log), the estimate of the memory and the cache of the views
  are not modelled: a container is the value it holds. A panic is None.
\<close>

subsection \<open>Sorted positions\<close>

text \<open>slices.BinarySearch: the first position of an element at least the target, and whether it is it.\<close>

function bsearch :: "nat list \<Rightarrow> nat \<Rightarrow> nat \<Rightarrow> nat \<Rightarrow> nat" where
  "bsearch xs t i j = (if i < j then (let h = (i + j) div 2 in
     if xs ! h < t then bsearch xs t (h + 1) j else bsearch xs t i h) else i)"
  by pat_completeness auto
termination
  by (relation "measure (\<lambda>(xs, t, i, j). j - i)") auto

declare bsearch.simps [simp del]

definition binary_search :: "nat list \<Rightarrow> nat \<Rightarrow> nat \<times> bool" where
  "binary_search xs t = (let i = bsearch xs t 0 (length xs) in (i, i < length xs \<and> xs ! i = t))"

definition insert_pos :: "nat list \<Rightarrow> nat \<Rightarrow> nat list" where
  "insert_pos ps i = (case binary_search ps i of (j, found) \<Rightarrow> if found then ps else take j ps @ i # drop j ps)"

definition delete_pos :: "nat list \<Rightarrow> nat \<Rightarrow> nat list" where
  "delete_pos ps i = (case binary_search ps i of (j, found) \<Rightarrow> if found then delete_at j ps else ps)"

lemma bsearch_spec:
  "sorted xs \<Longrightarrow> i \<le> j \<Longrightarrow> j \<le> length xs \<Longrightarrow> \<forall>m < i. xs ! m < t \<Longrightarrow> \<forall>m < length xs. j \<le> m \<longrightarrow> t \<le> xs ! m
   \<Longrightarrow> bsearch xs t i j \<le> length xs \<and> (\<forall>m < bsearch xs t i j. xs ! m < t) \<and> (\<forall>m < length xs. bsearch xs t i j \<le> m \<longrightarrow> t \<le> xs ! m)"
proof (induction xs t i j rule: bsearch.induct)
  case (1 xs t i j)
  show ?case
  proof (cases "i < j")
    case False
    then have "bsearch xs t i j = i" by (simp add: bsearch.simps [of xs t i j])
    then show ?thesis using 1(4-7) False by simp
  next
    case True
    define h where "h = (i + j) div 2"
    have h: "i \<le> h" "h < j" using True by (simp_all add: h_def)
    have mono: "xs ! m \<le> xs ! n" if "m \<le> n" "n < length xs" for m n using 1(3) that by (rule sorted_nth_mono)
    show ?thesis
    proof (cases "xs ! h < t")
      case lt: True
      have e: "bsearch xs t i j = bsearch xs t (h + 1) j" using lt True by (simp add: bsearch.simps [of xs t i j] h_def)
      have "xs ! m < t" if "m < h + 1" for m
      proof -
        have "xs ! m \<le> xs ! h" using mono [of m h] that h 1(5) by simp
        then show ?thesis using lt by simp
      qed
      then have "\<forall>m < h + 1. xs ! m < t" by blast
      moreover have "h + 1 \<le> j" using h by simp
      ultimately show ?thesis unfolding e using 1(1) [OF True h_def lt 1(3)] 1(5,7) by blast
    next
      case ge: False
      have e: "bsearch xs t i j = bsearch xs t i h" using ge True by (simp add: bsearch.simps [of xs t i j] h_def)
      have "t \<le> xs ! m" if "m < length xs" "h \<le> m" for m
      proof -
        have "xs ! h \<le> xs ! m" using mono [of h m] that by simp
        then show ?thesis using ge by simp
      qed
      then have "\<forall>m < length xs. h \<le> m \<longrightarrow> t \<le> xs ! m" by blast
      moreover have "h \<le> length xs" using h 1(5) by simp
      ultimately show ?thesis unfolding e using 1(2) [OF True h_def ge 1(3)] 1(6) h(1) by blast
    qed
  qed
qed

lemma search_split:
  assumes "sorted_wrt (<) xs" and "binary_search xs t = (j, found)"
  shows "j \<le> length xs \<and> (\<forall>m < j. xs ! m < t) \<and> (\<forall>m < length xs. j \<le> m \<longrightarrow> t \<le> xs ! m) \<and> found = (t \<in> set xs)
    \<and> (found \<longrightarrow> j < length xs \<and> xs ! j = t)"
proof -
  have "sorted xs" using assms(1) by (simp add: strict_sorted_imp_sorted)
  note b = bsearch_spec [of xs 0 "length xs" t, OF this]
  have j: "j = bsearch xs t 0 (length xs)" "found = (j < length xs \<and> xs ! j = t)" using assms(2) by (auto simp: binary_search_def Let_def)
  have B: "j \<le> length xs" "\<forall>m < j. xs ! m < t" "\<forall>m < length xs. j \<le> m \<longrightarrow> t \<le> xs ! m" using b unfolding j(1) by simp_all
  have "j < length xs \<and> xs ! j = t" if t: "t \<in> set xs"
  proof -
    obtain n where n: "n < length xs" "xs ! n = t" using t by (auto simp: in_set_conv_nth)
    then have "j \<le> n" using B(2) by (meson not_le_imp_less order_less_irrefl)
    moreover have "\<not> j < n"
    proof
      assume "j < n"
      then have "xs ! j < t" "t \<le> xs ! j" using sorted_wrt_nth_less [OF assms(1), of j n] n B(3) by simp_all
      then show False by simp
    qed
    ultimately show ?thesis using n by auto
  qed
  then show ?thesis using B j(2) by auto
qed

lemma insert_pos_spec:
  assumes "sorted_wrt (<) ps"
  shows "sorted_wrt (<) (insert_pos ps i) \<and> set (insert_pos ps i) = insert i (set ps)"
proof -
  obtain j found where b: "binary_search ps i = (j, found)" by fastforce
  note s = search_split [OF assms b]
  show ?thesis
  proof (cases found)
    case True
    then show ?thesis using b s assms by (auto simp: insert_pos_def)
  next
    case False
    have "set (take j ps @ i # drop j ps) = insert i (set ps)" by (metis append_take_drop_id insert_is_Un list.simps(15) set_append sup_left_commute)
    moreover have "\<forall>x \<in> set (take j ps). x < i" using s by (auto simp: in_set_conv_nth)
    moreover have "\<forall>x \<in> set (drop j ps). i < x"
    proof
      fix x assume "x \<in> set (drop j ps)"
      then obtain m where "j \<le> m" "m < length ps" "x = ps ! m"
        by (metis add.commute in_set_conv_nth le_add2 length_drop less_diff_conv nth_drop s)
      then show "i < x" using s False nth_mem by (metis order_le_neq_trans)
    qed
    moreover have "sorted_wrt (<) (take j ps @ drop j ps)" using assms by simp
    ultimately show ?thesis using b False by (auto simp: insert_pos_def sorted_wrt_append simp del: append_take_drop_id)
  qed
qed

lemma delete_pos_spec:
  assumes "sorted_wrt (<) ps"
  shows "sorted_wrt (<) (delete_pos ps i) \<and> set (delete_pos ps i) = set ps - {i}"
proof -
  obtain j found where b: "binary_search ps i = (j, found)" by fastforce
  note s = search_split [OF assms b]
  show ?thesis
  proof (cases found)
    case False
    then show ?thesis using b s assms by (auto simp: delete_pos_def)
  next
    case True
    then have j: "j < length ps" "ps ! j = i" using s by simp_all
    have sp: "ps = take j ps @ i # drop (Suc j) ps" using id_take_nth_drop [OF j(1)] j(2) by simp
    then have "sorted_wrt (<) (take j ps @ i # drop (Suc j) ps)" using assms by metis
    then have w: "sorted_wrt (<) (take j ps)" "sorted_wrt (<) (drop (Suc j) ps)" "\<forall>x \<in> set (take j ps). x < i" "\<forall>x \<in> set (drop (Suc j) ps). i < x"
      "\<forall>x \<in> set (take j ps). \<forall>y \<in> set (drop (Suc j) ps). x < y"
      by (auto simp: sorted_wrt_append)
    have "set ps = set (take j ps) \<union> insert i (set (drop (Suc j) ps))" by (subst sp) simp
    moreover have "i \<notin> set (take j ps)" "i \<notin> set (drop (Suc j) ps)" using w(3,4) by blast+
    ultimately have "set (take j ps @ drop (Suc j) ps) = set ps - {i}" by auto
    then show ?thesis using b True w by (simp add: delete_pos_def delete_at_def sorted_wrt_append)
  qed
qed

lemma positions_sorted: "sorted_wrt (<) (positions p xs)"
  unfolding positions_def by (rule sorted_wrt_filter) simp

lemma set_positions: "set (positions p xs) = {i. i < length xs \<and> p (xs ! i)}"
  by (auto simp: positions_def)

lemma positions_unique: "sorted_wrt (<) ps \<Longrightarrow> set ps = {i. i < length xs \<and> p (xs ! i)} \<Longrightarrow> ps = positions p xs"
  by (rule strict_sorted_equal) (simp_all add: positions_sorted set_positions)

subsection \<open>Positions by key\<close>

text \<open>A map of positions: a missing key has none. An impact is kept under its keys that are not empty.\<close>

definition mget :: "(string, 'a list) gomap \<Rightarrow> string \<Rightarrow> 'a list" where
  "mget m k = (case map_of m k of None \<Rightarrow> [] | Some ps \<Rightarrow> ps)"

definition mset_list :: "string \<Rightarrow> 'a list \<Rightarrow> (string, 'a list) gomap \<Rightarrow> (string, 'a list) gomap" where
  "mset_list k ps m = (if ps = [] then mdel k m else mput k ps m)"

definition idx_add :: "nat \<Rightarrow> (string, nat list) gomap \<Rightarrow> string list \<Rightarrow> (string, nat list) gomap" where
  "idx_add i m ks = foldl (\<lambda>m k. if k = [] then m else mput k (insert_pos (mget m k) i) m) m ks"

definition idx_del :: "nat \<Rightarrow> (string, nat list) gomap \<Rightarrow> string list \<Rightarrow> (string, nat list) gomap" where
  "idx_del i m ks = foldl (\<lambda>m k. if k = [] then m else mset_list k (delete_pos (mget m k) i) m) m ks"

lemma mget_Nil [simp]: "mget [] k = []"
  by (simp add: mget_def)

lemma mget_mput [simp]: "mget (mput k ps m) j = (if j = k then ps else mget m j)"
  by (simp add: mget_def)

lemma mget_mdel [simp]: "mget (mdel k m) j = (if j = k then [] else mget m j)"
  by (simp add: mget_def)

lemma mget_mset_list [simp]: "mget (mset_list k ps m) j = (if j = k then ps else mget m j)"
  by (simp add: mset_list_def)

definition sorted_index :: "(string, nat list) gomap \<Rightarrow> bool" where
  "sorted_index m \<longleftrightarrow> (\<forall>k. sorted_wrt (<) (mget m k))"

lemma idx_add_spec: "sorted_index m \<Longrightarrow> sorted_index (idx_add i m ks)
    \<and> set (mget (idx_add i m ks) k) = set (mget m k) \<union> (if k \<noteq> [] \<and> k \<in> set ks then {i} else {})"
proof (induction ks arbitrary: m)
  case (Cons x ks)
  let ?m = "if x = [] then m else mput x (insert_pos (mget m x) i) m"
  have s: "sorted_index ?m" using Cons.prems insert_pos_spec by (auto simp: sorted_index_def)
  have "set (mget ?m k) = set (mget m k) \<union> (if k \<noteq> [] \<and> k = x then {i} else {})"
    using Cons.prems insert_pos_spec [of "mget m x" i] by (auto simp: sorted_index_def)
  then show ?case using Cons.IH [OF s] by (auto simp: idx_add_def)
qed (simp add: idx_add_def)

lemma idx_del_spec: "sorted_index m \<Longrightarrow> sorted_index (idx_del i m ks)
    \<and> set (mget (idx_del i m ks) k) = set (mget m k) - (if k \<noteq> [] \<and> k \<in> set ks then {i} else {})"
proof (induction ks arbitrary: m)
  case (Cons x ks)
  let ?m = "if x = [] then m else mset_list x (delete_pos (mget m x) i) m"
  have s: "sorted_index ?m" using Cons.prems delete_pos_spec by (auto simp: sorted_index_def)
  have "set (mget ?m k) = set (mget m k) - (if k \<noteq> [] \<and> k = x then {i} else {})"
    using Cons.prems delete_pos_spec [of "mget m x" i] by (auto simp: sorted_index_def)
  then show ?case using Cons.IH [OF s] by (auto simp: idx_del_def)
qed (simp add: idx_del_def)

text \<open>An index of the positions of the elements by key.\<close>

definition idx_ok :: "('a \<Rightarrow> string list) \<Rightarrow> (string, nat list) gomap \<Rightarrow> 'a list \<Rightarrow> bool" where
  "idx_ok keys m xs \<longleftrightarrow> sorted_index m \<and> (\<forall>k. k \<noteq> [] \<longrightarrow> set (mget m k) = {i. i < length xs \<and> k \<in> set (keys (xs ! i))})"

lemma idx_ok_positions: "idx_ok keys m xs \<Longrightarrow> k \<noteq> [] \<Longrightarrow> mget m k = positions (\<lambda>x. k \<in> set (keys x)) xs"
  by (rule positions_unique) (simp_all add: idx_ok_def sorted_index_def)

lemma idx_ok_Nil [simp]: "idx_ok keys [] []"
  by (simp add: idx_ok_def sorted_index_def)

lemma idx_ok_snoc: "idx_ok keys m xs \<Longrightarrow> idx_ok keys (idx_add (length xs) m (keys x)) (xs @ [x])"
  using idx_add_spec [of m "length xs" "keys x"] by (auto simp: idx_ok_def nth_append less_Suc_eq)

lemma idx_ok_update:
  assumes "idx_ok keys m xs" and "i < length xs"
  shows "idx_ok keys (idx_add i (idx_del i m (keys (xs ! i))) (keys x)) (xs[i := x])"
proof -
  have d: "sorted_index (idx_del i m (keys (xs ! i)))"
    "\<And>k. set (mget (idx_del i m (keys (xs ! i))) k) = set (mget m k) - (if k \<noteq> [] \<and> k \<in> set (keys (xs ! i)) then {i} else {})"
    using idx_del_spec [of m i "keys (xs ! i)"] assms(1) by (simp_all add: idx_ok_def)
  have a: "sorted_index (idx_add i (idx_del i m (keys (xs ! i))) (keys x))"
    "\<And>k. set (mget (idx_add i (idx_del i m (keys (xs ! i))) (keys x)) k)
      = set (mget (idx_del i m (keys (xs ! i))) k) \<union> (if k \<noteq> [] \<and> k \<in> set (keys x) then {i} else {})"
    using idx_add_spec [OF d(1), of i "keys x"] by simp_all
  show ?thesis
    using assms a(1) unfolding idx_ok_def
    by (auto simp: a(2) d(2) nth_list_update split: if_splits)
qed

subsection \<open>The view\<close>

record phase =
  ph_state :: string
  ph_seq :: int
  ph_before :: bool

record view =
  v_change :: string
  v_seq :: int
  v_blocks :: "impact list list"
  v_n :: nat
  v_at :: "(string, nat) gomap"
  v_by_node :: "(string, nat list) gomap"
  v_by_key :: "(string, nat list) gomap"
  v_odd :: int
  v_drafts :: "(string, draft list) gomap"
  v_nodes :: "(string, string list) gomap"
  v_conflicts :: "(string, string list) gomap"
  v_items :: "item list"
  v_events :: "event list"
  v_phases :: "(string, phase) gomap"
  v_moved :: bool
  v_first :: string
  v_state :: string
  v_move_seq :: "(string, int) gomap"
  v_reviews :: review_fold

definition new_view :: "string \<Rightarrow> view" where
  "new_view c = \<lparr>v_change = c, v_seq = 0, v_blocks = [], v_n = 0, v_at = [], v_by_node = [], v_by_key = [], v_odd = 0, v_drafts = [],
     v_nodes = [], v_conflicts = [], v_items = [], v_events = [], v_phases = [], v_moved = False, v_first = [], v_state = [],
     v_move_seq = [], v_reviews = no_reviews\<rparr>"

definition view_impact :: "view \<Rightarrow> string \<Rightarrow> impact option" where
  "view_impact v i = (case map_of (v_at v) i of None \<Rightarrow> None | Some p \<Rightarrow> block_at (v_blocks v) p)"

definition view_draft :: "view \<Rightarrow> string \<Rightarrow> string \<Rightarrow> draft option" where
  "view_draft v i flow = find (\<lambda>d. d_flow d = flow) (mget (v_drafts v) i)"

definition phase_of :: "view \<Rightarrow> string \<Rightarrow> phase option" where
  "phase_of v i = (case map_of (v_phases v) i of None \<Rightarrow> None
     | Some p \<Rightarrow> if \<not> v_moved v then None else Some (if ph_before p then p\<lparr>ph_state := v_first v\<rparr> else p))"

text \<open>The nodes an impact names: its Pre, and its Post when it is another node.\<close>

definition impact_nodes :: "impact \<Rightarrow> string \<times> string" where
  "impact_nodes cn = (let pre = (case im_pre cn of None \<Rightarrow> [] | Some p \<Rightarrow> nr_id p) in
     (pre, case im_post cn of None \<Rightarrow> [] | Some p \<Rightarrow> if nr_id p \<noteq> pre then nr_id p else []))"

definition node_keys :: "impact \<Rightarrow> string list" where
  "node_keys cn = [fst (impact_nodes cn), snd (impact_nodes cn)]"

definition view_index :: "nat \<Rightarrow> impact \<Rightarrow> view \<Rightarrow> view" where
  "view_index i cn v = v\<lparr>v_by_node := idx_add i (v_by_node v) (node_keys cn), v_by_key := idx_add i (v_by_key v) [im_key cn],
     v_odd := v_odd v + (if odd_impact cn then 1 else 0)\<rparr>"

definition view_unindex :: "nat \<Rightarrow> impact \<Rightarrow> view \<Rightarrow> view" where
  "view_unindex i cn v = v\<lparr>v_by_node := idx_del i (v_by_node v) (node_keys cn), v_by_key := idx_del i (v_by_key v) [im_key cn],
     v_odd := v_odd v - (if odd_impact cn then 1 else 0)\<rparr>"

definition bl_append :: "impact list list \<Rightarrow> nat \<Rightarrow> impact \<Rightarrow> impact list list" where
  "bl_append bs n cn = (if n mod block = 0 then bs @ [[cn]] else butlast bs @ [last bs @ [cn]])"

definition push_impact :: "string \<Rightarrow> impact \<Rightarrow> view \<Rightarrow> view" where
  "push_impact i cn v = (view_index (v_n v) cn v)\<lparr>v_at := mput i (v_n v) (v_at v), v_blocks := bl_append (v_blocks v) (v_n v) cn, v_n := v_n v + 1\<rparr>"

definition reset_impacts :: "impact list \<Rightarrow> view \<Rightarrow> view" where
  "reset_impacts l v = foldl (\<lambda>v cn. push_impact (im_id cn) cn v)
     (v\<lparr>v_blocks := [], v_n := 0, v_at := [], v_by_node := [], v_by_key := [], v_odd := 0\<rparr>) l"

definition view_list :: "view \<Rightarrow> impact list" where
  "view_list v = il_slice (impacts_of_blocks (v_blocks v) (v_n v))"

definition view_apply_impact :: "view \<Rightarrow> event \<Rightarrow> view option" where
  "view_apply_impact v e =
     (if e_op e = OpAdopted then map_option (\<lambda>l. reset_impacts l v) (apply_event_at (view_list v) None e)
      else (case map_of (v_at v) (e_impact e) of
          None \<Rightarrow> (case apply_event_at [] None e of None \<Rightarrow> None
            | Some [] \<Rightarrow> Some v
            | Some (cn # _) \<Rightarrow> Some (push_impact (e_impact e) cn v))
        | Some i \<Rightarrow> (case block_at (v_blocks v) i of None \<Rightarrow> None
            | Some cur \<Rightarrow> (case apply_event_at [cur] (Some 0) e of None \<Rightarrow> None
                | Some [] \<Rightarrow> Some (reset_impacts (delete_at i (view_list v)) v)
                | Some (cn # _) \<Rightarrow> map_option (\<lambda>bs. view_index i cn ((view_unindex i cur v)\<lparr>v_blocks := bs\<rparr>)) (block_set (v_blocks v) i cn)))))"

text \<open>The drafts an event changes: the row of its impact and flow, all rows of its impact, or those of a flow.\<close>

definition view_row :: "view \<Rightarrow> event \<Rightarrow> view" where
  "view_row v e = (let rows = mget (v_drafts v) (e_impact e); j = index_of (\<lambda>d. d_flow d = e_flow e) rows;
        nxt = apply_draft (map_option ((!) rows) j) e;
        rows' = (case (nxt, j) of (None, Some j) \<Rightarrow> delete_at j rows | (Some n, Some j) \<Rightarrow> rows[j := n]
            | (Some n, None) \<Rightarrow> rows @ [n] | (None, None) \<Rightarrow> rows);
        nodes = (case nxt of None \<Rightarrow> v_nodes v
            | Some n \<Rightarrow> if e_impact e \<in> set (mget (v_nodes v) (d_node n)) then v_nodes v
                else mput (d_node n) (mget (v_nodes v) (d_node n) @ [e_impact e]) (v_nodes v))
     in v\<lparr>v_nodes := nodes, v_drafts := mset_list (e_impact e) rows' (v_drafts v)\<rparr>)"

definition draft_ids :: "view \<Rightarrow> string list" where
  "draft_ids v = mkeys (v_drafts v)"

definition drop_flow :: "string \<Rightarrow> view \<Rightarrow> view" where
  "drop_flow flow v = v\<lparr>v_drafts := foldl (\<lambda>m i. mset_list i (filter (\<lambda>d. d_flow d \<noteq> flow) (mget m i)) m) (v_drafts v) (draft_ids v)\<rparr>"

definition view_live :: "view \<Rightarrow> string \<Rightarrow> bool" where
  "view_live v i = (case view_impact v i of None \<Rightarrow> False | Some c \<Rightarrow> \<not> im_superseded c)"

definition drop_dead :: "string list \<Rightarrow> view \<Rightarrow> view" where
  "drop_dead ids v = v\<lparr>v_drafts := foldl (\<lambda>m i. if view_live v i then m else mdel i m) (v_drafts v) ids\<rparr>"

definition with_post :: "view \<Rightarrow> event \<Rightarrow> event" where
  "with_post v e = (if e_op e = OpUpdated \<and> e_post e = None
     then (case view_impact v (e_impact e) of None \<Rightarrow> e
       | Some cn \<Rightarrow> (case im_post cn of None \<Rightarrow> e | Some p \<Rightarrow> e\<lparr>e_post := Some p\<rparr>))
     else e)"

definition view_apply_drafts :: "view \<Rightarrow> event \<Rightarrow> view" where
  "view_apply_drafts v e =
     (let v1 = (if draft_op (e_op e) then view_row v e
            else if e_op e = OpWithdrawn \<or> e_op e = OpCommitted then v\<lparr>v_drafts := mdel (e_impact e) (v_drafts v)\<rparr>
            else if e_op e = OpAdopted then drop_flow (e_flow e) v
            else v)
      in if e_op e = OpAdopted then drop_dead (draft_ids v1) v1
         else if map_of (v_drafts v1) (e_impact e) \<noteq> None then drop_dead [e_impact e] v1 else v1)"

definition view_apply :: "view \<Rightarrow> event \<Rightarrow> view option" where
  "view_apply v e0 =
     (let e = with_post v e0;
          v1 = v\<lparr>v_events := v_events v @ [e],
                 v_phases := (if starts_draft e \<and> e_flow e = []
                   then mput (e_impact e) \<lparr>ph_state = v_state v, ph_seq = e_seq e, ph_before = \<not> v_moved v\<rparr> (v_phases v) else v_phases v)\<rparr>
      in (case view_apply_impact v1 e of None \<Rightarrow> None
        | Some v2 \<Rightarrow> let v3 = view_apply_drafts v2 e in
            Some (v3\<lparr>v_conflicts := mset_list (e_impact e) (apply_conflict_event (mget (v_conflicts v3) (e_impact e)) e) (v_conflicts v3),
                     v_seq := e_seq e\<rparr>)))"

fun view_applies :: "view \<Rightarrow> event list \<Rightarrow> view option" where
  "view_applies v [] = Some v"
| "view_applies v (e # es) = (case view_apply v e of None \<Rightarrow> None | Some v1 \<Rightarrow> view_applies v1 es)"

text \<open>A fact: a review item is folded and the submission of a review decides its verdicts, a move moves the phase.\<close>

definition view_review :: "view \<Rightarrow> item \<Rightarrow> int \<Rightarrow> view option" where
  "view_review v it seq = (case rf_apply (v_reviews v) it of (f, r, submitted) \<Rightarrow>
     let v1 = v\<lparr>v_reviews := f, v_seq := seq\<rparr> in
     if \<not> submitted then Some v1 else view_applies v1 (verdicts r (v_change v) it seq))"

definition view_fact :: "view \<Rightarrow> item \<Rightarrow> int \<Rightarrow> view option" where
  "view_fact v it seq = (let v1 = v\<lparr>v_items := v_items v @ [it]\<rparr> in
     if it_type it = ''review'' then view_review v1 it seq
     else if it_type it \<noteq> ''transition'' \<or> it_flow it \<noteq> [] then Some v1
     else Some (v1\<lparr>v_moved := True, v_first := (if v_moved v then v_first v else str_of (pget (it_data it) ''from'')),
            v_state := str_of (pget (it_data it) ''to''), v_move_seq := mput (it_id it) seq (v_move_seq v), v_seq := seq\<rparr>))"

text \<open>
  The entries of the log in their order: an entry is a fact, or carries the impact events up to its
  position; the events and the items are what the entries decode to.
\<close>

fun fold_entries :: "view \<Rightarrow> (bool \<times> int) list \<Rightarrow> event list \<Rightarrow> item list \<Rightarrow> view option" where
  "fold_entries v [] es its = view_applies v es"
| "fold_entries v ((is_fact, seq) # ls) es its =
     (if is_fact then (case its of [] \<Rightarrow> None
        | it # its1 \<Rightarrow> (case view_fact v it seq of None \<Rightarrow> None | Some v1 \<Rightarrow> fold_entries v1 ls es its1))
      else (case view_applies v (takeWhile (\<lambda>e. e_seq e \<le> seq) es) of None \<Rightarrow> None
        | Some v1 \<Rightarrow> fold_entries v1 ls (dropWhile (\<lambda>e. e_seq e \<le> seq) es) its))"

definition fold_log :: "view \<Rightarrow> (bool \<times> int) list \<Rightarrow> event list \<Rightarrow> item list \<Rightarrow> view option" where
  "fold_log v ls es its = map_option (\<lambda>v. if ls = [] then v else v\<lparr>v_seq := snd (last ls)\<rparr>) (fold_entries v ls es its)"

subsection \<open>Reading the view\<close>

definition view_lookup :: "view \<Rightarrow> lookup" where
  "view_lookup v = \<lparr>lk_position = map_of (v_at v), lk_of_node = mget (v_by_node v), lk_of_key = mget (v_by_key v), lk_odd = v_odd v\<rparr>"

definition indexed_list :: "view \<Rightarrow> impacts" where
  "indexed_list v = indexed_impacts (v_blocks v) (v_n v) (view_lookup v)"

definition first_on :: "view \<Rightarrow> string \<Rightarrow> int option option" where
  "first_on v node = (case those (map (block_at (v_blocks v)) (mget (v_by_node v) node)) of None \<Rightarrow> None
     | Some cs \<Rightarrow> let ids = map im_id cs @ mget (v_nodes v) node
         in Some (map_option e_seq (find (\<lambda>e. e_impact e \<in> set ids) (v_events v))))"

definition by_flow :: "draft list \<Rightarrow> draft list" where
  "by_flow = stable_sort (\<lambda>a b. d_flow a < d_flow b)"

definition node_drafts :: "view \<Rightarrow> string \<Rightarrow> draft list" where
  "node_drafts v node = concat (map (\<lambda>i. by_flow (mget (v_drafts v) i)) (remdups_adj (sort (mget (v_nodes v) node))))"

definition all_drafts :: "view \<Rightarrow> draft list" where
  "all_drafts v = stable_sort (\<lambda>a b. (d_impact a, d_flow a) < (d_impact b, d_flow b)) (concat (map (mget (v_drafts v)) (draft_ids v)))"

subsection \<open>The impacts of the view\<close>

abbreviation v_impacts :: "view \<Rightarrow> impact list" where
  "v_impacts v \<equiv> concat (v_blocks v)"

definition impacts_ok :: "view \<Rightarrow> bool" where
  "impacts_ok v \<longleftrightarrow> blocks_ok (v_blocks v) \<and> v_n v = length (v_impacts v) \<and> indexed im_id (v_at v) (v_impacts v)
     \<and> idx_ok node_keys (v_by_node v) (v_impacts v) \<and> idx_ok (\<lambda>c. [im_key c]) (v_by_key v) (v_impacts v)
     \<and> v_odd v = int (length (filter odd_impact (v_impacts v)))"

text \<open>The rest of a view, which the impacts are kept apart from.\<close>

definition same_rest :: "view \<Rightarrow> view \<Rightarrow> bool" where
  "same_rest v w \<longleftrightarrow> v_change w = v_change v \<and> v_drafts w = v_drafts v \<and> v_nodes w = v_nodes v \<and> v_conflicts w = v_conflicts v
     \<and> v_items w = v_items v \<and> v_events w = v_events v \<and> v_phases w = v_phases v \<and> v_reviews w = v_reviews v"

lemma bl_append_eq: "blocks_ok bs \<Longrightarrow> n = length (concat bs) \<Longrightarrow> bl_append bs n c = block_append bs c"
proof (induction bs arbitrary: n)
  case Nil
  then show ?case by (simp add: bl_append_def block_append_def)
next
  case (Cons b bs)
  show ?case
  proof (cases "bs = []")
    case True
    then have "length b \<le> block" "b \<noteq> []" using Cons.prems by simp_all
    then have "length b mod block = 0 \<longleftrightarrow> length b = block" by (cases "length b = block") auto
    then show ?thesis using True Cons.prems by (auto simp: bl_append_def block_append_def)
  next
    case False
    then have b: "length b = block" "blocks_ok bs" using Cons.prems by (simp_all add: blocks_ok_Cons)
    have "n mod block = length (concat bs) mod block" using Cons.prems(2) b(1) by simp
    then show ?thesis using Cons.IH [OF b(2) refl] False by (auto simp: bl_append_def block_append_def split: if_splits)
  qed
qed

lemma push_ok:
  assumes "impacts_ok v" and "map_of (v_at v) i = None" and "im_id cn = i"
  shows "impacts_ok (push_impact i cn v) \<and> v_impacts (push_impact i cn v) = v_impacts v @ [cn]"
proof -
  have b: "bl_append (v_blocks v) (v_n v) cn = block_append (v_blocks v) cn"
    using assms(1) by (intro bl_append_eq) (simp_all add: impacts_ok_def)
  have c: "blocks_ok (block_append (v_blocks v) cn)" "concat (block_append (v_blocks v) cn) = v_impacts v @ [cn]"
    using blocks_ok_append [of "v_blocks v" cn] assms(1) by (simp_all add: impacts_ok_def)
  have n: "v_n v = length (v_impacts v)" using assms(1) by (simp add: impacts_ok_def)
  have k: "indexed im_id (mput i (v_n v) (v_at v)) (v_impacts v @ [cn])"
    using indexed_snoc [of im_id "v_at v" "v_impacts v" cn] assms n by (simp add: impacts_ok_def)
  have "idx_ok node_keys (idx_add (v_n v) (v_by_node v) (node_keys cn)) (v_impacts v @ [cn])"
    "idx_ok (\<lambda>c. [im_key c]) (idx_add (v_n v) (v_by_key v) [im_key cn]) (v_impacts v @ [cn])"
    using idx_ok_snoc [of node_keys "v_by_node v" "v_impacts v" cn] idx_ok_snoc [of "\<lambda>c. [im_key c]" "v_by_key v" "v_impacts v" cn]
      assms(1) n by (simp_all add: impacts_ok_def)
  then show ?thesis using b c k n assms(1) by (simp add: impacts_ok_def push_impact_def view_index_def)
qed

lemma push_rest [simp]: "same_rest v (push_impact i cn v)"
  by (simp add: same_rest_def push_impact_def view_index_def)

lemma same_rest_refl [simp]: "same_rest v v"
  by (simp add: same_rest_def)

lemma same_rest_trans: "same_rest u v \<Longrightarrow> same_rest v w \<Longrightarrow> same_rest u w"
  by (simp add: same_rest_def)

lemma pushes_ok:
  "impacts_ok v \<Longrightarrow> distinct (map im_id (v_impacts v @ l))
    \<Longrightarrow> impacts_ok (foldl (\<lambda>v cn. push_impact (im_id cn) cn v) v l)
      \<and> v_impacts (foldl (\<lambda>v cn. push_impact (im_id cn) cn v) v l) = v_impacts v @ l
      \<and> same_rest v (foldl (\<lambda>v cn. push_impact (im_id cn) cn v) v l)"
proof (induction l arbitrary: v)
  case (Cons c l)
  have "map_of (v_at v) (im_id c) = None"
    using Cons.prems indexed_None [of im_id "v_at v" "v_impacts v" "im_id c"] by (auto simp: impacts_ok_def)
  note p = push_ok [OF Cons.prems(1) this refl]
  have d: "distinct (map im_id (v_impacts (push_impact (im_id c) c v) @ l))" using Cons.prems(2) p by simp
  show ?case using Cons.IH [OF conjunct1 [OF p] d] p same_rest_trans [OF push_rest [of v "im_id c" c]] by simp
qed simp

lemma reset_ok:
  assumes "distinct (map im_id l)"
  shows "impacts_ok (reset_impacts l v) \<and> v_impacts (reset_impacts l v) = l \<and> same_rest v (reset_impacts l v)"
proof -
  let ?v = "v\<lparr>v_blocks := [], v_n := 0, v_at := [], v_by_node := [], v_by_key := [], v_odd := 0\<rparr>"
  have e: "impacts_ok ?v" "v_impacts ?v = []" "same_rest v ?v" by (simp_all add: impacts_ok_def same_rest_def)
  have "distinct (map im_id (v_impacts ?v @ l))" using assms e(2) by simp
  from pushes_ok [OF e(1) this] show ?thesis unfolding reset_impacts_def using e(2) same_rest_trans [OF e(3)] by simp
qed

lemma replace_ok:
  assumes "impacts_ok v" and "i < length (v_impacts v)" and "im_id cn = im_id (v_impacts v ! i)"
  shows "\<exists>bs. block_set (v_blocks v) i cn = Some bs
    \<and> (let w = view_index i cn ((view_unindex i (v_impacts v ! i) v)\<lparr>v_blocks := bs\<rparr>)
       in impacts_ok w \<and> v_impacts w = (v_impacts v)[i := cn] \<and> same_rest v w)"
proof -
  let ?xs = "v_impacts v"
  obtain bs where bs: "block_set (v_blocks v) i cn = Some bs" "blocks_ok bs" "concat bs = ?xs[i := cn]"
    using blocks_ok_set [of "v_blocks v" i cn] assms(1,2) by (auto simp: impacts_ok_def)
  let ?w = "view_index i cn ((view_unindex i (?xs ! i) v)\<lparr>v_blocks := bs\<rparr>)"
  have "v_odd ?w = int (length (filter odd_impact (?xs[i := cn])))"
  proof -
    have "?xs ! i \<in># mset ?xs" using nth_mem [OF assms(2)] unfolding set_mset_mset .
    then obtain A where A: "mset ?xs = add_mset (?xs ! i) A" by (rule multi_member_split [THEN exE])
    then have B: "mset (?xs[i := cn]) = add_mset cn A" using mset_update [OF assms(2), of cn] by simp
    have n: "length (filter odd_impact ys) = size (filter_mset odd_impact (mset ys))" for ys by (metis mset_filter size_mset)
    have "v_odd v = int (length (filter odd_impact ?xs))" using assms(1) by (simp add: impacts_ok_def)
    then show ?thesis unfolding n A B by (simp add: view_index_def view_unindex_def)
  qed
  moreover have "idx_ok node_keys (v_by_node ?w) (?xs[i := cn])" "idx_ok (\<lambda>c. [im_key c]) (v_by_key ?w) (?xs[i := cn])"
    using idx_ok_update [of node_keys "v_by_node v" ?xs i cn] idx_ok_update [of "\<lambda>c. [im_key c]" "v_by_key v" ?xs i cn] assms(1,2)
    by (simp_all add: view_index_def view_unindex_def impacts_ok_def)
  moreover have "indexed im_id (v_at v) (?xs[i := cn])" using assms by (intro indexed_update) (simp_all add: impacts_ok_def)
  ultimately show ?thesis using bs assms(1)
    by (intro exI [of _ bs]) (simp add: Let_def impacts_ok_def same_rest_def view_index_def view_unindex_def)
qed

lemma view_list_all: "impacts_ok v \<Longrightarrow> view_list v = v_impacts v"
  by (auto simp: view_list_def il_slice_def impacts_of_blocks_def il_all_def impacts_ok_def)

subsection \<open>A step on the impacts\<close>

text \<open>
  An event of the log is valid but for the post of an edit, which the log leaves out. A step on one
  impact is the step on the list.
\<close>

definition log_ok :: "event \<Rightarrow> bool" where
  "log_ok e \<longleftrightarrow> event_ok (if e_op e = OpUpdated then e\<lparr>e_post := Some zero_ref\<rparr> else e)"

lemma one_impact_none:
  "e_op e \<noteq> OpAdopted \<Longrightarrow> apply_event_at out None e = (case apply_event_at [] None e of None \<Rightarrow> None
     | Some [] \<Rightarrow> Some out | Some (cn # _) \<Rightarrow> Some (out @ [cn]))"
  by (simp add: apply_event_at_def split: option.splits)

lemma one_impact_some:
  "e_op e \<noteq> OpAdopted \<Longrightarrow> apply_event_at out (Some i) e = (case apply_event_at [out ! i] (Some 0) e of None \<Rightarrow> None
     | Some [] \<Rightarrow> Some (delete_at i out) | Some (cn # _) \<Rightarrow> Some (out[i := cn]))"
  by (simp add: apply_event_at_def split: option.splits)

lemma log_ok_total: "log_ok e \<Longrightarrow> \<exists>out'. apply_event_at out p e = Some out'"
  by (cases "e_op e") (auto simp: log_ok_def event_ok_def apply_event_at_def change_impact_def Let_def split: option.splits)

lemma log_ok_state:
  "log_ok e \<Longrightarrow> apply_event_at [] None e = Some (cn # r) \<Longrightarrow> e_op e \<noteq> OpAdopted \<Longrightarrow> im_id cn = e_impact e"
  by (cases "e_op e") (auto simp: log_ok_def event_ok_def apply_event_at_def split: option.splits)

lemma log_ok_keeps:
  assumes "log_ok e" and "apply_event_at [c] (Some 0) e = Some (cn # r)" and "e_op e \<noteq> OpAdopted" and "im_id c = e_impact e"
  shows "im_id cn = e_impact e"
proof (cases "e_op e = OpProposed \<or> e_op e = OpCreated")
  case True
  then show ?thesis using assms(1,2) by (auto simp: log_ok_def event_ok_def apply_event_at_def split: option.splits)
next
  case False
  then show ?thesis using assms(2-4) change_impact_id [of c e cn]
    by (auto simp: apply_event_at_def split: option.splits if_splits)
qed

lemma apply_impact_ok:
  assumes "impacts_ok v" and "log_ok e"
  shows "\<exists>w. view_apply_impact v e = Some w \<and> impacts_ok w \<and> same_rest v w \<and> apply_event (v_impacts v) e = Some (v_impacts w)"
proof -
  let ?xs = "v_impacts v"
  have ix: "indexed im_id (v_at v) ?xs" and bl: "blocks_ok (v_blocks v)" using assms(1) by (simp_all add: impacts_ok_def)
  have pos: "index_of (\<lambda>c. im_id c = e_impact e) ?xs = map_of (v_at v) (e_impact e)" using ix by (simp add: indexed_def)
  have ap: "apply_event ?xs e = apply_event_at ?xs (map_of (v_at v) (e_impact e)) e" by (simp add: apply_event_def pos)
  have d: "distinct (map im_id ?xs)" using ix by (rule indexed_distinct)
  show ?thesis
  proof (cases "e_op e = OpAdopted")
    case True
    then have a: "apply_event_at ys q e = Some (map (\<lambda>c. adopt_impact c (e_flow e) (e_stale e)) ys)" for ys q
      by (simp add: apply_event_at_def)
    have "distinct (map im_id (map (\<lambda>c. adopt_impact c (e_flow e) (e_stale e)) ?xs))" using d by (simp add: comp_def)
    from reset_ok [OF this, of v] show ?thesis
      using True assms(1) by (simp add: view_apply_impact_def ap a view_list_all)
  next
    case na: False
    show ?thesis
    proof (cases "map_of (v_at v) (e_impact e)")
      case None
      obtain o' where o': "apply_event_at [] None e = Some o'" using log_ok_total [OF assms(2)] by blast
      show ?thesis
      proof (cases o')
        case Nil
        then show ?thesis using na None o' assms(1) ap one_impact_none [OF na, of ?xs] by (simp add: view_apply_impact_def)
      next
        case (Cons cn r)
        have "im_id cn = e_impact e" using log_ok_state [OF assms(2) _ na] o' Cons by blast
        from push_ok [OF assms(1) None this] show ?thesis
          using na None o' Cons ap one_impact_none [OF na, of ?xs] by (simp add: view_apply_impact_def)
      qed
    next
      case (Some i)
      have i: "i < length ?xs" "im_id (?xs ! i) = e_impact e" using indexed_Some [OF ix Some] by simp_all
      have bi: "block_at (v_blocks v) i = Some (?xs ! i)" using block_at_concat [OF bl] i(1) by (simp add: nth_opt_def)
      obtain o' where o': "apply_event_at [?xs ! i] (Some 0) e = Some o'" using log_ok_total [OF assms(2)] by blast
      show ?thesis
      proof (cases o')
        case Nil
        have "distinct (map im_id (delete_at i ?xs))" using distinct_delete_at [OF d] by (simp add: map_delete_at)
        from reset_ok [OF this, of v] show ?thesis
          using na Some bi o' Nil ap one_impact_some [OF na, of ?xs i] assms(1) by (simp add: view_apply_impact_def view_list_all)
      next
        case (Cons cn r)
        have "im_id cn = e_impact e" using log_ok_keeps [OF assms(2) _ na i(2)] o' Cons by blast
        then have "im_id cn = im_id (?xs ! i)" using i(2) by simp
        from replace_ok [OF assms(1) i(1) this] show ?thesis
          using na Some bi o' Cons ap one_impact_some [OF na, of ?xs i] by (auto simp: view_apply_impact_def Let_def)
      qed
    qed
  qed
qed

text \<open>An event that is not an adoption leaves the other impacts as they are.\<close>

lemma others_stay:
  assumes "distinct (map im_id cs)" and "log_ok e" and "apply_event cs e = Some cs'" and "e_op e \<noteq> OpAdopted"
  shows "{c \<in> set cs'. im_id c \<noteq> e_impact e} = {c \<in> set cs. im_id c \<noteq> e_impact e}"
proof (cases "index_of (\<lambda>c. im_id c = e_impact e) cs")
  case None
  obtain o' where o': "apply_event_at [] None e = Some o'" using log_ok_total [OF assms(2)] by blast
  show ?thesis
  proof (cases o')
    case Nil
    then show ?thesis using assms(3) one_impact_none [OF assms(4), of cs] o' None by (simp add: apply_event_def)
  next
    case (Cons cn r)
    then have "cs' = cs @ [cn]" "im_id cn = e_impact e"
      using assms(3) one_impact_none [OF assms(4), of cs] o' None log_ok_state [OF assms(2) _ assms(4), of cn r] by (simp_all add: apply_event_def)
    then show ?thesis by auto
  qed
next
  case (Some i)
  have i: "i < length cs" "im_id (cs ! i) = e_impact e" using index_of_Some [OF Some] by simp_all
  obtain o' where o': "apply_event_at [cs ! i] (Some 0) e = Some o'" using log_ok_total [OF assms(2)] by blast
  have sp: "cs = take i cs @ cs ! i # drop (Suc i) cs" using i(1) by (rule id_take_nth_drop)
  have cs: "{c \<in> set cs. im_id c \<noteq> e_impact e} = {c \<in> set (take i cs @ drop (Suc i) cs). im_id c \<noteq> e_impact e}"
    by (subst sp) (use i(2) in auto)
  show ?thesis
  proof (cases o')
    case Nil
    then have "cs' = delete_at i cs" using assms(3) one_impact_some [OF assms(4), of cs i] o' Some by (simp add: apply_event_def)
    then show ?thesis unfolding cs by (simp add: delete_at_def)
  next
    case (Cons cn r)
    then have "cs' = cs[i := cn]" "im_id cn = e_impact e"
      using assms(3) one_impact_some [OF assms(4), of cs i] o' Some log_ok_keeps [OF assms(2) _ assms(4) i(2), of cn r] by (simp_all add: apply_event_def)
    then have "cs' = take i cs @ cn # drop (Suc i) cs" using i(1) by (simp add: upd_conv_take_nth_drop)
    then show ?thesis unfolding cs using \<open>im_id cn = e_impact e\<close> by auto
  qed
qed

subsection \<open>A step on the drafts\<close>

lemma live_impact_iff: "distinct (map im_id cs) \<Longrightarrow> live_impact cs i \<longleftrightarrow> (\<exists>c \<in> set cs. im_id c = i \<and> \<not> im_superseded c)"
proof -
  assume d: "distinct (map im_id cs)"
  have "distinct (map fst (rev (map (\<lambda>c. (im_id c, \<not> im_superseded c)) cs)))" using d by (simp add: comp_def rev_map [symmetric])
  from map_of_eq_Some_iff [OF this, of i True] show ?thesis by (auto simp: live_impact_def)
qed

lemma view_live_impact:
  assumes "impacts_ok v"
  shows "view_live v i = live_impact (v_impacts v) i"
proof -
  have ix: "indexed im_id (v_at v) (v_impacts v)" and bl: "blocks_ok (v_blocks v)" using assms by (simp_all add: impacts_ok_def)
  show ?thesis
  proof (cases "map_of (v_at v) i")
    case None
    then have "i \<notin> im_id ` set (v_impacts v)" using indexed_None [OF ix] by blast
    then show ?thesis using None live_impact_iff [OF indexed_distinct [OF ix]] by (auto simp: view_live_def view_impact_def)
  next
    case (Some p)
    then have p: "p < length (v_impacts v)" "im_id (v_impacts v ! p) = i" using indexed_Some [OF ix] by blast+
    have "c = v_impacts v ! p" if c: "c \<in> set (v_impacts v)" "im_id c = i" for c
    proof -
      obtain q where "q < length (v_impacts v)" "v_impacts v ! q = c" using c(1) by (metis in_set_conv_nth)
      then show ?thesis using indexed_nth [OF ix, of q] Some c(2) by auto
    qed
    then have "live_impact (v_impacts v) i \<longleftrightarrow> \<not> im_superseded (v_impacts v ! p)"
      using live_impact_iff [OF indexed_distinct [OF ix]] p nth_mem by blast
    then show ?thesis using Some p block_at_concat [OF bl, of p] by (simp add: view_live_def view_impact_def nth_opt_def)
  qed
qed

definition rows_ok :: "draft list \<Rightarrow> view \<Rightarrow> bool" where
  "rows_ok ds v \<longleftrightarrow> (\<forall>i. mget (v_drafts v) i = filter (\<lambda>d. d_impact d = i) ds)"

text \<open>The row of a flow among the rows of an impact, and among all rows.\<close>

lemma filter_row:
  assumes "index_of (\<lambda>x. P x \<and> Q x) xs = Some k"
  shows "\<exists>j. index_of Q (filter P xs) = Some j \<and> filter P xs ! j = xs ! k \<and> P (xs ! k)
    \<and> (\<forall>n. P n \<longrightarrow> filter P (xs[k := n]) = (filter P xs)[j := n]) \<and> filter P (delete_at k xs) = delete_at j (filter P xs)"
  using assms
proof (induction xs arbitrary: k)
  case (Cons x xs)
  show ?case
  proof (cases "P x \<and> Q x")
    case True
    then show ?thesis using Cons.prems by auto
  next
    case False
    then obtain m where m: "index_of (\<lambda>x. P x \<and> Q x) xs = Some m" "k = Suc m" using Cons.prems by (auto split: if_splits)
    obtain j where j: "index_of Q (filter P xs) = Some j" "filter P xs ! j = xs ! m" "P (xs ! m)"
      "\<forall>n. P n \<longrightarrow> filter P (xs[m := n]) = (filter P xs)[j := n]" "filter P (delete_at m xs) = delete_at j (filter P xs)"
      using Cons.IH [OF m(1)] by blast
    show ?thesis
    proof (cases "P x")
      case True
      then show ?thesis using False j m(2) by (intro exI [of _ "Suc j"]) auto
    next
      case False
      then show ?thesis using j m(2) by (intro exI [of _ j]) auto
    qed
  qed
qed simp

lemma filter_other:
  assumes "k < length xs" and "\<not> R (xs ! k)"
  shows "filter R (delete_at k xs) = filter R xs" and "\<not> R n \<Longrightarrow> filter R (xs[k := n]) = filter R xs"
proof -
  have sp: "xs = take k xs @ xs ! k # drop (Suc k) xs" using assms(1) by (rule id_take_nth_drop)
  have f: "filter R xs = filter R (take k xs) @ filter R (drop (Suc k) xs)" by (subst sp) (simp add: assms(2))
  then show "filter R (delete_at k xs) = filter R xs" by (simp add: delete_at_def)
  show "filter R (xs[k := n]) = filter R xs" if "\<not> R n" using f that assms(1) by (simp add: upd_conv_take_nth_drop)
qed

lemma filter_row_none: "index_of (\<lambda>x. P x \<and> Q x) xs = None \<Longrightarrow> index_of Q (filter P xs) = None"
  by (auto simp: index_of_None)

lemma view_row_ok:
  assumes "rows_ok ds v" and "draft_op (e_op e)" and "pos = index_of (draft_row (e_impact e) (e_flow e)) ds"
    and "out = (case (apply_draft (map_option ((!) ds) pos) e, pos) of (None, Some i) \<Rightarrow> delete_at i ds
      | (Some n, Some i) \<Rightarrow> ds[i := n] | (Some n, None) \<Rightarrow> ds @ [n] | (None, None) \<Rightarrow> ds)"
  shows "rows_ok out (view_row v e)"
proof -
  let ?P = "\<lambda>d. d_impact d = e_impact e" and ?Q = "\<lambda>d. d_flow d = e_flow e"
  have "draft_row (e_impact e) (e_flow e) = (\<lambda>d. ?P d \<and> ?Q d)" by (simp add: fun_eq_iff draft_row_def)
  then have p: "pos = index_of (\<lambda>d. ?P d \<and> ?Q d) ds" unfolding assms(3) by simp
  have rows: "mget (v_drafts v) (e_impact e) = filter ?P ds" using assms(1) by (simp add: rows_ok_def)
  show ?thesis
  proof (cases pos)
    case None
    have j: "index_of ?Q (filter ?P ds) = None" using filter_row_none None p by metis
    have n: "d_impact n = e_impact e" if "apply_draft None e = Some n" for n
      using apply_draft_row [OF assms(2) _ that] by (simp add: draft_row_def)
    show ?thesis using assms(1) None j n rows unfolding rows_ok_def assms(4) view_row_def Let_def
      by (cases "apply_draft None e") auto
  next
    case (Some k)
    obtain j where j: "index_of ?Q (filter ?P ds) = Some j" "filter ?P ds ! j = ds ! k" "?P (ds ! k)"
      "\<forall>n. ?P n \<longrightarrow> filter ?P (ds[k := n]) = (filter ?P ds)[j := n]" "filter ?P (delete_at k ds) = delete_at j (filter ?P ds)"
      using filter_row [of ?P ?Q ds k] Some p by auto
    have k: "k < length ds" "draft_row (e_impact e) (e_flow e) (ds ! k)" using index_of_Some Some assms(3) by metis+
    have n: "d_impact n = e_impact e" if "apply_draft (Some (ds ! k)) e = Some n" for n
      using apply_draft_row [OF assms(2) _ that] k(2) by (simp add: draft_row_def)
    have other: "filter (\<lambda>d. d_impact d = i) (delete_at k ds) = filter (\<lambda>d. d_impact d = i) ds"
      "\<And>n. ?P n \<Longrightarrow> filter (\<lambda>d. d_impact d = i) (ds[k := n]) = filter (\<lambda>d. d_impact d = i) ds" if "i \<noteq> e_impact e" for i
      using filter_other [OF k(1), of "\<lambda>d. d_impact d = i"] j(3) that by auto
    show ?thesis
    proof (cases "apply_draft (Some (ds ! k)) e")
      case None
      then show ?thesis using assms(1) Some j rows other unfolding rows_ok_def assms(4) view_row_def Let_def by simp
    next
      case (Some m)
      then show ?thesis using assms(1) \<open>pos = Some k\<close> j rows other n [OF Some] unfolding rows_ok_def assms(4) view_row_def Let_def by simp
    qed
  qed
qed


text \<open>The rows of several impacts changed one after the other, each by a change that is the same once or twice.\<close>

lemma mget_changed_rows:
  assumes "\<And>x. g (g x) = g x"
  shows "mget (foldl (\<lambda>m i. mset_list i (g (mget m i)) m) m ids) k = (if k \<in> set ids then g (mget m k) else mget m k)"
  by (induction ids arbitrary: m) (simp_all add: assms)

lemma mget_dropped_rows:
  "mget (foldl (\<lambda>m i. if p i then m else mdel i m) m ids) k = (if k \<in> set ids \<and> \<not> p k then [] else mget m k)"
  by (induction ids arbitrary: m) auto

lemma mget_no_row: "k \<notin> set (mkeys m) \<Longrightarrow> mget m k = []"
  by (simp add: mget_def domIff)

lemma drop_flow_rows: "mget (v_drafts (drop_flow f v)) i = filter (\<lambda>d. d_flow d \<noteq> f) (mget (v_drafts v) i)"
proof -
  have "mget (v_drafts (drop_flow f v)) i = (if i \<in> set (draft_ids v) then filter (\<lambda>d. d_flow d \<noteq> f) (mget (v_drafts v) i) else mget (v_drafts v) i)"
    unfolding drop_flow_def using mget_changed_rows [of "filter (\<lambda>d. d_flow d \<noteq> f)" "v_drafts v" "draft_ids v" i] by simp
  then show ?thesis using mget_no_row [of i "v_drafts v"] by (auto simp: draft_ids_def)
qed

lemma drop_dead_rows: "mget (v_drafts (drop_dead ids v)) i = (if i \<in> set ids \<and> \<not> view_live v i then [] else mget (v_drafts v) i)"
  unfolding drop_dead_def using mget_dropped_rows [of "view_live v" "v_drafts v" ids i] by simp

lemma only_drafts [simp]:
  "v_blocks (view_row v e) = v_blocks v" "v_at (view_row v e) = v_at v"
  "v_blocks (drop_flow f v) = v_blocks v" "v_at (drop_flow f v) = v_at v"
  by (simp_all add: view_row_def drop_flow_def Let_def)

lemma view_live_cong: "v_blocks w = v_blocks v \<Longrightarrow> v_at w = v_at v \<Longrightarrow> view_live w i = view_live v i"
  by (simp add: view_live_def view_impact_def split: option.split)

lemma filter_impact_live:
  "filter (\<lambda>d. d_impact d = i) (filter (\<lambda>d. p (d_impact d)) ds) = (if p i then filter (\<lambda>d. d_impact d = i) ds else [])"
  by (induction ds) auto

lemma others_live:
  assumes "distinct (map im_id cs)" and "log_ok e" and "apply_event cs e = Some cs'" and "e_op e \<noteq> OpAdopted"
    and "distinct (map im_id cs')" and "i \<noteq> e_impact e"
  shows "live_impact cs' i = live_impact cs i"
  using others_stay [OF assms(1-4)] assms(6) unfolding live_impact_iff [OF assms(1)] live_impact_iff [OF assms(5)] by auto

text \<open>The drafts of the view after an event, before those of dead impacts go.\<close>

definition drafts_moved :: "view \<Rightarrow> event \<Rightarrow> view" where
  "drafts_moved v e = (if draft_op (e_op e) then view_row v e
     else if e_op e = OpWithdrawn \<or> e_op e = OpCommitted then v\<lparr>v_drafts := mdel (e_impact e) (v_drafts v)\<rparr>
     else if e_op e = OpAdopted then drop_flow (e_flow e) v else v)"

definition list_moved :: "draft list \<Rightarrow> event \<Rightarrow> draft list" where
  "list_moved ds e = (let pos = index_of (draft_row (e_impact e) (e_flow e)) ds in
     if draft_op (e_op e) then (case (apply_draft (map_option ((!) ds) pos) e, pos) of
         (None, Some i) \<Rightarrow> delete_at i ds | (Some n, Some i) \<Rightarrow> ds[i := n] | (Some n, None) \<Rightarrow> ds @ [n] | (None, None) \<Rightarrow> ds)
     else if e_op e = OpWithdrawn \<or> e_op e = OpCommitted then filter (\<lambda>d. d_impact d \<noteq> e_impact e) ds
     else if e_op e = OpAdopted then filter (\<lambda>d. d_flow d \<noteq> e_flow e) ds
     else ds)"

lemma drafts_moved_keeps [simp]:
  "v_blocks (drafts_moved v e) = v_blocks v" "v_at (drafts_moved v e) = v_at v"
  by (simp_all add: drafts_moved_def)

lemma apply_drafts_moved:
  "view_apply_drafts v e = (let v1 = drafts_moved v e in
     if e_op e = OpAdopted then drop_dead (draft_ids v1) v1
     else if map_of (v_drafts v1) (e_impact e) \<noteq> None then drop_dead [e_impact e] v1 else v1)"
  by (simp only: view_apply_drafts_def drafts_moved_def Let_def)

lemma apply_list_moved: "apply_draft_event ds e cs = filter (\<lambda>d. live_impact cs (d_impact d)) (list_moved ds e)"
  by (simp only: apply_draft_event_def list_moved_def Let_def)

lemma moved_rows: "rows_ok ds v \<Longrightarrow> rows_ok (list_moved ds e) (drafts_moved v e)"
proof -
  assume r: "rows_ok ds v"
  show ?thesis
  proof (cases "draft_op (e_op e)")
    case True
    from view_row_ok [OF r True refl refl] show ?thesis using True by (simp only: list_moved_def drafts_moved_def Let_def if_True)
  next
    case False
    have w: "filter (\<lambda>d. d_impact d \<noteq> j \<and> d_impact d = i) ds = (if i = j then [] else filter (\<lambda>d. d_impact d = i) ds)"
      "filter (\<lambda>d. d_flow d \<noteq> f \<and> d_impact d = i) ds = filter (\<lambda>d. d_impact d = i \<and> d_flow d \<noteq> f) ds" for i j f
      by (induction ds) auto
    show ?thesis using r False drop_flow_rows [of "e_flow e" v]
      by (auto simp: rows_ok_def list_moved_def drafts_moved_def Let_def w)
  qed
qed

lemma apply_drafts_ok:
  assumes "impacts_ok v" and "rows_ok ds v" and "log_ok e" and "distinct (map im_id cs)" and "drafts_ok ds cs"
    and "apply_event cs e = Some (v_impacts v)"
  shows "rows_ok (apply_draft_event ds e (v_impacts v)) (view_apply_drafts v e)"
proof -
  let ?v1 = "drafts_moved v e" and ?out = "list_moved ds e"
  have m: "rows_ok ?out ?v1" using assms(2) by (rule moved_rows)
  have live: "view_live ?v1 i = live_impact (v_impacts v) i" for i
    using view_live_impact [OF assms(1)] view_live_cong [of ?v1 v i] by simp
  have row: "filter (\<lambda>d. d_impact d = i) (apply_draft_event ds e (v_impacts v)) = (if live_impact (v_impacts v) i then mget (v_drafts ?v1) i else [])" for i
    using m unfolding apply_list_moved filter_impact_live by (simp add: rows_ok_def)
  show ?thesis
  proof (cases "e_op e = OpAdopted")
    case True
    then show ?thesis unfolding rows_ok_def row apply_drafts_moved Let_def
      using drop_dead_rows [of "draft_ids ?v1" ?v1] live mget_no_row [of _ "v_drafts ?v1"] by (auto simp: draft_ids_def)
  next
    case False
    have d: "distinct (map im_id (v_impacts v))" using assms(1) indexed_distinct by (auto simp: impacts_ok_def)
    have other: "live_impact (v_impacts v) i \<or> mget (v_drafts ?v1) i = []" if i: "i \<noteq> e_impact e" for i
    proof -
      have "filter (\<lambda>d. d_impact d = i) ?out = filter (\<lambda>d. d_impact d = i) ds"
      proof -
        have "mget (v_drafts ?v1) i = mget (v_drafts v) i" using i False by (simp add: drafts_moved_def view_row_def Let_def)
        then show ?thesis using m assms(2) by (simp add: rows_ok_def)
      qed
      moreover have "live_impact cs i" if "filter (\<lambda>d. d_impact d = i) ds \<noteq> []"
        using that assms(5) by (auto simp: drafts_ok_def filter_empty_conv)
      ultimately show ?thesis using m others_live [OF assms(4,3,6) False d i] by (auto simp: rows_ok_def)
    qed
    show ?thesis
    proof (cases "map_of (v_drafts ?v1) (e_impact e) = None")
      case True
      then have "mget (v_drafts ?v1) (e_impact e) = []" by (simp add: mget_def)
      then have "live_impact (v_impacts v) i \<or> mget (v_drafts ?v1) i = []" for i using other by (cases "i = e_impact e") auto
      then show ?thesis unfolding rows_ok_def row apply_drafts_moved Let_def using False True by auto
    next
      case present: False
      then show ?thesis unfolding rows_ok_def row apply_drafts_moved Let_def
        using False other live drop_dead_rows [of "[e_impact e]" ?v1] by auto
    qed
  qed
qed


subsection \<open>A view is the fold of its log\<close>

definition view_ok :: "view \<Rightarrow> bool" where
  "view_ok v \<longleftrightarrow> impacts_ok v
     \<and> (\<exists>ds. fold_draft_events [] [] (v_events v) = Some (ds, v_impacts v) \<and> drafts_ok ds (v_impacts v) \<and> rows_ok ds v)
     \<and> (\<forall>i. mget (v_conflicts v) i = pending_conflicts (v_events v) i)
     \<and> v_reviews v = reviews_of (v_items v) \<and> fold_ok (v_reviews v) \<and> list_all named_entries (rf_list (v_reviews v))"

text \<open>
  What the log of a change says, read without a view: an edit that carries no post takes the post of
  its impact in the fold of what is before it, and a fact that submits a review is followed by the
  verdicts of the review.
\<close>

definition posted :: "event list \<Rightarrow> event \<Rightarrow> event" where
  "posted xs e = (if e_op e = OpUpdated \<and> e_post e = None
     then (case Option.bind (fold_impacts xs) (find (\<lambda>c. im_id c = e_impact e)) of None \<Rightarrow> e
       | Some cn \<Rightarrow> (case im_post cn of None \<Rightarrow> e | Some p \<Rightarrow> e\<lparr>e_post := Some p\<rparr>))
     else e)"

fun fill :: "event list \<Rightarrow> event list \<Rightarrow> event list" where
  "fill xs [] = xs"
| "fill xs (e # es) = fill (xs @ [posted xs e]) es"

definition submission :: "string \<Rightarrow> item list \<Rightarrow> item \<Rightarrow> int \<Rightarrow> event list" where
  "submission c past it seq = (if it_type it \<noteq> ''review'' then []
     else case rf_apply (reviews_of past) it of (f, r, submitted) \<Rightarrow> if submitted then verdicts r c it seq else [])"

fun log_events :: "string \<Rightarrow> event list \<Rightarrow> item list \<Rightarrow> (bool \<times> int) list \<Rightarrow> event list \<Rightarrow> item list \<Rightarrow> event list" where
  "log_events c xs past [] es its = fill xs es"
| "log_events c xs past ((is_fact, seq) # ls) es its =
     (if is_fact then (case its of [] \<Rightarrow> xs
        | it # its1 \<Rightarrow> log_events c (fill xs (submission c past it seq)) (past @ [it]) ls es its1)
      else log_events c (fill xs (takeWhile (\<lambda>e. e_seq e \<le> seq) es)) past ls (dropWhile (\<lambda>e. e_seq e \<le> seq) es) its)"

text \<open>The moves of the object itself, which the phase of a view follows.\<close>

definition own_moves :: "item list \<Rightarrow> item list" where
  "own_moves its = filter (\<lambda>it. it_type it = ''transition'' \<and> it_flow it = []) its"

definition moves_ok :: "view \<Rightarrow> bool" where
  "moves_ok v \<longleftrightarrow> v_moved v = (own_moves (v_items v) \<noteq> [])
     \<and> v_first v = (case own_moves (v_items v) of [] \<Rightarrow> [] | it # _ \<Rightarrow> str_of (pget (it_data it) ''from''))
     \<and> v_state v = (case rev (own_moves (v_items v)) of [] \<Rightarrow> [] | it # _ \<Rightarrow> str_of (pget (it_data it) ''to''))"

lemma view_impact_find:
  assumes "impacts_ok v" shows "view_impact v i = find (\<lambda>c. im_id c = i) (v_impacts v)"
proof -
  have ix: "indexed im_id (v_at v) (v_impacts v)" and bl: "blocks_ok (v_blocks v)" using assms by (simp_all add: impacts_ok_def)
  have pos: "map_of (v_at v) i = index_of (\<lambda>c. im_id c = i) (v_impacts v)" using ix by (simp add: indexed_def)
  show ?thesis
  proof (cases "map_of (v_at v) i")
    case None
    then have "\<forall>c \<in> set (v_impacts v). im_id c \<noteq> i" using pos by (simp only: index_of_None simp_thms)
    then have "find (\<lambda>c. im_id c = i) (v_impacts v) = None" unfolding find_None_iff by blast
    then show ?thesis using None by (simp add: view_impact_def)
  next
    case (Some p)
    have p: "p < length (v_impacts v)" "im_id (v_impacts v ! p) = i" using indexed_Some [OF ix Some] by simp_all
    have "im_id (v_impacts v ! q) \<noteq> i" if "q < p" for q
    proof
      assume "im_id (v_impacts v ! q) = i"
      then have "map im_id (v_impacts v) ! q = map im_id (v_impacts v) ! p" using p that by simp
      moreover have "p < length (map im_id (v_impacts v))" "q < length (map im_id (v_impacts v))" using p that by simp_all
      ultimately have "q = p" using nth_eq_iff_index_eq [OF indexed_distinct [OF ix]] by blast
      then show False using that by simp
    qed
    then have "find (\<lambda>c. im_id c = i) (v_impacts v) = Some (v_impacts v ! p)" using p unfolding find_Some_iff by blast
    then show ?thesis using Some block_at_concat [OF bl] p(1) by (simp add: view_impact_def nth_opt_def)
  qed
qed

lemma view_ok_folds:
  assumes "view_ok v" shows "fold_impacts (v_events v) = Some (v_impacts v)"
proof -
  obtain ds where "fold_draft_events [] [] (v_events v) = Some (ds, v_impacts v)" using assms by (auto simp: view_ok_def)
  from fold_draft_events_ok [OF _ this] show ?thesis by (simp add: drafts_ok_def fold_impacts_def)
qed

lemma with_post_posted:
  assumes "view_ok v" shows "with_post v e = posted (v_events v) e"
proof -
  have "impacts_ok v" using assms by (simp add: view_ok_def)
  then have "Option.bind (fold_impacts (v_events v)) (find (\<lambda>c. im_id c = e_impact e)) = view_impact v (e_impact e)"
    using view_ok_folds [OF assms] by (simp add: view_impact_find)
  then show ?thesis by (simp only: with_post_def posted_def)
qed

lemma new_view_ok [simp]: "view_ok (new_view c)"
  by (simp add: view_ok_def new_view_def impacts_ok_def drafts_ok_def rows_ok_def pending_conflicts_def reviews_of_def)
    (simp add: no_reviews_def)

lemma fold_draft_events_snoc:
  "fold_draft_events ds cs es = Some (ds1, cs1) \<Longrightarrow> apply_event cs1 e = Some cs2
    \<Longrightarrow> fold_draft_events ds cs (es @ [e]) = Some (apply_draft_event ds1 e cs2, cs2)"
  by (induction es arbitrary: ds cs) (auto split: option.splits)

lemma with_post_ok: "log_ok e \<Longrightarrow> log_ok (with_post v e)"
  by (auto simp: with_post_def log_ok_def split: option.splits)

text \<open>The event as the log holds it, without the post of an edit.\<close>

definition logged :: "event \<Rightarrow> event" where
  "logged e = (if e_op e = OpUpdated then e\<lparr>e_post := None\<rparr> else e)"

lemma logged_with_post [simp]: "logged (with_post v e) = logged e"
  by (auto simp: with_post_def logged_def split: option.splits)

lemma apply_drafts_rest:
  "v_impacts (view_apply_drafts v e) = v_impacts v" "impacts_ok (view_apply_drafts v e) = impacts_ok v"
  "v_events (view_apply_drafts v e) = v_events v" "v_items (view_apply_drafts v e) = v_items v"
  "v_conflicts (view_apply_drafts v e) = v_conflicts v" "v_reviews (view_apply_drafts v e) = v_reviews v"
  "v_change (view_apply_drafts v e) = v_change v"
  by (simp_all add: view_apply_drafts_def view_row_def drop_flow_def drop_dead_def impacts_ok_def Let_def)

lemma pending_snoc: "pending_conflicts (es @ [e]) i
    = (if e_impact e = i then apply_conflict_event (pending_conflicts es i) e else pending_conflicts es i)"
  by (simp add: pending_conflicts_def)

lemma view_apply_ok:
  assumes "view_ok v" and "log_ok e0"
  shows "\<exists>w. view_apply v e0 = Some w \<and> view_ok w \<and> v_events w = v_events v @ [posted (v_events v) e0] \<and> v_items w = v_items v
    \<and> v_change w = v_change v"
proof -
  define e where "e = with_post v e0"
  define v1 where "v1 = v\<lparr>v_events := v_events v @ [e], v_phases := (if starts_draft e \<and> e_flow e = []
      then mput (e_impact e) \<lparr>ph_state = v_state v, ph_seq = e_seq e, ph_before = \<not> v_moved v\<rparr> (v_phases v) else v_phases v)\<rparr>"
  have e: "log_ok e" unfolding e_def using assms(2) by (rule with_post_ok)
  have v1: "v_impacts v1 = v_impacts v" "v_drafts v1 = v_drafts v" "v_events v1 = v_events v @ [e]" "v_conflicts v1 = v_conflicts v"
    "v_items v1 = v_items v" "v_reviews v1 = v_reviews v" "v_change v1 = v_change v" "impacts_ok v1 = impacts_ok v"
    by (simp_all add: v1_def impacts_ok_def)
  have i: "impacts_ok v1" using assms(1) v1(8) by (simp add: view_ok_def)
  obtain ds where ds: "fold_draft_events [] [] (v_events v) = Some (ds, v_impacts v)" "drafts_ok ds (v_impacts v)" "rows_ok ds v"
    using assms(1) by (auto simp: view_ok_def)
  obtain w where w: "view_apply_impact v1 e = Some w" "impacts_ok w" "same_rest v1 w" "apply_event (v_impacts v) e = Some (v_impacts w)"
    using apply_impact_ok [OF i e] v1(1) by auto
  define x where "x = view_apply_drafts w e"
  have rest: "v_events w = v_events v @ [e]" "v_conflicts w = v_conflicts v" "v_items w = v_items v" "v_reviews w = v_reviews v"
    "v_change w = v_change v" "v_drafts w = v_drafts v"
    using w(3) v1 by (simp_all add: same_rest_def)
  note x = apply_drafts_rest [of w e, folded x_def]
  have "rows_ok ds w" using ds(3) rest(6) by (simp add: rows_ok_def)
  moreover have "distinct (map im_id (v_impacts v))" using i v1(1) indexed_distinct by (auto simp: impacts_ok_def)
  ultimately have rows: "rows_ok (apply_draft_event ds e (v_impacts w)) x"
    unfolding x_def using w(2,4) e ds(2) by (intro apply_drafts_ok)
  have ok: "drafts_ok (apply_draft_event ds e (v_impacts w)) (v_impacts w)"
    using ds(2) by (intro apply_draft_event_ok) (simp add: drafts_ok_def)
  have fold: "fold_draft_events [] [] (v_events v @ [e]) = Some (apply_draft_event ds e (v_impacts w), v_impacts w)"
    using fold_draft_events_snoc [OF ds(1) w(4)] .
  define y where "y = x\<lparr>v_conflicts := mset_list (e_impact e) (apply_conflict_event (mget (v_conflicts x) (e_impact e)) e) (v_conflicts x), v_seq := e_seq e\<rparr>"
  have y: "v_impacts y = v_impacts w" "impacts_ok y" "v_events y = v_events v @ [e]" "v_items y = v_items v" "v_reviews y = v_reviews v"
    "v_change y = v_change v" "v_drafts y = v_drafts x"
    using x rest w(2) by (simp_all add: y_def impacts_ok_def)
  have "mget (v_conflicts y) k = pending_conflicts (v_events y) k" for k
    using assms(1) x(5) rest(2) by (simp add: y(3)) (simp add: y_def pending_snoc view_ok_def)
  then have "view_ok y" using y rows ok fold assms(1) unfolding view_ok_def y(1,3,4,5) by (auto simp: rows_ok_def)
  moreover have "view_apply v e0 = Some y"
    using w(1) by (simp only: view_apply_def e_def [symmetric] v1_def [symmetric] Let_def option.case x_def [symmetric] y_def)
  ultimately show ?thesis using y unfolding e_def with_post_posted [OF assms(1)] by blast
qed

lemma logged_posted [simp]: "logged (posted xs e) = logged e"
  by (auto simp: posted_def logged_def split: option.splits)

lemma fill_append: "\<exists>ys. fill xs es = xs @ ys \<and> map logged ys = map logged es"
proof (induction es arbitrary: xs)
  case (Cons e es)
  obtain ys where "fill (xs @ [posted xs e]) es = xs @ posted xs e # ys" "map logged ys = map logged es" using Cons [of "xs @ [posted xs e]"] by auto
  then show ?case by (intro exI [of _ "posted xs e # ys"]) simp
qed simp

lemma view_applies_ok:
  "view_ok v \<Longrightarrow> list_all log_ok es \<Longrightarrow> \<exists>w. view_applies v es = Some w \<and> view_ok w \<and> v_events w = fill (v_events v) es
    \<and> v_items w = v_items v \<and> v_change w = v_change v"
proof (induction es arbitrary: v)
  case (Cons e es)
  obtain w where w: "view_apply v e = Some w" "view_ok w" "v_events w = v_events v @ [posted (v_events v) e]" "v_items w = v_items v"
    "v_change w = v_change v"
    using view_apply_ok [OF Cons.prems(1), of e] Cons.prems(2) by auto
  obtain u where u: "view_applies w es = Some u" "view_ok u" "v_events u = fill (v_events w) es" "v_items u = v_items w" "v_change u = v_change w"
    using Cons.IH [OF w(2)] Cons.prems(2) by auto
  show ?case using w u by simp
qed simp

lemma reviews_of_snoc: "reviews_of (its @ [it]) = fst (rf_apply (reviews_of its) it)"
  by (simp add: reviews_of_def)

lemma view_fact_ok:
  assumes "view_ok v" and "fact_ok it"
  shows "\<exists>w. view_fact v it seq = Some w \<and> view_ok w \<and> v_events w = fill (v_events v) (submission (v_change v) (v_items v) it seq)
    \<and> v_items w = v_items v @ [it] \<and> v_change w = v_change v"
proof (cases "it_type it = ''review''")
  case False
  have r: "reviews_of (v_items v @ [it]) = reviews_of (v_items v)" using rf_apply_other [OF False] by (simp add: reviews_of_snoc)
  have keep: "view_ok w" if "v_events w = v_events v" "v_items w = v_items v @ [it]" "v_impacts w = v_impacts v" "impacts_ok w = impacts_ok v"
      "v_drafts w = v_drafts v" "v_conflicts w = v_conflicts v" "v_reviews w = v_reviews v" for w
    using assms(1) r unfolding view_ok_def rows_ok_def that by auto
  show ?thesis using False by (auto simp: view_fact_def submission_def Let_def impacts_ok_def intro!: keep)
next
  case True
  obtain f r b where a: "rf_apply (v_reviews v) it = (f, r, b)" by (cases "rf_apply (v_reviews v) it")
  define v1 where "v1 = v\<lparr>v_items := v_items v @ [it], v_reviews := f, v_seq := seq\<rparr>"
  have old: "fold_ok (v_reviews v)" "list_all named_entries (rf_list (v_reviews v))" "v_reviews v = reviews_of (v_items v)"
    using assms(1) unfolding view_ok_def by auto
  note st = rf_apply_step [OF a]
  have new: "fold_ok f" "list_all named_entries (rf_list f)"
    using step_ok [OF st old(1)] step_named [OF st old(1,2)] assms(2) True by (simp_all add: fact_ok_def)
  have f: "f = reviews_of (v_items v @ [it])" using a old(3) by (simp add: reviews_of_snoc)
  have v1: "view_ok v1" using assms(1) new f unfolding view_ok_def rows_ok_def by (simp add: v1_def impacts_ok_def)
  have eq: "view_fact v it seq = (if \<not> b then Some v1 else view_applies v1 (verdicts r (v_change v) it seq))"
    using True a by (simp add: view_fact_def view_review_def v1_def Let_def)
  have sb: "submission (v_change v) (v_items v) it seq = (if b then verdicts r (v_change v) it seq else [])"
    using True a old(3) by (simp add: submission_def)
  show ?thesis
  proof (cases b)
    case False
    then show ?thesis using eq sb v1 by (auto simp: v1_def)
  next
    case sub: True
    have "named_entries r"
    proof -
      obtain i where "i < length (rf_list f)" "rf_list f ! i = r"
        using step_submits [of "v_reviews v" it f r] st sub old(1) key_index [OF new(1)] by (auto simp: rf_get_def split: option.splits)
      then show ?thesis using new(2) by (auto simp: list_all_length)
    qed
    then have "list_all event_ok (verdicts r (v_change v) it seq)" by (rule verdicts_ok)
    then have "list_all log_ok (verdicts r (v_change v) it seq)"
      by (auto simp: list_all_iff verdicts_def log_ok_def)
    from view_applies_ok [OF v1 this] eq sub sb show ?thesis by (fastforce simp: v1_def)
  qed
qed

lemma fold_entries_ok:
  "view_ok v \<Longrightarrow> list_all log_ok es \<Longrightarrow> list_all fact_ok its \<Longrightarrow> length (filter fst ls) = length its
    \<Longrightarrow> \<exists>w. fold_entries v ls es its = Some w \<and> view_ok w \<and> v_events w = log_events (v_change v) (v_events v) (v_items v) ls es its
      \<and> v_items w = v_items v @ its"
proof (induction v ls es its rule: fold_entries.induct)
  case (1 v es its)
  then show ?case using view_applies_ok [OF 1(1,2)] by fastforce
next
  case (2 v is_fact seq ls es its)
  show ?case
  proof (cases is_fact)
    case True
    then obtain it its1 where its: "its = it # its1" using 2(6) by (cases its) auto
    obtain u where u: "view_fact v it seq = Some u" "view_ok u" "v_events u = fill (v_events v) (submission (v_change v) (v_items v) it seq)"
      "v_items u = v_items v @ [it]" "v_change u = v_change v" using view_fact_ok [OF 2(3), of it seq] 2(5) its by auto
    obtain w where "fold_entries u ls es its1 = Some w" "view_ok w" "v_events w = log_events (v_change u) (v_events u) (v_items u) ls es its1"
      "v_items w = v_items u @ its1"
      using 2(1) [OF True its u(1,2) 2(4)] 2(5,6) True its by auto
    then show ?thesis using True its u by simp
  next
    case False
    let ?a = "takeWhile (\<lambda>e. e_seq e \<le> seq) es" and ?b = "dropWhile (\<lambda>e. e_seq e \<le> seq) es"
    have ab: "list_all log_ok ?a" "list_all log_ok ?b"
      using 2(4) by (auto simp: list_all_iff dest: set_takeWhileD set_dropWhileD)
    obtain u where u: "view_applies v ?a = Some u" "view_ok u" "v_events u = fill (v_events v) ?a"
      "v_items u = v_items v" "v_change u = v_change v" using view_applies_ok [OF 2(3) ab(1)] by auto
    obtain w where "fold_entries u ls ?b its = Some w" "view_ok w" "v_events w = log_events (v_change u) (v_events u) (v_items u) ls ?b its"
      "v_items w = v_items u @ its"
      using 2(2) [OF False u(1,2) ab(2) 2(5)] 2(6) False by auto
    then show ?thesis using False u by simp
  qed
qed

text \<open>The log keeps its events, in order, with the verdicts between them.\<close>

lemma log_events_keeps:
  "length (filter fst ls) = length its
    \<Longrightarrow> \<exists>ys. log_events c xs past ls es its = xs @ ys \<and> subseq (map logged es) (map logged ys)"
proof (induction c xs past ls es its rule: log_events.induct)
  case (1 c xs past es its)
  obtain ys where "fill xs es = xs @ ys" "map logged ys = map logged es" using fill_append by blast
  then show ?case by (intro exI [of _ ys]) (simp add: subseq_order.order_refl)
next
  case (2 c xs past is_fact seq ls es its)
  show ?case
  proof (cases is_fact)
    case True
    then obtain it its1 where its: "its = it # its1" using 2(3) by (cases its) auto
    obtain ys where ys: "fill xs (submission c past it seq) = xs @ ys" using fill_append by blast
    obtain zs where "log_events c (xs @ ys) (past @ [it]) ls es its1 = (xs @ ys) @ zs" "subseq (map logged es) (map logged zs)"
      using 2(1) [OF True its] 2(3) True its ys by auto
    then show ?thesis using True its ys by (intro exI [of _ "ys @ zs"]) (simp add: list_emb_append2)
  next
    case False
    let ?a = "takeWhile (\<lambda>e. e_seq e \<le> seq) es" and ?b = "dropWhile (\<lambda>e. e_seq e \<le> seq) es"
    obtain ys where ys: "fill xs ?a = xs @ ys" "map logged ys = map logged ?a" using fill_append by blast
    obtain zs where zs: "log_events c (xs @ ys) past ls ?b its = (xs @ ys) @ zs" "subseq (map logged ?b) (map logged zs)"
      using 2(2) [OF False] 2(3) False ys by auto
    have "map logged es = map logged ?a @ map logged ?b" unfolding map_append [symmetric] by simp
    then have "subseq (map logged es) (map logged (ys @ zs))" using ys(2) zs(2) by (simp add: list_emb_append_mono)
    then show ?thesis using False ys zs by (intro exI [of _ "ys @ zs"]) simp
  qed
qed

text \<open>The events leave the phase of the view as it is, and a move of the object itself moves it.\<close>

definition same_moves :: "view \<Rightarrow> view \<Rightarrow> bool" where
  "same_moves v w \<longleftrightarrow> v_moved w = v_moved v \<and> v_first w = v_first v \<and> v_state w = v_state v \<and> v_items w = v_items v"

lemma same_moves_refl [simp]: "same_moves v v"
  by (simp add: same_moves_def)

lemma push_moves: "same_moves v w \<Longrightarrow> same_moves v (push_impact i c w)"
  by (simp add: push_impact_def view_index_def same_moves_def)

lemma pushes_moves: "same_moves v w \<Longrightarrow> same_moves v (foldl (\<lambda>w c. push_impact (im_id c) c w) w l)"
  by (induction l arbitrary: w) (simp_all add: push_moves)

lemma reset_moves: "same_moves v (reset_impacts l v)"
  unfolding reset_impacts_def by (rule pushes_moves) (simp add: same_moves_def)

lemma index_moves: "same_moves v (view_index i c ((view_unindex i d v)\<lparr>v_blocks := bs\<rparr>))"
  by (simp add: view_index_def view_unindex_def same_moves_def)

lemma apply_impact_moves: "view_apply_impact v e = Some w \<Longrightarrow> same_moves v w"
  unfolding view_apply_impact_def
  by (auto simp: reset_moves push_moves index_moves split: if_splits option.splits list.splits)

lemma apply_drafts_moves: "same_moves v w \<Longrightarrow> same_moves v (view_apply_drafts w e)"
  by (simp add: view_apply_drafts_def view_row_def drop_flow_def drop_dead_def same_moves_def Let_def)

lemma apply_moves:
  assumes "view_apply v e = Some w" shows "same_moves v w"
proof -
  define d where "d = with_post v e"
  define v1 where "v1 = v\<lparr>v_events := v_events v @ [d], v_phases := (if starts_draft d \<and> e_flow d = []
      then mput (e_impact d) \<lparr>ph_state = v_state v, ph_seq = e_seq d, ph_before = \<not> v_moved v\<rparr> (v_phases v) else v_phases v)\<rparr>"
  note eq = assms [unfolded view_apply_def Let_def, folded d_def, folded v1_def]
  obtain u where u: "view_apply_impact v1 d = Some u" using eq by (cases "view_apply_impact v1 d") simp_all
  have "same_moves v v1" by (simp add: v1_def same_moves_def)
  then have "same_moves v (view_apply_drafts u d)" using apply_drafts_moves [OF apply_impact_moves [OF u]] by (simp add: same_moves_def)
  then show ?thesis using eq u by (auto simp: same_moves_def)
qed

lemma applies_moves: "view_applies v es = Some w \<Longrightarrow> same_moves v w"
proof (induction es arbitrary: v)
  case (Cons e es)
  then obtain u where "view_apply v e = Some u" "view_applies u es = Some w" by (auto split: option.splits)
  then show ?case using apply_moves [of v e u] Cons.IH [of u] by (simp add: same_moves_def)
qed simp

lemma own_moves_snoc: "own_moves (its @ [it]) = own_moves its @ (if it_type it = ''transition'' \<and> it_flow it = [] then [it] else [])"
  by (simp add: own_moves_def)

lemma same_moves_ok: "same_moves v w \<Longrightarrow> moves_ok v \<Longrightarrow> moves_ok w"
  by (simp add: same_moves_def moves_ok_def)

lemma fact_moves:
  assumes "view_fact v it seq = Some w" and "moves_ok v" shows "moves_ok w"
proof (cases "it_type it = ''review''")
  case True
  obtain f r b where a: "rf_apply (v_reviews v) it = (f, r, b)" by (cases "rf_apply (v_reviews v) it")
  define v1 where "v1 = v\<lparr>v_items := v_items v @ [it], v_reviews := f, v_seq := seq\<rparr>"
  have "moves_ok v1" using assms(2) True by (simp add: moves_ok_def v1_def own_moves_snoc)
  moreover have "w = v1 \<or> same_moves v1 w"
    using assms(1) True a by (auto simp: view_fact_def view_review_def v1_def Let_def intro: applies_moves split: if_splits)
  ultimately show ?thesis using same_moves_ok by blast
next
  case False
  then show ?thesis using assms
    by (cases "own_moves (v_items v)") (auto simp: view_fact_def moves_ok_def own_moves_snoc Let_def split: if_splits)
qed

lemma fold_entries_moves: "fold_entries v ls es its = Some w \<Longrightarrow> moves_ok v \<Longrightarrow> moves_ok w"
proof (induction v ls es its rule: fold_entries.induct)
  case (1 v es its)
  then have "view_applies v es = Some w" "moves_ok v" by simp_all
  then show ?case using applies_moves same_moves_ok by blast
next
  case (2 v is_fact seq ls es its)
  show ?case
  proof (cases is_fact)
    case True
    then obtain it its1 u where "its = it # its1" "view_fact v it seq = Some u" "fold_entries u ls es its1 = Some w"
      using 2(3) by (auto split: list.splits option.splits)
    then show ?thesis using 2(1) [OF True] fact_moves 2(4) by blast
  next
    case False
    then obtain u where u: "view_applies v (takeWhile (\<lambda>e. e_seq e \<le> seq) es) = Some u"
      "fold_entries u ls (dropWhile (\<lambda>e. e_seq e \<le> seq) es) its = Some w" using 2(3) by (auto split: option.splits)
    show ?thesis using 2(2) [OF False u] same_moves_ok [OF applies_moves [OF u(1)] 2(4)] by blast
  qed
qed

lemma new_view_moves: "moves_ok (new_view c)"
  by (simp add: moves_ok_def new_view_def own_moves_def)

text \<open>
  C1. The view folded in place from the log of a change, its facts and its events in their order, is the
  fold of the whole log, and no lookup of it fails. Its events are those of the log in their order and
  nothing else: an edit that carries no post with the post its impact had, and after the fact that
  submits a review the verdicts of the review. Its impacts are those of FoldImpacts, the rows of an
  impact those of FoldDrafts in order, the pending conflicts of an impact those of PendingConflicts,
  its reviews the fold of its items, its phase where the moves of the object itself have brought it, and
  it stands at the position of the last entry.
\<close>

theorem view_refines_fold:
  assumes "list_all log_ok es" and "list_all fact_ok its" and "length (filter fst ls) = length its"
  shows "\<exists>w ds. fold_log (new_view c) ls es its = Some w
    \<and> v_events w = log_events c [] [] ls es its \<and> subseq (map logged es) (map logged (v_events w)) \<and> v_items w = its
    \<and> fold_impacts (v_events w) = Some (view_list w) \<and> fold_drafts (v_events w) = Some ds
    \<and> (\<lambda>i. mget (v_drafts w) i) = (\<lambda>i. filter (\<lambda>d. d_impact d = i) ds)
    \<and> (\<lambda>i. mget (v_conflicts w) i) = pending_conflicts (v_events w) \<and> v_reviews w = reviews_of its \<and> moves_ok w
    \<and> (ls = [] \<or> v_seq w = snd (last ls))"
proof -
  obtain u where u: "fold_entries (new_view c) ls es its = Some u" "view_ok u" "v_items u = its" "v_events u = log_events c [] [] ls es its"
    using fold_entries_ok [OF new_view_ok assms, of c] by (auto simp: new_view_def)
  have keeps: "subseq (map logged es) (map logged (v_events u))" using log_events_keeps [OF assms(3), of c "[]" "[]" es] u(4) by auto
  define w where "w = (if ls = [] then u else u\<lparr>v_seq := snd (last ls)\<rparr>)"
  have w: "fold_log (new_view c) ls es its = Some w" "ls = [] \<or> v_seq w = snd (last ls)" using u(1) by (simp_all add: fold_log_def w_def)
  have same: "v_events w = v_events u" "v_items w = v_items u" "v_impacts w = v_impacts u" "impacts_ok w = impacts_ok u"
    "v_drafts w = v_drafts u" "v_conflicts w = v_conflicts u" "v_reviews w = v_reviews u" "moves_ok w = moves_ok u"
    by (simp_all add: w_def impacts_ok_def moves_ok_def)
  obtain ds where ds: "fold_draft_events [] [] (v_events u) = Some (ds, v_impacts u)" "rows_ok ds u"
    using u(2) by (auto simp: view_ok_def)
  have "view_list w = v_impacts u" using view_list_all [of w] same u(2) by (simp add: view_ok_def)
  then have f: "fold_impacts (v_events w) = Some (view_list w)" using view_ok_folds [OF u(2)] same by simp
  have d: "fold_drafts (v_events w) = Some ds" using ds(1) same by (simp add: fold_drafts_def)
  have rows: "(\<lambda>i. mget (v_drafts w) i) = (\<lambda>i. filter (\<lambda>d. d_impact d = i) ds)" using ds(2) same by (auto simp: rows_ok_def)
  have conf: "(\<lambda>i. mget (v_conflicts w) i) = pending_conflicts (v_events w)" and rv: "v_reviews w = reviews_of its"
    using u(2,3) same by (auto simp: view_ok_def)
  have mv: "moves_ok w" using fold_entries_moves [OF u(1) new_view_moves] same by simp
  show ?thesis using w u(3,4) keeps f d rows conf rv mv same by auto
qed

definition demo_log :: "event list" where
  "demo_log = [demo_event, demo_checkout, demo_update\<lparr>e_post := None\<rparr>]"

theorem view_refines_fold_witness:
  "list_all log_ok demo_log \<and> list_all fact_ok [demo_item ''i2'' (demo_delta ''submitted'')]
   \<and> (\<exists>w ds. fold_log (new_view ''c'') [(False, 0), (True, 5)] demo_log [demo_item ''i2'' (demo_delta ''submitted'')] = Some w
      \<and> fold_impacts (v_events w) = Some (view_list w) \<and> fold_drafts (v_events w) = Some ds)
   \<and> map_option (\<lambda>w. (length (v_events w), map_option d_props (view_draft w ''i1'' []))) (fold_log (new_view ''c'') [(False, 0), (True, 5)] demo_log [demo_item ''i2'' (demo_delta ''submitted'')])
     = Some (4, Some (Some [(''b'', GBool True)]))"
proof -
  let ?its = "[demo_item ''i2'' (demo_delta ''submitted'')]" and ?ls = "[(False, 0), (True, 5 :: int)]"
  have a: "list_all log_ok demo_log" by code_simp
  have b: "list_all fact_ok ?its" by code_simp
  have c: "length (filter fst ?ls) = length ?its" by simp
  have d: "map_option (\<lambda>w. (length (v_events w), map_option d_props (view_draft w ''i1'' []))) (fold_log (new_view ''c'') ?ls demo_log ?its)
     = Some (4, Some (Some [(''b'', GBool True)]))" by code_simp
  show ?thesis using view_refines_fold [OF a b c, of "''c''"] a b d by blast
qed


subsection \<open>The lookups of a view\<close>

lemma node_keys_names: "i \<noteq> [] \<Longrightarrow> (i \<in> set (node_keys c)) = names_node i c"
  by (auto simp: node_keys_def impact_nodes_def names_node_def Let_def split: option.splits if_splits)

interpretation vl: impact_lookup view_lookup "\<lambda>v xs. impacts_ok v \<and> v_impacts v = xs"
proof
  fix v :: view and xs i
  assume h: "impacts_ok v \<and> v_impacts v = xs"
  show "lk_position (view_lookup v) i = index_of (\<lambda>c. im_id c = i) xs"
    using h by (auto simp: view_lookup_def impacts_ok_def indexed_def)
  show "lk_odd (view_lookup v) = int (length (filter odd_impact xs))"
    using h by (auto simp: view_lookup_def impacts_ok_def)
  show "lk_of_node (view_lookup v) i = positions (names_node i) xs" if "i \<noteq> []"
  proof -
    have "mget (v_by_node v) i = positions (\<lambda>c. i \<in> set (node_keys c)) xs"
      using h that by (intro idx_ok_positions) (auto simp: impacts_ok_def)
    then show ?thesis using node_keys_names [OF that] by (simp add: view_lookup_def)
  qed
  show "lk_of_key (view_lookup v) i = positions (\<lambda>c. im_key c = i) xs" if "i \<noteq> []"
  proof -
    have "mget (v_by_key v) i = positions (\<lambda>c. i \<in> set [im_key c]) xs"
      using h that by (intro idx_ok_positions) (auto simp: impacts_ok_def)
    then show ?thesis by (simp add: view_lookup_def eq_commute)
  qed
qed

lemma indexed_list_looks: "impacts_ok v \<Longrightarrow> vl.looks (indexed_list v) v \<and> il_all (indexed_list v) = view_list v"
  unfolding vl.looks_def using view_list_all [of v] by (auto simp: il_ok_def indexed_list_def indexed_impacts_def il_all_def impacts_ok_def)

lemma appends_look: "vl.looks l v \<Longrightarrow> vl.looks (foldl il_append l cs) v \<and> il_all (foldl il_append l cs) = il_all l @ cs"
proof (induction cs arbitrary: l)
  case (Cons c cs)
  have "il_all (il_append l c) = il_all l @ [c]" using il_append_ok Cons.prems by (simp add: vl.looks_def)
  then show ?case using Cons.IH [OF vl.looks_append [OF Cons.prems, of c]] by simp
qed simp

lemma fold_log_ok:
  assumes "list_all log_ok es" and "list_all fact_ok its" and "length (filter fst ls) = length its" and "fold_log (new_view c) ls es its = Some w"
  shows "impacts_ok w"
proof -
  obtain u where "fold_entries (new_view c) ls es its = Some u" "view_ok u" using fold_entries_ok [OF new_view_ok assms(1-3), of c] by blast
  then show ?thesis using assms(4) by (auto simp: fold_log_def view_ok_def impacts_ok_def split: if_splits)
qed

text \<open>
  C21. What an operation looks up in the impacts of a view, its own appended to them, is what a walk of
  the list finds: the position of an impact, the impacts naming a node or a key, in order, and whether
  one is superseded or of a flow.
\<close>

theorem view_lookups_exact:
  assumes "list_all log_ok es" and "list_all fact_ok its" and "length (filter fst ls) = length its" and "fold_log (new_view c) ls es its = Some w"
    and "l = foldl il_append (indexed_list w) cs"
  shows "il_index l i = index_of (\<lambda>c. im_id c = i) (view_list w @ cs)
    \<and> il_plain l = (\<not> list_ex odd_impact (view_list w @ cs))
    \<and> (n = [] \<or> map (the \<circ> snd) (filter (\<lambda>(j, c). names_node n (the c)) (il_of_node l n)) = filter (names_node n) (view_list w @ cs))
    \<and> (n = [] \<or> map (the \<circ> snd) (filter (\<lambda>(j, c). im_key (the c) = n) (il_of_key l n)) = filter (\<lambda>c. im_key c = n) (view_list w @ cs))"
proof -
  have ok: "impacts_ok w" by (rule fold_log_ok [OF assms(1-4)])
  have l: "vl.looks l w" and all: "il_all l = view_list w @ cs"
    using appends_look [of "indexed_list w" w cs] indexed_list_looks [OF ok] assms(5) by simp_all
  have enum: "map (the \<circ> snd) (filter (\<lambda>(j, c). p (the c)) (il_enum l)) = filter p (il_all l)" for p
  proof -
    have "map snd (filter (\<lambda>(j, c). p c) (List.enumerate k xs)) = filter p xs" for k xs by (induction xs arbitrary: k) auto
    from this [of 0 "il_all l"] show ?thesis by (simp add: il_enum_def filter_map comp_def case_prod_unfold)
  qed
  have "il_index l i = index_of (\<lambda>c. im_id c = i) (il_all l)" by (rule vl.index_found [OF l])
  moreover have "il_plain l = (\<not> list_ex odd_impact (il_all l))" using vl.plain_found [OF l] by (simp add: list_ex_iff)
  moreover have "n = [] \<or> map (the \<circ> snd) (filter (\<lambda>(j, c). names_node n (the c)) (il_of_node l n)) = filter (names_node n) (il_all l)"
    using vl.of_node_found [OF l, of n] enum [of "names_node n"] by (cases "n = []") simp_all
  moreover have "n = [] \<or> map (the \<circ> snd) (filter (\<lambda>(j, c). im_key (the c) = n) (il_of_key l n)) = filter (\<lambda>c. im_key c = n) (il_all l)"
    using vl.of_key_found [OF l, of n] enum [of "\<lambda>c. im_key c = n"] by (cases "n = []") simp_all
  ultimately show ?thesis unfolding all by blast
qed

theorem view_lookups_exact_witness:
  "\<exists>w. fold_log (new_view ''c'') [(False, 0)] demo_log [] = Some w
    \<and> il_index (indexed_list w) ''i1'' = index_of (\<lambda>c. im_id c = ''i1'') (view_list w)
    \<and> map (the \<circ> snd) (filter (\<lambda>(j, c). names_node ''n'' (the c)) (il_of_node (indexed_list w) ''n'')) = filter (names_node ''n'') (view_list w)
    \<and> map im_id (view_list w) = [''i1''] \<and> map im_id (filter (names_node ''n'') (view_list w)) = [''i1'']"
proof -
  have a: "list_all log_ok demo_log" by code_simp
  have b: "list_all fact_ok []" "length (filter fst [(False, 0 :: int)]) = length ([] :: item list)" by simp_all
  have d: "map_option (\<lambda>w. (map im_id (view_list w), map im_id (filter (names_node ''n'') (view_list w)))) (fold_log (new_view ''c'') [(False, 0)] demo_log [])
    = Some ([''i1''], [''i1''])" by code_simp
  then obtain w where w: "fold_log (new_view ''c'') [(False, 0)] demo_log [] = Some w" "map im_id (view_list w) = [''i1'']"
    "map im_id (filter (names_node ''n'') (view_list w)) = [''i1'']" by auto
  have e: "indexed_list w = foldl il_append (indexed_list w) []" by simp
  show ?thesis using view_lookups_exact [OF a b w(1) e, of "''i1''" "''n''"] w by simp
qed

end
