(* ===== verification/Cow.thy ===== *)
theory Cow
  imports Prelude "HOL-Library.Word"
begin

unbundle bit_operations_syntax

text \<open>
  The containers the copies of a view share until they write: the maps of graph/graph/cowmap.go and the
  log of events of draftcache.go (eventLog), over a store of the arrays and maps they point to. The
  hash of a key, which the runtime seeds, is a parameter.
\<close>

subsection \<open>The store and the handles\<close>

definition cow_shards :: nat where
  "cow_shards = 64"

record 'v store =
  st_maps :: "(string, 'v) gomap list"
  st_arrs :: "nat option list list"

record cow =
  cw_shards :: "nat option"
  cw_n :: int
  cw_idx :: bool
  cw_mine :: "64 word"

definition no_cow :: cow where
  "no_cow = \<lparr>cw_shards = None, cw_n = 0, cw_idx = False, cw_mine = 0\<rparr>"

definition share :: "cow \<Rightarrow> cow" where
  "share m = \<lparr>cw_shards = cw_shards m, cw_n = cw_n m, cw_idx = False, cw_mine = 0\<rparr>"

definition shard_of :: "(string \<Rightarrow> nat) \<Rightarrow> string \<Rightarrow> nat" where
  "shard_of hash k = hash k mod cow_shards"

definition slot :: "'v store \<Rightarrow> cow \<Rightarrow> nat \<Rightarrow> nat option" where
  "slot s m i = (case cw_shards m of None \<Rightarrow> None | Some a \<Rightarrow> st_arrs s ! a ! i)"

definition slot_map :: "'v store \<Rightarrow> nat option \<Rightarrow> (string, 'v) gomap" where
  "slot_map s a = (case a of None \<Rightarrow> [] | Some a \<Rightarrow> st_maps s ! a)"

definition cow_get :: "(string \<Rightarrow> nat) \<Rightarrow> 'v store \<Rightarrow> cow \<Rightarrow> string \<Rightarrow> 'v option" where
  "cow_get hash s m k = (if cw_shards m = None then None else map_of (slot_map s (slot s m (shard_of hash k))) k)"

definition cow_has :: "(string \<Rightarrow> nat) \<Rightarrow> 'v store \<Rightarrow> cow \<Rightarrow> string \<Rightarrow> bool" where
  "cow_has hash s m k \<longleftrightarrow> cow_get hash s m k \<noteq> None"

definition cow_len :: "cow \<Rightarrow> int" where
  "cow_len m = cw_n m"

text \<open>The index of the shards and the shard of a key, made the map's own.\<close>

definition own_index :: "'v store \<Rightarrow> cow \<Rightarrow> 'v store \<times> cow" where
  "own_index s m = (if cw_idx m then (s, m)
     else (s\<lparr>st_arrs := st_arrs s @ [case cw_shards m of None \<Rightarrow> replicate cow_shards None | Some a \<Rightarrow> st_arrs s ! a]\<rparr>,
       m\<lparr>cw_shards := Some (length (st_arrs s)), cw_idx := True, cw_mine := 0\<rparr>))"

definition own_shard :: "'v store \<Rightarrow> cow \<Rightarrow> nat \<Rightarrow> 'v store \<times> cow" where
  "own_shard s m i = (if cw_mine m AND push_bit i 1 = 0
     then let a = the (cw_shards m) in
       (s\<lparr>st_maps := st_maps s @ [slot_map s (st_arrs s ! a ! i)],
          st_arrs := (st_arrs s)[a := (st_arrs s ! a)[i := Some (length (st_maps s))]]\<rparr>,
        m\<lparr>cw_mine := cw_mine m OR push_bit i 1\<rparr>)
     else (s, m))"

definition cow_shard :: "(string \<Rightarrow> nat) \<Rightarrow> 'v store \<Rightarrow> cow \<Rightarrow> string \<Rightarrow> 'v store \<times> cow \<times> nat" where
  "cow_shard hash s m k = (let (s1, m1) = own_index s m; (s2, m2) = own_shard s1 m1 (shard_of hash k)
     in (s2, m2, the (slot s2 m2 (shard_of hash k))))"

definition cow_set :: "(string \<Rightarrow> nat) \<Rightarrow> 'v store \<Rightarrow> cow \<Rightarrow> string \<Rightarrow> 'v \<Rightarrow> 'v store \<times> cow" where
  "cow_set hash s m k v = (let (s1, m1, a) = cow_shard hash s m k;
       m2 = (if map_of (st_maps s1 ! a) k = None then m1\<lparr>cw_n := cw_n m1 + 1\<rparr> else m1)
     in (s1\<lparr>st_maps := (st_maps s1)[a := mput k v (st_maps s1 ! a)]\<rparr>, m2))"

definition cow_del :: "(string \<Rightarrow> nat) \<Rightarrow> 'v store \<Rightarrow> cow \<Rightarrow> string \<Rightarrow> 'v store \<times> cow" where
  "cow_del hash s m k = (if \<not> cow_has hash s m k then (s, m)
     else let (s1, m1, a) = cow_shard hash s m k
       in (s1\<lparr>st_maps := (st_maps s1)[a := mdel k (st_maps s1 ! a)]\<rparr>, m1\<lparr>cw_n := cw_n m1 - 1\<rparr>))"

definition cow_all :: "'v store \<Rightarrow> cow \<Rightarrow> (string \<times> 'v) list" where
  "cow_all s m = (case cw_shards m of None \<Rightarrow> [] | Some a \<Rightarrow> concat (map (slot_map s) (st_arrs s ! a)))"

subsection \<open>The copies of a view\<close>

text \<open>
  The handles of the copies, each with whether it may still be written: a copy is made of a handle
  that is written no more. An operation that the discipline does not allow is None.
\<close>

record 'v copies =
  cp_store :: "'v store"
  cp_handles :: "cow list"
  cp_frozen :: "nat set"

datatype 'v cow_op = Share nat | SetKey nat string 'v | DelKey nat string

definition one_cow :: "'v copies" where
  "one_cow = \<lparr>cp_store = \<lparr>st_maps = [], st_arrs = []\<rparr>, cp_handles = [no_cow], cp_frozen = {}\<rparr>"

definition written :: "'v copies \<Rightarrow> nat \<Rightarrow> 'v store \<times> cow \<Rightarrow> 'v copies" where
  "written c p r = c\<lparr>cp_store := fst r, cp_handles := (cp_handles c)[p := snd r]\<rparr>"

fun cow_step :: "(string \<Rightarrow> nat) \<Rightarrow> 'v copies \<Rightarrow> 'v cow_op \<Rightarrow> 'v copies option" where
  "cow_step hash c (Share p) = (if p < length (cp_handles c)
     then Some (c\<lparr>cp_handles := cp_handles c @ [share (cp_handles c ! p)], cp_frozen := insert p (cp_frozen c)\<rparr>) else None)"
| "cow_step hash c (SetKey p k v) = (if p < length (cp_handles c) \<and> p \<notin> cp_frozen c
     then Some (written c p (cow_set hash (cp_store c) (cp_handles c ! p) k v)) else None)"
| "cow_step hash c (DelKey p k) = (if p < length (cp_handles c) \<and> p \<notin> cp_frozen c
     then Some (written c p (cow_del hash (cp_store c) (cp_handles c ! p) k)) else None)"

fun cow_steps :: "(string \<Rightarrow> nat) \<Rightarrow> 'v copies \<Rightarrow> 'v cow_op list \<Rightarrow> 'v copies option" where
  "cow_steps hash c [] = Some c"
| "cow_steps hash c (x # xs) = (case cow_step hash c x of None \<Rightarrow> None | Some c1 \<Rightarrow> cow_steps hash c1 xs)"

text \<open>What the copies stand for: a map each, of their own.\<close>

fun map_step :: "(string \<Rightarrow> 'v option) list \<Rightarrow> 'v cow_op \<Rightarrow> (string \<Rightarrow> 'v option) list" where
  "map_step ms (Share p) = ms @ [ms ! p]"
| "map_step ms (SetKey p k v) = ms[p := (ms ! p)(k \<mapsto> v)]"
| "map_step ms (DelKey p k) = ms[p := (ms ! p)(k := None)]"

definition cow_ok :: "(string \<Rightarrow> nat) \<Rightarrow> 'v store \<Rightarrow> cow list \<Rightarrow> nat set \<Rightarrow> bool" where
  "cow_ok hash s hs fz \<longleftrightarrow>
     (\<forall>p < length hs. \<forall>a. cw_shards (hs ! p) = Some a \<longrightarrow> a < length (st_arrs s) \<and> length (st_arrs s ! a) = cow_shards)
   \<and> (\<forall>p < length hs. \<forall>i < cow_shards. \<forall>a. slot s (hs ! p) i = Some a \<longrightarrow> a < length (st_maps s)
        \<and> distinct (map fst (st_maps s ! a)) \<and> (\<forall>k \<in> dom (map_of (st_maps s ! a)). shard_of hash k = i))
   \<and> (\<forall>p < length hs. p \<notin> fz \<and> cw_idx (hs ! p) \<longrightarrow> (\<exists>a. cw_shards (hs ! p) = Some a
        \<and> (\<forall>q < length hs. q \<noteq> p \<longrightarrow> cw_shards (hs ! q) \<noteq> Some a)))
   \<and> (\<forall>p < length hs. \<forall>i < cow_shards. p \<notin> fz \<and> cw_idx (hs ! p) \<and> bit (cw_mine (hs ! p)) i
        \<longrightarrow> (\<exists>a. slot s (hs ! p) i = Some a \<and> (\<forall>q < length hs. \<forall>j < cow_shards. (q, j) \<noteq> (p, i) \<longrightarrow> slot s (hs ! q) j \<noteq> Some a)))"

definition counts_ok :: "(string \<Rightarrow> nat) \<Rightarrow> 'v store \<Rightarrow> cow list \<Rightarrow> bool" where
  "counts_ok hash s hs \<longleftrightarrow> (\<forall>p < length hs. cw_n (hs ! p) = int (card (dom (cow_get hash s (hs ! p)))))"

lemma shard_of_less [simp]: "shard_of hash k < cow_shards"
  by (simp add: shard_of_def cow_shards_def)

lemma bit_one_at: "i < cow_shards \<Longrightarrow> bit (push_bit i (1 :: 64 word)) j \<longleftrightarrow> j = i"
  by (auto simp: cow_shards_def bit_exp_iff)

lemma mine_bit:
  assumes "i < cow_shards"
  shows "(w :: 64 word) AND push_bit i 1 = 0 \<longleftrightarrow> \<not> bit w i"
proof
  assume "w AND push_bit i 1 = 0"
  then have "\<not> bit (w AND push_bit i 1) i" by simp
  then show "\<not> bit w i" using bit_one_at [OF assms] by (simp add: bit_and_iff)
next
  assume "\<not> bit w i"
  then show "w AND push_bit i 1 = 0" using bit_one_at [OF assms] by (intro bit_eqI) (auto simp: bit_and_iff)
qed

lemma mine_set: "i < cow_shards \<Longrightarrow> bit ((w :: 64 word) OR push_bit i 1) j \<longleftrightarrow> bit w j \<or> j = i"
  using bit_one_at by (simp add: bit_or_iff)

text \<open>An array or a map of the store is reached by a handle through its index of shards.\<close>

lemma slot_None [simp]: "cw_shards m = None \<Longrightarrow> slot s m i = None"
  by (simp add: slot_def)

lemma get_slot: "cow_get hash s m k = map_of (slot_map s (slot s m (shard_of hash k))) k"
  by (simp add: cow_get_def slot_map_def)

lemma get_cong: "(\<And>i. i < cow_shards \<Longrightarrow> slot_map s (slot s m i) = slot_map s' (slot s' m' i)) \<Longrightarrow> cow_get hash s m = cow_get hash s' m'"
  by (rule ext) (simp add: get_slot)


lemma okD:
  assumes "cow_ok hash s hs fz" and "p < length hs"
  shows "cw_shards (hs ! p) = Some a \<Longrightarrow> a < length (st_arrs s) \<and> length (st_arrs s ! a) = cow_shards"
    and "i < cow_shards \<Longrightarrow> slot s (hs ! p) i = Some b \<Longrightarrow> b < length (st_maps s) \<and> distinct (map fst (st_maps s ! b))
      \<and> (\<forall>k \<in> dom (map_of (st_maps s ! b)). shard_of hash k = i)"
    and "p \<notin> fz \<Longrightarrow> cw_idx (hs ! p) \<Longrightarrow> \<exists>a. cw_shards (hs ! p) = Some a \<and> (\<forall>q < length hs. q \<noteq> p \<longrightarrow> cw_shards (hs ! q) \<noteq> Some a)"
    and "p \<notin> fz \<Longrightarrow> cw_idx (hs ! p) \<Longrightarrow> i < cow_shards \<Longrightarrow> bit (cw_mine (hs ! p)) i
      \<Longrightarrow> \<exists>a. slot s (hs ! p) i = Some a \<and> (\<forall>q < length hs. \<forall>j < cow_shards. (q, j) \<noteq> (p, i) \<longrightarrow> slot s (hs ! q) j \<noteq> Some a)"
  using assms unfolding cow_ok_def by blast+

text \<open>A handle takes its index of shards: nothing it or another reads changes.\<close>

lemma own_index_ok:
  assumes "cow_ok hash s hs fz" and "p < length hs" and "p \<notin> fz" and "own_index s (hs ! p) = (s1, m1)"
  shows "cow_ok hash s1 (hs[p := m1]) fz \<and> cw_idx m1 \<and> cw_n m1 = cw_n (hs ! p) \<and> st_maps s1 = st_maps s
    \<and> (\<forall>q < length hs. \<forall>i < cow_shards. slot s1 (hs[p := m1] ! q) i = slot s (hs ! q) i)"
proof (cases "cw_idx (hs ! p)")
  case True
  then have "s1 = s" "m1 = hs ! p" using assms(4) by (simp_all add: own_index_def)
  then show ?thesis using assms(1) True by (simp only: list_update_id) simp
next
  case False
  let ?m = "hs ! p"
  let ?x = "case cw_shards ?m of None \<Rightarrow> replicate cow_shards None | Some a \<Rightarrow> st_arrs s ! a"
  have s1: "st_arrs s1 = st_arrs s @ [?x]" "st_maps s1 = st_maps s" "m1 = ?m\<lparr>cw_shards := Some (length (st_arrs s)), cw_idx := True, cw_mine := 0\<rparr>"
    using assms(4) False by (auto simp: own_index_def)
  have x: "length ?x = cow_shards" using okD(1) [OF assms(1,2)] by (auto split: option.split)
  have slots: "slot s1 (hs[p := m1] ! q) i = slot s (hs ! q) i" if q: "q < length hs" "i < cow_shards" for q i
  proof (cases "q = p")
    case True
    then show ?thesis using q s1 by (auto simp: slot_def nth_append split: option.split)
  next
    case False
    then show ?thesis using q s1 okD(1) [OF assms(1) q(1)] by (auto simp: slot_def nth_append split: option.split)
  qed
  have "cow_ok hash s1 (hs[p := m1]) fz"
    unfolding cow_ok_def
  proof (intro conjI allI impI ballI)
    fix q a assume q: "q < length (hs[p := m1])" "cw_shards (hs[p := m1] ! q) = Some a"
    have "a < length (st_arrs s1) \<and> length (st_arrs s1 ! a) = cow_shards"
    proof (cases "q = p")
      case True
      then have "a = length (st_arrs s)" using q s1(3) by simp
      then show ?thesis using s1(1) x by simp
    next
      case False
      then show ?thesis using q s1(1) okD(1) [OF assms(1), of q a] by (simp add: nth_append)
    qed
    then show "a < length (st_arrs s1)" "length (st_arrs s1 ! a) = cow_shards" by simp_all
  next
    fix q i a assume q: "q < length (hs[p := m1])" "i < cow_shards" "slot s1 (hs[p := m1] ! q) i = Some a"
    then have "slot s (hs ! q) i = Some a" using slots by simp
    from okD(2) [OF assms(1) _ q(2) this] q(1)
    show "a < length (st_maps s1)" "distinct (map fst (st_maps s1 ! a))" by (simp_all add: s1)
    fix k assume "k \<in> dom (map_of (st_maps s1 ! a))"
    then show "shard_of hash k = i" using okD(2) [OF assms(1) _ q(2) \<open>slot s (hs ! q) i = Some a\<close>] q(1) by (simp add: s1)
  next
    fix q assume q: "q < length (hs[p := m1])" "q \<notin> fz \<and> cw_idx (hs[p := m1] ! q)"
    show "\<exists>a. cw_shards (hs[p := m1] ! q) = Some a \<and> (\<forall>r < length (hs[p := m1]). r \<noteq> q \<longrightarrow> cw_shards (hs[p := m1] ! r) \<noteq> Some a)"
    proof (cases "q = p")
      case True
      have "cw_shards (hs ! r) \<noteq> Some (length (st_arrs s))" if "r < length hs" for r using okD(1) [OF assms(1) that] by auto
      then show ?thesis using True q(1) s1(3) by auto
    next
      case False
      obtain a where a: "cw_shards (hs ! q) = Some a" "\<forall>r < length hs. r \<noteq> q \<longrightarrow> cw_shards (hs ! r) \<noteq> Some a"
        using okD(3) [OF assms(1), of q] q False by auto
      have "a \<noteq> length (st_arrs s)" using okD(1) [OF assms(1) _ a(1)] q(1) by auto
      then have "cw_shards (hs[p := m1] ! r) \<noteq> Some a" if "r < length hs" "r \<noteq> q" for r
        using a(2) that s1(3) by (cases "r = p") simp_all
      then show ?thesis using a(1) False q(1) by (intro exI [of _ a]) simp
    qed
  next
    fix q i assume q: "q < length (hs[p := m1])" "i < cow_shards" "q \<notin> fz \<and> cw_idx (hs[p := m1] ! q) \<and> bit (cw_mine (hs[p := m1] ! q)) i"
    then have ne: "q \<noteq> p" using s1(3) by auto
    obtain a where a: "slot s (hs ! q) i = Some a" "\<forall>r < length hs. \<forall>j < cow_shards. (r, j) \<noteq> (q, i) \<longrightarrow> slot s (hs ! r) j \<noteq> Some a"
      using okD(4) [OF assms(1), of q i] q ne by auto
    then show "\<exists>a. slot s1 (hs[p := m1] ! q) i = Some a \<and> (\<forall>r < length (hs[p := m1]). \<forall>j < cow_shards. (r, j) \<noteq> (q, i) \<longrightarrow> slot s1 (hs[p := m1] ! r) j \<noteq> Some a)"
      using slots q(1,2) by (intro exI [of _ a]) simp
  qed
  then show ?thesis using slots s1 by simp
qed

text \<open>The shard of an index it owns becomes its own, with what it held.\<close>

lemma own_shard_ok:
  assumes "cow_ok hash s hs fz" and "p < length hs" and "p \<notin> fz" and "cw_idx (hs ! p)" and "i < cow_shards"
    and "own_shard s (hs ! p) i = (s1, m1)"
  shows "cow_ok hash s1 (hs[p := m1]) fz \<and> cw_idx m1 \<and> bit (cw_mine m1) i \<and> cw_n m1 = cw_n (hs ! p)
    \<and> (\<forall>q < length hs. \<forall>j < cow_shards. slot_map s1 (slot s1 (hs[p := m1] ! q) j) = slot_map s (slot s (hs ! q) j))"
proof (cases "bit (cw_mine (hs ! p)) i")
  case True
  then have "s1 = s" "m1 = hs ! p" using assms(5,6) mine_bit [OF assms(5)] by (simp_all add: own_shard_def)
  then show ?thesis using assms(1,4) True by (simp only: list_update_id) simp
next
  case False
  let ?m = "hs ! p"
  obtain a where a: "cw_shards ?m = Some a" "\<forall>q < length hs. q \<noteq> p \<longrightarrow> cw_shards (hs ! q) \<noteq> Some a"
    using okD(3) [OF assms(1-4)] by blast
  define new where "new = slot_map s (st_arrs s ! a ! i)"
  have s1: "st_maps s1 = st_maps s @ [new]" "st_arrs s1 = (st_arrs s)[a := (st_arrs s ! a)[i := Some (length (st_maps s))]]"
    "m1 = ?m\<lparr>cw_mine := cw_mine ?m OR push_bit i 1\<rparr>"
    using assms(6) False a(1) mine_bit [OF assms(5), of "cw_mine ?m"] by (auto simp: own_shard_def Let_def new_def)
  have al: "a < length (st_arrs s)" "length (st_arrs s ! a) = cow_shards" using okD(1) [OF assms(1,2) a(1)] by simp_all
  have sh: "cw_shards (hs[p := m1] ! q) = cw_shards (hs ! q)" for q using s1(3) assms(2) by (cases "q = p") auto
  have slots: "slot s1 (hs[p := m1] ! q) j = (if q = p \<and> j = i then Some (length (st_maps s)) else slot s (hs ! q) j)"
    if "q < length hs" "j < cow_shards" for q j
  proof (cases "q = p")
    case True
    then show ?thesis using al a(1) that s1(2,3) by (simp add: slot_def)
  next
    case False
    have "b \<noteq> a" if "cw_shards (hs ! q) = Some b" for b using a(2) that \<open>q < length hs\<close> False by auto
    then show ?thesis using False s1(2) by (auto simp: slot_def sh split: option.split)
  qed
  have lt: "b < length (st_maps s)" if "q < length hs" "j < cow_shards" "slot s (hs ! q) j = Some b" for q j b
    using okD(2) [OF assms(1) that] by simp
  have new: "distinct (map fst new) \<and> (\<forall>k \<in> dom (map_of new). shard_of hash k = i)"
  proof (cases "slot s ?m i")
    case None
    then show ?thesis using a(1) by (simp add: new_def slot_map_def slot_def)
  next
    case (Some b)
    then show ?thesis using okD(2) [OF assms(1,2,5) Some] a(1) by (simp add: new_def slot_map_def slot_def)
  qed
  have same: "slot_map s1 (slot s1 (hs[p := m1] ! q) j) = slot_map s (slot s (hs ! q) j)" if q: "q < length hs" "j < cow_shards" for q j
  proof (cases "q = p \<and> j = i")
    case True
    then show ?thesis using slots [OF q] s1(1) a(1) by (simp add: slot_map_def new_def slot_def)
  next
    case False
    then show ?thesis using slots [OF q] s1(1) lt [OF q] by (auto simp: slot_map_def nth_append split: option.split)
  qed
  have "cow_ok hash s1 (hs[p := m1]) fz"
    unfolding cow_ok_def
  proof (intro conjI allI impI ballI)
    fix q b assume q: "q < length (hs[p := m1])" "cw_shards (hs[p := m1] ! q) = Some b"
    show "b < length (st_arrs s1)" "length (st_arrs s1 ! b) = cow_shards"
      using q s1(2) al okD(1) [OF assms(1), of q b] by (auto simp: sh nth_list_update)
  next
    fix q j b assume q: "q < length (hs[p := m1])" "j < cow_shards" "slot s1 (hs[p := m1] ! q) j = Some b"
    have *: "b < length (st_maps s1) \<and> distinct (map fst (st_maps s1 ! b)) \<and> (\<forall>k \<in> dom (map_of (st_maps s1 ! b)). shard_of hash k = j)"
    proof (cases "q = p \<and> j = i")
      case True
      then show ?thesis using slots [of q j] q new s1(1) assms(5) by auto
    next
      case False
      then have "slot s (hs ! q) j = Some b" using slots [of q j] q by auto
      from okD(2) [OF assms(1) _ q(2) this] show ?thesis using q(1) s1(1) by (simp add: nth_append)
    qed
    then show "b < length (st_maps s1)" "distinct (map fst (st_maps s1 ! b))" by simp_all
    fix k assume "k \<in> dom (map_of (st_maps s1 ! b))"
    then show "shard_of hash k = j" using * by blast
  next
    fix q assume q: "q < length (hs[p := m1])" "q \<notin> fz \<and> cw_idx (hs[p := m1] ! q)"
    then have "cw_idx (hs ! q)" using s1(3) assms(4) by (cases "q = p") auto
    then show "\<exists>b. cw_shards (hs[p := m1] ! q) = Some b \<and> (\<forall>r < length (hs[p := m1]). r \<noteq> q \<longrightarrow> cw_shards (hs[p := m1] ! r) \<noteq> Some b)"
      using okD(3) [OF assms(1), of q] q by (simp add: sh)
  next
    fix q j assume q: "q < length (hs[p := m1])" "j < cow_shards" "q \<notin> fz \<and> cw_idx (hs[p := m1] ! q) \<and> bit (cw_mine (hs[p := m1] ! q)) j"
    show "\<exists>b. slot s1 (hs[p := m1] ! q) j = Some b \<and> (\<forall>r < length (hs[p := m1]). \<forall>l < cow_shards. (r, l) \<noteq> (q, j) \<longrightarrow> slot s1 (hs[p := m1] ! r) l \<noteq> Some b)"
    proof (cases "q = p \<and> j = i")
      case True
      have "slot s1 (hs[p := m1] ! r) l \<noteq> Some (length (st_maps s))" if "r < length hs" "l < cow_shards" "(r, l) \<noteq> (q, j)" for r l
        using slots [OF that(1,2)] that(3) True lt [OF that(1,2)] by auto
      then show ?thesis using slots [of q j] q(1,2) True by auto
    next
      case False
      have "cw_idx (hs ! q) \<and> bit (cw_mine (hs ! q)) j"
        using q s1(3) False mine_set [OF assms(5), of "cw_mine ?m" j] assms(4) by (cases "q = p") auto
      then obtain b where b: "slot s (hs ! q) j = Some b" "\<forall>r < length hs. \<forall>l < cow_shards. (r, l) \<noteq> (q, j) \<longrightarrow> slot s (hs ! r) l \<noteq> Some b"
        using okD(4) [OF assms(1), of q j] q by auto
      have "b < length (st_maps s)" using lt [of q j b] q b(1) by simp
      then have "slot s1 (hs[p := m1] ! r) l \<noteq> Some b" if "r < length hs" "l < cow_shards" "(r, l) \<noteq> (q, j)" for r l
        using slots [OF that(1,2)] b(2) that by auto
      then show ?thesis using slots [of q j] q(1,2) False b(1) by auto
    qed
  qed
  then show ?thesis using same s1(3) assms(4) mine_set [OF assms(5), of "cw_mine ?m" i] by simp
qed

text \<open>A write to the map of a shard it owns is seen by no other handle.\<close>

lemma write_shard_ok:
  assumes "cow_ok hash s hs fz" and "p < length hs" and "p \<notin> fz" and "cw_idx (hs ! p)" and "bit (cw_mine (hs ! p)) (shard_of hash k)"
    and "a = the (slot s (hs ! p) (shard_of hash k))" and "distinct (map fst g)" and "\<And>j. j \<noteq> k \<Longrightarrow> map_of g j = map_of (st_maps s ! a) j"
    and "s1 = s\<lparr>st_maps := (st_maps s)[a := g]\<rparr>" and "m1 = (hs ! p)\<lparr>cw_n := n\<rparr>"
  shows "cow_ok hash s1 (hs[p := m1]) fz
    \<and> (\<forall>q < length hs. cow_get hash s1 (hs[p := m1] ! q) = (if q = p then (cow_get hash s (hs ! p))(k := map_of g k) else cow_get hash s (hs ! q)))"
proof -
  let ?i = "shard_of hash k"
  have a: "slot s (hs ! p) ?i = Some a" "\<forall>q < length hs. \<forall>j < cow_shards. (q, j) \<noteq> (p, ?i) \<longrightarrow> slot s (hs ! q) j \<noteq> Some a"
    using okD(4) [OF assms(1-4) shard_of_less assms(5)] assms(6) by auto
  have al: "a < length (st_maps s)" "distinct (map fst (st_maps s ! a))" "\<forall>k \<in> dom (map_of (st_maps s ! a)). shard_of hash k = ?i"
    using okD(2) [OF assms(1,2) shard_of_less a(1)] by simp_all
  have h: "cw_shards (hs[p := m1] ! q) = cw_shards (hs ! q)" "cw_idx (hs[p := m1] ! q) = cw_idx (hs ! q)" "cw_mine (hs[p := m1] ! q) = cw_mine (hs ! q)" for q
    using assms(2,10) by (cases "q = p"; simp)+
  have sl: "slot s1 (hs[p := m1] ! q) j = slot s (hs ! q) j" for q j by (simp add: slot_def h assms(9) split: option.split)
  have mp: "st_maps s1 = (st_maps s)[a := g]" using assms(9) by simp
  have dg: "\<forall>j \<in> dom (map_of g). shard_of hash j = ?i"
  proof
    fix j assume "j \<in> dom (map_of g)"
    then have "j \<noteq> k \<Longrightarrow> j \<in> dom (map_of (st_maps s ! a))" using assms(8) [of j] by (simp add: domIff)
    then show "shard_of hash j = ?i" using al(3) by (cases "j = k") auto
  qed
  have "cow_ok hash s1 (hs[p := m1]) fz"
    unfolding cow_ok_def h sl
  proof (intro conjI allI impI ballI)
    fix q b assume "q < length (hs[p := m1])" "cw_shards (hs ! q) = Some b"
    then show "b < length (st_arrs s1)" "length (st_arrs s1 ! b) = cow_shards"
      using okD(1) [OF assms(1), of q b] assms(9) by simp_all
  next
    fix q j b assume q: "q < length (hs[p := m1])" "j < cow_shards" "slot s (hs ! q) j = Some b"
    have *: "b < length (st_maps s) \<and> distinct (map fst (st_maps s ! b)) \<and> (\<forall>k \<in> dom (map_of (st_maps s ! b)). shard_of hash k = j)"
      using okD(2) [OF assms(1) _ q(2,3)] q(1) by simp
    have **: "b < length (st_maps s1) \<and> distinct (map fst (st_maps s1 ! b)) \<and> (\<forall>k \<in> dom (map_of (st_maps s1 ! b)). shard_of hash k = j)"
    proof (cases "b = a")
      case True
      then have "j = ?i" using a(2) q by auto
      then show ?thesis using True dg assms(7,9) al(1) by simp
    next
      case False
      then show ?thesis using * assms(9) by simp
    qed
    then show "b < length (st_maps s1)" "distinct (map fst (st_maps s1 ! b))" by simp_all
    fix l assume "l \<in> dom (map_of (st_maps s1 ! b))"
    then show "shard_of hash l = j" using ** by blast
  next
    fix q assume "q < length (hs[p := m1])" "q \<notin> fz \<and> cw_idx (hs ! q)"
    then show "\<exists>b. cw_shards (hs ! q) = Some b \<and> (\<forall>r < length (hs[p := m1]). r \<noteq> q \<longrightarrow> cw_shards (hs ! r) \<noteq> Some b)"
      using okD(3) [OF assms(1), of q] by simp
  next
    fix q j assume "q < length (hs[p := m1])" "j < cow_shards" "q \<notin> fz \<and> cw_idx (hs ! q) \<and> bit (cw_mine (hs ! q)) j"
    then show "\<exists>b. slot s (hs ! q) j = Some b \<and> (\<forall>r < length (hs[p := m1]). \<forall>l < cow_shards. (r, l) \<noteq> (q, j) \<longrightarrow> slot s (hs ! r) l \<noteq> Some b)"
      using okD(4) [OF assms(1), of q j] by simp
  qed
  moreover have "cow_get hash s1 (hs[p := m1] ! q) = (if q = p then (cow_get hash s (hs ! p))(k := map_of g k) else cow_get hash s (hs ! q))"
    if q: "q < length hs" for q
  proof (rule ext)
    fix j
    let ?j = "shard_of hash j"
    show "cow_get hash s1 (hs[p := m1] ! q) j = (if q = p then (cow_get hash s (hs ! p))(k := map_of g k) else cow_get hash s (hs ! q)) j"
    proof (cases "q = p \<and> ?j = ?i")
      case True
      then have "cow_get hash s1 (hs[p := m1] ! q) j = map_of g j" "cow_get hash s (hs ! p) j = map_of (st_maps s ! a) j"
        using a(1) al(1) mp by (simp_all add: get_slot sl slot_map_def)
      then show ?thesis using assms(8) [of j] True by simp
    next
      case False
      then have "slot s (hs ! q) ?j \<noteq> Some a" using a(2) q by auto
      then have "slot_map s1 (slot s (hs ! q) ?j) = slot_map s (slot s (hs ! q) ?j)" using mp by (auto simp: slot_map_def split: option.split)
      then show ?thesis using False by (auto simp: get_slot sl)
    qed
  qed
  ultimately show ?thesis by blast
qed

text \<open>The shard a write goes to, of a handle that may be written.\<close>

lemma cow_shard_ok:
  assumes "cow_ok hash s hs fz" and "p < length hs" and "p \<notin> fz" and "cow_shard hash s (hs ! p) k = (s1, m1, a)"
  shows "cow_ok hash s1 (hs[p := m1]) fz \<and> cw_idx m1 \<and> bit (cw_mine m1) (shard_of hash k) \<and> cw_n m1 = cw_n (hs ! p)
    \<and> a = the (slot s1 m1 (shard_of hash k)) \<and> (\<forall>q < length hs. cow_get hash s1 (hs[p := m1] ! q) = cow_get hash s (hs ! q))"
proof -
  obtain s0 m0 where i: "own_index s (hs ! p) = (s0, m0)" by fastforce
  let ?hs = "hs[p := m0]"
  note I = own_index_ok [OF assms(1-3) i]
  have o': "own_shard s0 (?hs ! p) (shard_of hash k) = (s1, m1)" and a: "a = the (slot s1 m1 (shard_of hash k))"
    using assms(2,4) i by (auto simp: cow_shard_def Let_def split: prod.splits)
  have p: "p < length ?hs" "cw_idx (?hs ! p)" using assms(2) I by simp_all
  have ok0: "cow_ok hash s0 ?hs fz" using I by blast
  note S = own_shard_ok [OF ok0 p(1) assms(3) p(2) shard_of_less o']
  have "cow_get hash s1 (hs[p := m1] ! q) = cow_get hash s (hs ! q)" if q: "q < length hs" for q
  proof -
    have "cow_get hash s1 (hs[p := m1] ! q) = cow_get hash s0 (?hs ! q)" by (rule get_cong) (use S q in simp)
    also have "\<dots> = cow_get hash s (hs ! q)" by (rule get_cong) (use I q in \<open>simp add: slot_map_def split: option.split\<close>)
    finally show ?thesis .
  qed
  then show ?thesis using S I a assms(2) by simp
qed

lemma card_write:
  assumes "finite (dom m)"
  shows "int (card (dom (m(k := v)))) = int (card (dom m)) + (if v = None then 0 else 1) - (if m k = None then 0 else 1)"
proof (cases "m k")
  case None
  then have "k \<notin> dom m" "dom (m(k := v)) = (if v = None then dom m else insert k (dom m))" by auto
  then show ?thesis using None assms by (simp del: dom_fun_upd)
next
  case (Some x)
  then have "k \<in> dom m" "dom (m(k := v)) = (if v = None then dom m - {k} else dom m)" by auto
  moreover from this have "0 < card (dom m)" using assms by (auto simp: card_gt_0_iff)
  ultimately show ?thesis using Some assms by (simp del: dom_fun_upd add: of_nat_diff)
qed

lemma write_ok:
  assumes "cow_ok hash s hs fz" and "counts_ok hash s hs" and "p < length hs" and "p \<notin> fz" and "cow_shard hash s (hs ! p) k = (s1, m1, a)"
    and "distinct (map fst (st_maps s1 ! a)) \<Longrightarrow> distinct (map fst g)" and "\<And>j. j \<noteq> k \<Longrightarrow> map_of g j = map_of (st_maps s1 ! a) j"
    and "n = cw_n m1 + (if map_of g k = None then 0 else 1) - (if map_of (st_maps s1 ! a) k = None then 0 else 1)"
    and "s2 = s1\<lparr>st_maps := (st_maps s1)[a := g]\<rparr>" and "m2 = m1\<lparr>cw_n := n\<rparr>"
  shows "cow_ok hash s2 (hs[p := m2]) fz \<and> counts_ok hash s2 (hs[p := m2])
    \<and> map (cow_get hash s2) (hs[p := m2]) = (map (cow_get hash s) hs)[p := (cow_get hash s (hs ! p))(k := map_of g k)]"
proof -
  let ?hs = "hs[p := m1]"
  note C = cow_shard_ok [OF assms(1,3,4,5)]
  have c: "cow_ok hash s1 ?hs fz" "p < length ?hs" "cw_idx (?hs ! p)" "bit (cw_mine (?hs ! p)) (shard_of hash k)"
    "a = the (slot s1 (?hs ! p) (shard_of hash k))" using C assms(3) by simp_all
  obtain b where b: "slot s1 (?hs ! p) (shard_of hash k) = Some b" using okD(4) [OF c(1,2) assms(4) c(3) shard_of_less c(4)] by blast
  then have ab: "slot s1 (?hs ! p) (shard_of hash k) = Some a" using c(5) by simp
  have d: "distinct (map fst g)" using okD(2) [OF c(1,2) shard_of_less ab] assms(6) by simp
  have m2: "m2 = (?hs ! p)\<lparr>cw_n := n\<rparr>" using assms(3,10) by simp
  note W = write_shard_ok [OF c(1,2) assms(4) c(3,4,5) d assms(7,9) m2]
  have hs: "?hs[p := m2] = hs[p := m2]" by simp
  have gets: "cow_get hash s2 (hs[p := m2] ! q) = (if q = p then (cow_get hash s (hs ! p))(k := map_of g k) else cow_get hash s (hs ! q))"
    if "q < length hs" for q
  proof -
    have e: "cow_get hash s1 (?hs ! r) = cow_get hash s (hs ! r)" if "r < length hs" for r using C that by blast
    have "cow_get hash s2 (hs[p := m2] ! q) = (if q = p then (cow_get hash s1 (?hs ! p))(k := map_of g k) else cow_get hash s1 (?hs ! q))"
      using W that unfolding hs by simp
    then show ?thesis unfolding e [OF assms(3)] e [OF that] .
  qed
  have old: "cow_get hash s (hs ! p) k = map_of (st_maps s1 ! a) k"
  proof -
    have "cow_get hash s1 (?hs ! p) = cow_get hash s (hs ! p)" using C assms(3) by blast
    then have "cow_get hash s (hs ! p) k = cow_get hash s1 (?hs ! p) k" by simp
    then show ?thesis using ab by (simp add: get_slot slot_map_def)
  qed
  have fin: "finite (dom (cow_get hash s (hs ! p)))"
  proof -
    have "dom (cow_get hash s (hs ! p)) \<subseteq> (\<Union>i < cow_shards. dom (map_of (slot_map s (slot s (hs ! p) i))))"
      by (auto simp: get_slot intro!: bexI [of _ "shard_of hash _"])
    then show ?thesis by (rule finite_subset) (simp add: finite_dom_map_of)
  qed
  have "cw_n (hs ! p) = int (card (dom (cow_get hash s (hs ! p))))" using assms(2,3) by (simp add: counts_ok_def)
  then have n: "n = int (card (dom ((cow_get hash s (hs ! p))(k := map_of g k))))"
    using assms(8) C old card_write [OF fin, of k "map_of g k"] by simp
  have "counts_ok hash s2 (hs[p := m2])"
    unfolding counts_ok_def
  proof (intro allI impI)
    fix q assume q: "q < length (hs[p := m2])"
    show "cw_n (hs[p := m2] ! q) = int (card (dom (cow_get hash s2 (hs[p := m2] ! q))))"
    proof (cases "q = p")
      case True
      then show ?thesis using gets [of q] q n assms(10) by simp
    next
      case False
      then show ?thesis using gets [of q] q assms(2) by (simp add: counts_ok_def)
    qed
  qed
  moreover have "map (cow_get hash s2) (hs[p := m2]) = (map (cow_get hash s) hs)[p := (cow_get hash s (hs ! p))(k := map_of g k)]"
    by (rule nth_equalityI) (use gets assms(3) in \<open>auto simp: nth_list_update\<close>)
  ultimately show ?thesis using W unfolding hs by blast
qed

subsection \<open>A property of the copies\<close>

lemma map_write: "p < length hs \<Longrightarrow> map f hs = ms \<Longrightarrow> f (hs ! p) = ms ! p"
  by auto

lemma cow_step_ok:
  assumes "cow_ok hash (cp_store c) (cp_handles c) (cp_frozen c)" and "counts_ok hash (cp_store c) (cp_handles c)" and "cow_step hash c x = Some c'"
  shows "cow_ok hash (cp_store c') (cp_handles c') (cp_frozen c') \<and> counts_ok hash (cp_store c') (cp_handles c')
    \<and> map (cow_get hash (cp_store c')) (cp_handles c') = map_step (map (cow_get hash (cp_store c)) (cp_handles c)) x"
proof (cases x)
  case (Share p)
  let ?hs = "cp_handles c" and ?s = "cp_store c"
  have p: "p < length ?hs" and c': "c' = c\<lparr>cp_handles := ?hs @ [share (?hs ! p)], cp_frozen := insert p (cp_frozen c)\<rparr>"
    using assms(3) Share by (auto split: if_splits)
  have sl: "slot ?s (share m) = slot ?s m" for m by (simp add: slot_def share_def fun_eq_iff)
  have g: "cow_get hash ?s (share m) = cow_get hash ?s m" for m by (simp add: fun_eq_iff get_slot sl)
  have at: "(?hs @ [share (?hs ! p)]) ! q = (if q < length ?hs then ?hs ! q else share (?hs ! p))" if "q < Suc (length ?hs)" for q
    using that by (auto simp: nth_append less_Suc_eq)
  have "cow_ok hash ?s (?hs @ [share (?hs ! p)]) (insert p (cp_frozen c))"
    unfolding cow_ok_def
  proof (intro conjI allI impI ballI)
    fix q a assume q: "q < length (?hs @ [share (?hs ! p)])" "cw_shards ((?hs @ [share (?hs ! p)]) ! q) = Some a"
    then show "a < length (st_arrs ?s)" "length (st_arrs ?s ! a) = cow_shards"
      using okD(1) [OF assms(1), of q a] okD(1) [OF assms(1) p, of a] at [of q] by (auto simp: share_def split: if_splits)
  next
    fix q i a assume q: "q < length (?hs @ [share (?hs ! p)])" "i < cow_shards" "slot ?s ((?hs @ [share (?hs ! p)]) ! q) i = Some a"
    have *: "a < length (st_maps ?s) \<and> distinct (map fst (st_maps ?s ! a)) \<and> (\<forall>k \<in> dom (map_of (st_maps ?s ! a)). shard_of hash k = i)"
      using okD(2) [OF assms(1) _ q(2), of q a] okD(2) [OF assms(1) p q(2), of a] q at [of q] by (auto simp: sl split: if_splits)
    then show "a < length (st_maps ?s)" "distinct (map fst (st_maps ?s ! a))" by simp_all
    fix k assume "k \<in> dom (map_of (st_maps ?s ! a))"
    then show "shard_of hash k = i" using * by blast
  next
    fix q assume q: "q < length (?hs @ [share (?hs ! p)])" "q \<notin> insert p (cp_frozen c) \<and> cw_idx ((?hs @ [share (?hs ! p)]) ! q)"
    then have l: "q < length ?hs" "q \<noteq> p" "q \<notin> cp_frozen c" "cw_idx (?hs ! q)" using at [of q] by (auto simp: share_def split: if_splits)
    obtain a where a: "cw_shards (?hs ! q) = Some a" "\<forall>r < length ?hs. r \<noteq> q \<longrightarrow> cw_shards (?hs ! r) \<noteq> Some a"
      using okD(3) [OF assms(1) l(1,3,4)] by blast
    have "cw_shards ((?hs @ [share (?hs ! p)]) ! r) \<noteq> Some a" if "r < Suc (length ?hs)" "r \<noteq> q" for r
      using a(2) that p l(2) at [of r] by (auto simp: share_def)
    then show "\<exists>a. cw_shards ((?hs @ [share (?hs ! p)]) ! q) = Some a \<and> (\<forall>r < length (?hs @ [share (?hs ! p)]). r \<noteq> q \<longrightarrow> cw_shards ((?hs @ [share (?hs ! p)]) ! r) \<noteq> Some a)"
      using a(1) l(1) by (intro exI [of _ a]) (simp add: nth_append)
  next
    fix q i assume q: "q < length (?hs @ [share (?hs ! p)])" "i < cow_shards" "q \<notin> insert p (cp_frozen c) \<and> cw_idx ((?hs @ [share (?hs ! p)]) ! q) \<and> bit (cw_mine ((?hs @ [share (?hs ! p)]) ! q)) i"
    then have l: "q < length ?hs" "q \<noteq> p" "q \<notin> cp_frozen c" "cw_idx (?hs ! q)" "bit (cw_mine (?hs ! q)) i" using at [of q] by (auto simp: share_def split: if_splits)
    obtain a where a: "slot ?s (?hs ! q) i = Some a" "\<forall>r < length ?hs. \<forall>j < cow_shards. (r, j) \<noteq> (q, i) \<longrightarrow> slot ?s (?hs ! r) j \<noteq> Some a"
      using okD(4) [OF assms(1) l(1,3,4) q(2) l(5)] by blast
    have "slot ?s ((?hs @ [share (?hs ! p)]) ! r) j \<noteq> Some a" if "r < Suc (length ?hs)" "j < cow_shards" "(r, j) \<noteq> (q, i)" for r j
      using a(2) that p l(2) at [of r] by (auto simp: sl)
    then show "\<exists>a. slot ?s ((?hs @ [share (?hs ! p)]) ! q) i = Some a \<and> (\<forall>r < length (?hs @ [share (?hs ! p)]). \<forall>j < cow_shards. (r, j) \<noteq> (q, i) \<longrightarrow> slot ?s ((?hs @ [share (?hs ! p)]) ! r) j \<noteq> Some a)"
      using a(1) l(1) by (intro exI [of _ a]) (simp add: nth_append)
  qed
  moreover have "counts_ok hash ?s (?hs @ [share (?hs ! p)])"
    using assms(2) p at by (simp add: counts_ok_def g) (simp add: share_def)
  ultimately show ?thesis using Share p c' g by simp
next
  case (SetKey p k v)
  have p: "p < length (cp_handles c)" "p \<notin> cp_frozen c" using assms(3) SetKey by (auto split: if_splits)
  obtain s1 m1 a where w: "cow_shard hash (cp_store c) (cp_handles c ! p) k = (s1, m1, a)" by (cases "cow_shard hash (cp_store c) (cp_handles c ! p) k")
  let ?n = "if map_of (st_maps s1 ! a) k = None then cw_n m1 + 1 else cw_n m1"
  let ?s2 = "s1\<lparr>st_maps := (st_maps s1)[a := mput k v (st_maps s1 ! a)]\<rparr>" and ?m2 = "m1\<lparr>cw_n := ?n\<rparr>"
  have "cow_set hash (cp_store c) (cp_handles c ! p) k v = (?s2, ?m2)" by (simp add: cow_set_def w)
  then have c': "c' = written c p (?s2, ?m2)" using assms(3) SetKey p by simp
  have "cow_ok hash ?s2 ((cp_handles c)[p := ?m2]) (cp_frozen c) \<and> counts_ok hash ?s2 ((cp_handles c)[p := ?m2])
    \<and> map (cow_get hash ?s2) ((cp_handles c)[p := ?m2])
      = (map (cow_get hash (cp_store c)) (cp_handles c))[p := (cow_get hash (cp_store c) (cp_handles c ! p))(k := map_of (mput k v (st_maps s1 ! a)) k)]"
    by (rule write_ok [OF assms(1,2) p w]) (simp_all add: distinct_mput)
  then show ?thesis using SetKey c' p(1) by (simp add: written_def)
next
  case (DelKey p k)
  have p: "p < length (cp_handles c)" "p \<notin> cp_frozen c" using assms(3) DelKey by (auto split: if_splits)
  show ?thesis
  proof (cases "cow_has hash (cp_store c) (cp_handles c ! p) k")
    case False
    then have "c' = written c p (cp_store c, cp_handles c ! p)" using assms(3) DelKey p by (simp add: cow_del_def)
    moreover have "(cow_get hash (cp_store c) (cp_handles c ! p))(k := None) = cow_get hash (cp_store c) (cp_handles c ! p)"
      using False by (auto simp: cow_has_def)
    ultimately show ?thesis using assms(1,2) DelKey p(1) by (simp add: written_def map_update [symmetric])
  next
    case True
    obtain s1 m1 a where w: "cow_shard hash (cp_store c) (cp_handles c ! p) k = (s1, m1, a)" by (cases "cow_shard hash (cp_store c) (cp_handles c ! p) k")
    let ?s2 = "s1\<lparr>st_maps := (st_maps s1)[a := mdel k (st_maps s1 ! a)]\<rparr>" and ?m2 = "m1\<lparr>cw_n := cw_n m1 - 1\<rparr>"
    have "cow_del hash (cp_store c) (cp_handles c ! p) k = (?s2, ?m2)" using True by (simp add: cow_del_def w)
    then have c': "c' = written c p (?s2, ?m2)" using assms(3) DelKey p by simp
    have "map_of (st_maps s1 ! a) k \<noteq> None"
    proof -
      note C = cow_shard_ok [OF assms(1) p w]
      have "cow_ok hash s1 ((cp_handles c)[p := m1]) (cp_frozen c)" "cw_idx ((cp_handles c)[p := m1] ! p)"
        "bit (cw_mine ((cp_handles c)[p := m1] ! p)) (shard_of hash k)" "p < length ((cp_handles c)[p := m1])" using C p(1) by simp_all
      from okD(4) [OF this(1,4) p(2) this(2) shard_of_less this(3)]
      have "slot s1 m1 (shard_of hash k) = Some a" using C p(1) by auto
      moreover have "cow_get hash s1 m1 k = cow_get hash (cp_store c) (cp_handles c ! p) k" using C p(1) by auto
      ultimately show ?thesis using True by (simp add: cow_has_def get_slot slot_map_def)
    qed
    then have "cow_ok hash ?s2 ((cp_handles c)[p := ?m2]) (cp_frozen c) \<and> counts_ok hash ?s2 ((cp_handles c)[p := ?m2])
      \<and> map (cow_get hash ?s2) ((cp_handles c)[p := ?m2])
        = (map (cow_get hash (cp_store c)) (cp_handles c))[p := (cow_get hash (cp_store c) (cp_handles c ! p))(k := map_of (mdel k (st_maps s1 ! a)) k)]"
      by (intro write_ok [OF assms(1,2) p w]) (simp_all add: distinct_mdel)
    then show ?thesis using DelKey c' p(1) by (simp add: written_def)
  qed
qed

lemma cow_steps_ok:
  "cow_ok hash (cp_store c) (cp_handles c) (cp_frozen c) \<Longrightarrow> counts_ok hash (cp_store c) (cp_handles c) \<Longrightarrow> cow_steps hash c xs = Some c'
   \<Longrightarrow> cow_ok hash (cp_store c') (cp_handles c') (cp_frozen c') \<and> counts_ok hash (cp_store c') (cp_handles c')
    \<and> map (cow_get hash (cp_store c')) (cp_handles c') = foldl map_step (map (cow_get hash (cp_store c)) (cp_handles c)) xs"
proof (induction xs arbitrary: c)
  case (Cons x xs)
  then obtain c1 where c1: "cow_step hash c x = Some c1" "cow_steps hash c1 xs = Some c'" by (auto split: option.splits)
  note S = cow_step_ok [OF Cons.prems(1,2) c1(1)]
  show ?case using Cons.IH [of c1] S c1(2) by simp
qed simp

lemma cow_all_entries:
  assumes "cow_ok hash s hs fz" and "p < length hs"
  shows "distinct (map fst (cow_all s (hs ! p))) \<and> map_of (cow_all s (hs ! p)) = cow_get hash s (hs ! p)"
proof (cases "cw_shards (hs ! p)")
  case None
  then show ?thesis by (simp add: cow_all_def cow_get_def fun_eq_iff)
next
  case (Some a)
  let ?m = "\<lambda>i. slot_map s (slot s (hs ! p) i)"
  have len: "length (st_arrs s ! a) = cow_shards" using okD(1) [OF assms Some] by simp
  have "map (slot_map s) (st_arrs s ! a) = map ?m [0..<cow_shards]"
    by (rule nth_equalityI) (simp_all add: len slot_def Some)
  then have all: "cow_all s (hs ! p) = concat (map ?m [0..<cow_shards])" using Some by (simp add: cow_all_def)
  have part: "distinct (map fst (?m i))" "k \<in> fst ` set (?m i) \<Longrightarrow> shard_of hash k = i" if "i < cow_shards" for i k
    using okD(2) [OF assms that] by (cases "slot s (hs ! p) i"; auto simp: slot_map_def dom_map_of_conv_image_fst)+
  have "n \<le> cow_shards \<Longrightarrow> distinct (map fst (concat (map ?m [0..<n])))
      \<and> map_of (concat (map ?m [0..<n])) = (\<lambda>k. if shard_of hash k < n then map_of (?m (shard_of hash k)) k else None)" for n
  proof (induction n)
    case (Suc n)
    let ?c = "concat (map ?m [0..<n])"
    have n: "n < cow_shards" and IH: "distinct (map fst ?c)" "map_of ?c = (\<lambda>k. if shard_of hash k < n then map_of (?m (shard_of hash k)) k else None)"
      using Suc by simp_all
    have keys: "fst ` set ?c = dom (map_of ?c)" by (simp add: dom_map_of_conv_image_fst)
    have "shard_of hash x < n" if "x \<in> fst ` set ?c" for x using that unfolding keys by (auto simp: IH(2) split: if_splits)
    then have "fst ` set ?c \<inter> fst ` set (?m n) = {}" using part(2) [OF n] by fastforce
    then have "distinct (map fst (?c @ ?m n))" using IH(1) part(1) [OF n] by simp
    moreover have "map_of (?c @ ?m n) k = (if shard_of hash k < Suc n then map_of (?m (shard_of hash k)) k else None)" for k
    proof (cases "map_of (?m n) k")
      case None
      then show ?thesis using IH(2) by (auto simp: map_add_def less_Suc_eq split: option.split)
    next
      case (Some v)
      then have "k \<in> fst ` set (?m n)" by (metis domI dom_map_of_conv_image_fst)
      then show ?thesis using part(2) [OF n] Some IH(2) by (simp add: map_add_def)
    qed
    ultimately show ?case by (simp add: fun_eq_iff)
  qed simp
  from this [of cow_shards] show ?thesis unfolding all by (simp add: fun_eq_iff get_slot)
qed

text \<open>
  The discipline of the callers: of the n maps there are, none that a copy was taken from is written again
  (it may be copied again).
\<close>

fun written_before_shared :: "nat \<Rightarrow> nat set \<Rightarrow> 'v cow_op list \<Rightarrow> bool" where
  "written_before_shared n shared [] = True"
| "written_before_shared n shared (Share p # xs) = (p < n \<and> written_before_shared (n + 1) (insert p shared) xs)"
| "written_before_shared n shared (SetKey p k v # xs) = (p < n \<and> p \<notin> shared \<and> written_before_shared n shared xs)"
| "written_before_shared n shared (DelKey p k # xs) = (p < n \<and> p \<notin> shared \<and> written_before_shared n shared xs)"

lemma disciplined_steps:
  "written_before_shared (length (cp_handles c)) (cp_frozen c) xs \<Longrightarrow> \<exists>c'. cow_steps hash c xs = Some c'"
proof (induction xs arbitrary: c)
  case (Cons x xs)
  then obtain c1 where c1: "cow_step hash c x = Some c1" "written_before_shared (length (cp_handles c1)) (cp_frozen c1) xs"
    by (cases x) (auto simp: written_def)
  then show ?case using Cons.IH [OF c1(2)] by simp
qed simp

text \<open>
  C7. The copies of a view keep maps of their own although they share their shards: after any sequence of
  copies and writes that writes no map a copy was taken from, each map reads as a map written alone, its
  length is the number of its keys, and its iteration lists each key once with its value. A write after a
  share would show in the copy: the restriction is needed.
\<close>

theorem cow_refines_maps:
  assumes "written_before_shared 1 {} ops"
  shows "\<exists>c. cow_steps hash one_cow ops = Some c
    \<and> map (cow_get hash (cp_store c)) (cp_handles c) = foldl map_step [Map.empty] ops
    \<and> map cow_len (cp_handles c) = map (\<lambda>m. int (card (dom m))) (foldl map_step [Map.empty] ops)
    \<and> map (\<lambda>m. map_of (cow_all (cp_store c) m)) (cp_handles c) = foldl map_step [Map.empty] ops
    \<and> list_all (\<lambda>m. distinct (map fst (cow_all (cp_store c) m))) (cp_handles c)"
proof -
  obtain c where c: "cow_steps hash one_cow ops = Some c"
    using disciplined_steps [of one_cow ops hash] assms by (auto simp: one_cow_def)
  have e: "cow_get hash s no_cow = Map.empty" for s :: "'a store" by (simp add: cow_get_def no_cow_def fun_eq_iff)
  have "cow_ok hash (cp_store (one_cow :: 'a copies)) (cp_handles (one_cow :: 'a copies)) (cp_frozen (one_cow :: 'a copies))"
    by (simp add: cow_ok_def one_cow_def no_cow_def slot_def)
  moreover have "counts_ok hash (cp_store (one_cow :: 'a copies)) (cp_handles (one_cow :: 'a copies))"
    by (simp add: counts_ok_def one_cow_def e) (simp add: no_cow_def)
  ultimately have S: "cow_ok hash (cp_store c) (cp_handles c) (cp_frozen c)" "counts_ok hash (cp_store c) (cp_handles c)"
    "map (cow_get hash (cp_store c)) (cp_handles c) = foldl map_step [Map.empty] ops"
    using cow_steps_ok [OF _ _ c] by (simp_all add: one_cow_def e)
  have len: "map cow_len (cp_handles c) = map (\<lambda>m. int (card (dom m))) (map (cow_get hash (cp_store c)) (cp_handles c))"
    by (rule nth_equalityI) (use S(2) in \<open>simp_all add: counts_ok_def cow_len_def\<close>)
  have all: "map (\<lambda>m. map_of (cow_all (cp_store c) m)) (cp_handles c) = map (cow_get hash (cp_store c)) (cp_handles c)"
    by (rule nth_equalityI) (use cow_all_entries [OF S(1)] in simp_all)
  have dist: "list_all (\<lambda>m. distinct (map fst (cow_all (cp_store c) m))) (cp_handles c)"
    unfolding list_all_length using cow_all_entries [OF S(1)] by blast
  show ?thesis using c S(3) len all dist by simp
qed

definition demo_ops :: "nat cow_op list" where
  "demo_ops = [SetKey 0 ''a'' 1, SetKey 0 ''b'' 2, Share 0, SetKey 1 ''a'' 3, DelKey 1 ''b'', Share 1, SetKey 2 ''c'' 4]"

theorem cow_refines_maps_witness:
  "(\<exists>c. cow_steps length one_cow demo_ops = Some c
     \<and> map (cow_get length (cp_store c)) (cp_handles c) = [[''a'' \<mapsto> 1, ''b'' \<mapsto> 2], [''a'' \<mapsto> 3], [''a'' \<mapsto> 3, ''c'' \<mapsto> 4]])
   \<and> map_option (\<lambda>c. map cow_len (cp_handles c)) (cow_steps length one_cow demo_ops) = Some [2, 1, 2]"
proof -
  have e: "map_option (\<lambda>c. map cow_len (cp_handles c)) (cow_steps length one_cow demo_ops) = Some [2, 1, 2]" by code_simp
  have d: "written_before_shared 1 {} demo_ops" by (simp add: demo_ops_def)
  have "foldl map_step [Map.empty] demo_ops = [[''a'' \<mapsto> 1, ''b'' \<mapsto> 2], [''a'' \<mapsto> 3], [''a'' \<mapsto> 3, ''c'' \<mapsto> 4]]"
    by (simp add: demo_ops_def fun_eq_iff)
  then show ?thesis using cow_refines_maps [OF d, of length] e by metis
qed

text \<open>The discipline is needed: a map written after it was copied shows the write in the copy.\<close>

lemma write_after_share_leaks:
  "let (s, m) = cow_set length \<lparr>st_maps = [], st_arrs = []\<rparr> no_cow ''a'' (1 :: nat); (s1, m1) = cow_set length s m ''a'' 2
   in cow_get length s1 (share m) ''a'' = Some 2"
  by code_simp

subsection \<open>The shared log of events\<close>

text \<open>
  eventLog: the logs of a store; a fold holds a log and how many of its events it reads. It appends in
  place while it holds the whole log, else it starts a log of its own with what it read. The slice a fold
  holds (s.events) is that prefix: the elements of a log are never moved nor written again.
\<close>

record log_fold =
  lf_log :: "nat option"
  lf_n :: nat

definition fold_evs :: "'e list list \<Rightarrow> log_fold \<Rightarrow> 'e list" where
  "fold_evs s f = (case lf_log f of None \<Rightarrow> [] | Some a \<Rightarrow> take (lf_n f) (s ! a))"

definition add_event :: "'e list list \<Rightarrow> log_fold \<Rightarrow> 'e \<Rightarrow> 'e list list \<times> log_fold" where
  "add_event s f e = (case lf_log f of
     Some a \<Rightarrow> if length (s ! a) \<noteq> lf_n f then (s @ [fold_evs s f @ [e]], \<lparr>lf_log = Some (length s), lf_n = lf_n f + 1\<rparr>)
       else (s[a := s ! a @ [e]], f\<lparr>lf_n := lf_n f + 1\<rparr>)
   | None \<Rightarrow> (s @ [fold_evs s f @ [e]], \<lparr>lf_log = Some (length s), lf_n = lf_n f + 1\<rparr>))"

datatype 'e log_op = CopyFold nat | AddTo nat 'e

fun log_step :: "'e list list \<times> log_fold list \<Rightarrow> 'e log_op \<Rightarrow> ('e list list \<times> log_fold list) option" where
  "log_step (s, fs) (CopyFold p) = (if p < length fs then Some (s, fs @ [fs ! p]) else None)"
| "log_step (s, fs) (AddTo p e) = (if p < length fs then (case add_event s (fs ! p) e of (s', f) \<Rightarrow> Some (s', fs[p := f])) else None)"

fun log_steps :: "'e list list \<times> log_fold list \<Rightarrow> 'e log_op list \<Rightarrow> ('e list list \<times> log_fold list) option" where
  "log_steps w [] = Some w"
| "log_steps w (x # xs) = (case log_step w x of None \<Rightarrow> None | Some w1 \<Rightarrow> log_steps w1 xs)"

fun list_step :: "'e list list \<Rightarrow> 'e log_op \<Rightarrow> 'e list list" where
  "list_step es (CopyFold p) = es @ [es ! p]"
| "list_step es (AddTo p e) = es[p := es ! p @ [e]]"

definition fold_in :: "'e list list \<Rightarrow> log_fold \<Rightarrow> bool" where
  "fold_in s f \<longleftrightarrow> (case lf_log f of None \<Rightarrow> lf_n f = 0 | Some a \<Rightarrow> a < length s \<and> lf_n f \<le> length (s ! a))"

lemma fold_in_grows:
  "fold_in s f \<Longrightarrow> fold_in (s @ [x]) f \<and> fold_evs (s @ [x]) f = fold_evs s f"
  "fold_in s f \<Longrightarrow> fold_in (s[a := s ! a @ [e]]) f \<and> fold_evs (s[a := s ! a @ [e]]) f = fold_evs s f"
proof -
  show "fold_in s f \<Longrightarrow> fold_in (s @ [x]) f \<and> fold_evs (s @ [x]) f = fold_evs s f"
    by (auto simp: fold_in_def fold_evs_def nth_append split: option.splits)
  show "fold_in s f \<Longrightarrow> fold_in (s[a := s ! a @ [e]]) f \<and> fold_evs (s[a := s ! a @ [e]]) f = fold_evs s f"
    by (cases "lf_log f"; cases "lf_log f = Some a") (auto simp: fold_in_def fold_evs_def)
qed

lemma add_event_ok:
  assumes "fold_in s f" and "add_event s f e = (s', f')"
  shows "fold_in s' f' \<and> fold_evs s' f' = fold_evs s f @ [e] \<and> (\<forall>g. fold_in s g \<longrightarrow> fold_in s' g \<and> fold_evs s' g = fold_evs s g)"
proof (cases "\<exists>a. lf_log f = Some a \<and> length (s ! a) = lf_n f")
  case True
  then obtain a where a: "lf_log f = Some a" "length (s ! a) = lf_n f" by blast
  then have "s' = s[a := s ! a @ [e]]" "f' = f\<lparr>lf_n := lf_n f + 1\<rparr>" using assms(2) by (simp_all add: add_event_def)
  then show ?thesis using a assms(1) fold_in_grows(2) [of s] by (auto simp: fold_in_def fold_evs_def)
next
  case False
  then have s: "s' = s @ [fold_evs s f @ [e]]" "f' = \<lparr>lf_log = Some (length s), lf_n = lf_n f + 1\<rparr>"
    using assms(2) by (auto simp: add_event_def split: option.splits)
  have "length (fold_evs s f) = lf_n f" using assms(1) by (auto simp: fold_in_def fold_evs_def split: option.splits)
  then show ?thesis using s fold_in_grows(1) [of s] by (auto simp: fold_in_def fold_evs_def)
qed

lemma log_step_ok:
  assumes "list_all (fold_in s) fs" and "log_step (s, fs) x = Some (s', fs')"
  shows "list_all (fold_in s') fs' \<and> map (fold_evs s') fs' = list_step (map (fold_evs s) fs) x"
proof (cases x)
  case (CopyFold p)
  then show ?thesis using assms by (auto simp: list_all_iff split: if_splits)
next
  case (AddTo p e)
  then obtain f where p: "p < length fs" "add_event s (fs ! p) e = (s', f)" "fs' = fs[p := f]"
    using assms(2) by (auto split: if_splits prod.splits)
  have "fold_in s (fs ! p)" using assms(1) p(1) by (simp add: list_all_length)
  note A = add_event_ok [OF this p(2)]
  have "fold_in s' (fs' ! q) \<and> fold_evs s' (fs' ! q) = (map (fold_evs s) fs)[p := fold_evs s (fs ! p) @ [e]] ! q" if "q < length fs" for q
    using A assms(1) that p by (cases "q = p") (simp_all add: list_all_length)
  then show ?thesis using AddTo p by (auto simp: list_all_length intro!: nth_equalityI)
qed

text \<open>
  The folds of a log that share its array read the events they added and those of the fold they were
  copied from, whichever of them adds next and in any order.
\<close>

theorem shared_log_is_lists:
  assumes "log_steps ([], [\<lparr>lf_log = None, lf_n = 0\<rparr>]) ops = Some (s, fs)"
  shows "map (fold_evs s) fs = foldl list_step [[]] ops"
proof -
  have "list_all (fold_in s0) fs0 \<Longrightarrow> log_steps (s0, fs0) ops = Some (s, fs)
      \<Longrightarrow> map (fold_evs s) fs = foldl list_step (map (fold_evs s0) fs0) ops" for s0 :: "'a list list" and fs0
  proof (induction ops arbitrary: s0 fs0)
    case (Cons x ops)
    obtain s1 fs1 where w: "log_step (s0, fs0) x = Some (s1, fs1)" "log_steps (s1, fs1) ops = Some (s, fs)"
      using Cons.prems(2) by (auto split: option.splits)
    then show ?case using Cons.IH [of s1 fs1] log_step_ok [OF Cons.prems(1) w(1)] by simp
  qed simp
  from this [OF _ assms] show ?thesis by (simp add: fold_in_def fold_evs_def)
qed

theorem shared_log_is_lists_witness:
  "\<exists>s fs. log_steps ([], [\<lparr>lf_log = None, lf_n = 0\<rparr>]) [AddTo 0 (1 :: nat), CopyFold 0, AddTo 0 2, AddTo 1 3] = Some (s, fs)
    \<and> map (fold_evs s) fs = [[1, 2], [1, 3]]"
proof -
  let ?ops = "[AddTo 0 (1 :: nat), CopyFold 0, AddTo 0 2, AddTo 1 3]"
  obtain s fs where w: "log_steps ([], [\<lparr>lf_log = None, lf_n = 0\<rparr>]) ?ops = Some (s, fs)" by (auto simp: add_event_def fold_evs_def)
  show ?thesis using shared_log_is_lists [OF w] w by auto
qed

end
