(* ===== verification/Decisions.thy ===== *)
theory Decisions
  imports Items Lnk
begin

text \<open>
  contracts/domain/decision.go: the decision points of a change, replayed from the events of its main
  flow under a policy. The policy is a record of functions, whose laws are a locale; a fold of the policy
  edits the point in place, so it returns the point. A panic of the replay is None.
\<close>

subsection \<open>Points\<close>

record question =
  qu_id :: string
  qu_point :: string
  qu_text :: string
  qu_status :: string
  qu_answer :: string
  qu_answered_by :: string
  qu_process :: string
  qu_asked_at :: time

record ruling =
  ru_outcome :: string
  ru_option :: string
  ru_confidence :: rat
  ru_justification :: string
  ru_by :: string
  ru_human :: bool
  ru_role :: string
  ru_at :: time

record point =
  pt_id :: string
  pt_question :: string
  pt_options :: "string list"
  pt_criteria :: "string list"
  pt_policy :: props
  pt_opened_at :: time
  pt_opened_by :: string
  pt_status :: string
  pt_questions :: "question list"
  pt_ruling :: "ruling option"
  pt_human_only :: bool
  pt_escalation :: string
  pt_option :: string
  pt_decided_at :: time
  pt_decided_by :: string

definition open_questions :: "point \<Rightarrow> nat" where
  "open_questions d = length (filter (\<lambda>q. qu_status q = ''open'') (pt_questions d))"

definition pending :: "point \<Rightarrow> bool" where
  "pending d \<longleftrightarrow> pt_status d \<noteq> ''decided''"

definition needs_human :: "point \<Rightarrow> bool" where
  "needs_human d \<longleftrightarrow> pt_human_only d \<or> pt_escalation d \<noteq> []"

record decision_policy =
  po_open :: "props \<Rightarrow> time \<Rightarrow> props option"
  po_fold :: "point \<Rightarrow> decision_event \<Rightarrow> point \<times> bool"
  po_reserve :: "point \<Rightarrow> time \<Rightarrow> bool \<times> string"

definition minimal_policy :: decision_policy where
  "minimal_policy = \<lparr>po_open = (\<lambda>given now. if msize (pmap given) > 0 then None else Some None),
     po_fold = (\<lambda>p ev. (p, if de_op ev = ''rule'' then de_outcome ev = ''decided''
        else if de_op ev = ''ratify'' then de_accept ev else False)),
     po_reserve = (\<lambda>p now. (False, []))\<rparr>"

subsection \<open>The replay\<close>

definition question_id :: "string \<Rightarrow> nat \<Rightarrow> string" where
  "question_id rule i = rule @ '':'' @ itoa (i + 1)"

definition decide :: "ruling \<Rightarrow> point \<Rightarrow> point" where
  "decide r d = d\<lparr>pt_ruling := Some r, pt_option := ru_option r, pt_decided_at := ru_at r, pt_decided_by := ru_by r\<rparr>"

definition opened_point :: "item \<Rightarrow> decision_event \<Rightarrow> point" where
  "opened_point it e = \<lparr>pt_id = it_id it, pt_question = de_question e, pt_options = de_options e, pt_criteria = de_criteria e,
     pt_policy = de_policy e, pt_opened_at = it_created_at it, pt_opened_by = de_by e, pt_status = [], pt_questions = [], pt_ruling = None,
     pt_human_only = False, pt_escalation = [], pt_option = [], pt_decided_at = 0, pt_decided_by = []\<rparr>"

definition ruling_of :: "item \<Rightarrow> decision_event \<Rightarrow> ruling" where
  "ruling_of it e = \<lparr>ru_outcome = de_outcome e, ru_option = de_option e, ru_confidence = de_confidence e,
     ru_justification = de_justification e, ru_by = de_by e, ru_human = de_human e, ru_role = de_role e, ru_at = it_created_at it\<rparr>"

definition asked :: "item \<Rightarrow> decision_event \<Rightarrow> string \<Rightarrow> question list" where
  "asked it e p = map (\<lambda>(j, q). \<lparr>qu_id = question_id (it_id it) j, qu_point = p, qu_text = q, qu_status = ''open'', qu_answer = [],
     qu_answered_by = [], qu_process = [], qu_asked_at = it_created_at it\<rparr>) (List.enumerate 0 (de_questions e))"

definition rule_point :: "decision_policy \<Rightarrow> item \<Rightarrow> decision_event \<Rightarrow> point \<Rightarrow> point" where
  "rule_point pol it e d = (let r = ruling_of it e; (d1, settled) = po_fold pol (d\<lparr>pt_ruling := Some r\<rparr>) e in
     if de_outcome e = ''undecidable'' then d1\<lparr>pt_questions := pt_questions d1 @ asked it e (pt_id d1)\<rparr>
     else if settled then decide (case pt_ruling d1 of Some r1 \<Rightarrow> r1 | None \<Rightarrow> r) d1
     else d1)"

definition ratify_point :: "decision_policy \<Rightarrow> item \<Rightarrow> decision_event \<Rightarrow> point \<Rightarrow> point option" where
  "ratify_point pol it e d = (case pt_ruling d of None \<Rightarrow> Some d
     | Some r \<Rightarrow> if ru_outcome r \<noteq> ''decided'' then Some d
         else (case po_fold pol d e of (d1, settled) \<Rightarrow>
           if \<not> settled then Some (d1\<lparr>pt_ruling := None\<rparr>)
           else (case pt_ruling d1 of None \<Rightarrow> None
             | Some r1 \<Rightarrow> Some (decide \<lparr>ru_outcome = ''decided'', ru_option = ru_option r1, ru_confidence = ru_confidence r1,
                 ru_justification = ru_justification r1, ru_by = de_by e, ru_human = True, ru_role = [], ru_at = it_created_at it\<rparr> d1))))"

definition answer_point :: "decision_event \<Rightarrow> point \<Rightarrow> point" where
  "answer_point e d = d\<lparr>pt_questions := map (\<lambda>q. if qu_id q = de_question_id e \<and> qu_status q = ''open''
     then q\<lparr>qu_status := ''answered'', qu_answer := de_answer e, qu_answered_by := de_by e, qu_process := de_process e\<rparr> else q) (pt_questions d)\<rparr>"

definition moved_point :: "decision_policy \<Rightarrow> item \<Rightarrow> decision_event \<Rightarrow> point \<Rightarrow> point option" where
  "moved_point pol it e d =
     (if pt_decided_by d \<noteq> [] \<or> pt_decided_at d \<noteq> 0 then Some d
      else if de_op e = ''rule'' then Some (rule_point pol it e d)
      else if de_op e = ''ratify'' then ratify_point pol it e d
      else if de_op e = ''answer'' then Some (answer_point e d)
      else Some d)"

type_synonym points = "point list \<times> (string, nat) gomap"

definition decision_step :: "decision_policy \<Rightarrow> item \<Rightarrow> points \<Rightarrow> points option" where
  "decision_step pol it s = (case s of (out, pos) \<Rightarrow>
     (case it_decision_event it of None \<Rightarrow> Some s
      | Some e \<Rightarrow>
         if it_type it \<noteq> ''decision_point'' \<or> it_flow it \<noteq> [] then Some s
         else if de_op e = ''open'' then Some (out @ [opened_point it e], mput (it_id it) (length out) pos)
         else (case map_of pos (de_point e) of None \<Rightarrow> Some s
           | Some i \<Rightarrow> map_option (\<lambda>d. (out[i := d], pos)) (moved_point pol it e (out ! i)))))"

fun decision_steps :: "decision_policy \<Rightarrow> item list \<Rightarrow> points \<Rightarrow> points option" where
  "decision_steps pol [] s = Some s"
| "decision_steps pol (it # its) s = (case decision_step pol it s of None \<Rightarrow> None | Some s1 \<Rightarrow> decision_steps pol its s1)"

definition settle_point :: "decision_policy \<Rightarrow> time \<Rightarrow> point \<Rightarrow> point" where
  "settle_point pol now d = (if pt_decided_at d \<noteq> 0 then d\<lparr>pt_status := ''decided''\<rparr>
     else let (h, esc) = po_reserve pol d now; d1 = d\<lparr>pt_human_only := h \<or> esc \<noteq> [], pt_escalation := esc\<rparr>
       in d1\<lparr>pt_status := (if (case pt_ruling d1 of Some r \<Rightarrow> ru_outcome r = ''decided'' | None \<Rightarrow> False) then ''ratifying''
            else if 0 < open_questions d1 then ''blocked''
            else if esc \<noteq> [] then ''escalated''
            else ''open'')\<rparr>)"

definition policy_or_default :: "decision_policy option \<Rightarrow> decision_policy" where
  "policy_or_default p = (case p of None \<Rightarrow> minimal_policy | Some pol \<Rightarrow> pol)"

definition points_at :: "item list \<Rightarrow> time \<Rightarrow> decision_policy option \<Rightarrow> point list option" where
  "points_at its now p = (let pol = policy_or_default p in
     map_option (\<lambda>(out, pos). map (settle_point pol now) out) (decision_steps pol its ([], [])))"

definition point_at :: "item list \<Rightarrow> string \<Rightarrow> time \<Rightarrow> decision_policy option \<Rightarrow> point option option" where
  "point_at its i now p = map_option (find (\<lambda>d. pt_id d = i)) (points_at its now p)"

lemma settle_decided: "pt_decided_at d \<noteq> 0 \<Longrightarrow> settle_point pol now d = d\<lparr>pt_status := ''decided''\<rparr>"
  by (simp add: settle_point_def)

lemma settle_status: "pt_status (settle_point pol now d) = ''decided'' \<longleftrightarrow> pt_decided_at d \<noteq> 0"
proof (cases "pt_decided_at d = 0")
  case True
  obtain h esc where "po_reserve pol d now = (h, esc)" by fastforce
  then show ?thesis using True by (simp add: settle_point_def Let_def)
qed (simp add: settle_decided)

subsection \<open>What a policy promises\<close>

text \<open>
  A fold changes the values of the policy, and of the ruling its option, or drops it; a ratification
  leaves the ruling as it is.
\<close>

definition fold_changes :: "point \<Rightarrow> point \<Rightarrow> bool" where
  "fold_changes p p' \<longleftrightarrow> (\<exists>v r. p' = p\<lparr>pt_policy := v, pt_ruling := r\<rparr>
     \<and> (case r of None \<Rightarrow> True | Some r1 \<Rightarrow> (\<exists>r0 opt. pt_ruling p = Some r0 \<and> r1 = r0\<lparr>ru_option := opt\<rparr>)))"

definition ruled :: "point \<Rightarrow> bool" where
  "ruled d \<longleftrightarrow> pt_decided_at d \<noteq> 0 \<longrightarrow> (\<exists>r. pt_ruling d = Some r \<and> ru_option r = pt_option d
     \<and> ru_at r = pt_decided_at d \<and> ru_by r = pt_decided_by d)"

locale policy_laws =
  fixes pol :: decision_policy
  assumes fold_law: "fold_changes p (fst (po_fold pol p e))"
    and settled_law: "snd (po_fold pol p e) \<Longrightarrow> pt_ruling p \<noteq> None \<Longrightarrow> pt_ruling (fst (po_fold pol p e)) \<noteq> None"
begin

lemma rule_point_fields: "\<exists>v r qs opt t w. rule_point pol it e d = d\<lparr>pt_policy := v, pt_ruling := r, pt_questions := qs, pt_option := opt,
    pt_decided_at := t, pt_decided_by := w\<rparr>
  \<and> (t = pt_decided_at d \<and> w = pt_decided_by d \<and> opt = pt_option d
     \<or> (\<exists>r1. r = Some r1 \<and> opt = ru_option r1 \<and> t = ru_at r1 \<and> w = ru_by r1 \<and> t = it_created_at it \<and> w = de_by e))"
proof -
  let ?r = "ruling_of it e"
  obtain d1 b where f: "po_fold pol (d\<lparr>pt_ruling := Some ?r\<rparr>) e = (d1, b)" by fastforce
  obtain v r where vr: "d1 = d\<lparr>pt_policy := v, pt_ruling := r\<rparr>" and r: "case r of None \<Rightarrow> True | Some r1 \<Rightarrow> (\<exists>opt. r1 = ?r\<lparr>ru_option := opt\<rparr>)"
    using fold_law [of "d\<lparr>pt_ruling := Some ?r\<rparr>" e] f by (auto simp: fold_changes_def split: option.splits)
  consider (ask) "de_outcome e = ''undecidable''" | (settled) "de_outcome e \<noteq> ''undecidable''" "b" | (wait) "de_outcome e \<noteq> ''undecidable''" "\<not> b" by blast
  then show ?thesis
  proof cases
    case ask
    have "rule_point pol it e d = d\<lparr>pt_policy := v, pt_ruling := r, pt_questions := pt_questions d @ asked it e (pt_id d),
        pt_option := pt_option d, pt_decided_at := pt_decided_at d, pt_decided_by := pt_decided_by d\<rparr>"
      using ask f vr by (simp add: rule_point_def Let_def)
    then show ?thesis by blast
  next
    case wait
    have "rule_point pol it e d = d\<lparr>pt_policy := v, pt_ruling := r, pt_questions := pt_questions d,
        pt_option := pt_option d, pt_decided_at := pt_decided_at d, pt_decided_by := pt_decided_by d\<rparr>"
      using wait f vr by (simp add: rule_point_def Let_def)
    then show ?thesis by blast
  next
    case settled
    define r1 where "r1 = (case r of Some r1 \<Rightarrow> r1 | None \<Rightarrow> ?r)"
    have r1: "ru_at r1 = it_created_at it" "ru_by r1 = de_by e" using r by (auto simp: r1_def ruling_of_def split: option.splits)
    have "rule_point pol it e d = d\<lparr>pt_policy := v, pt_ruling := Some r1, pt_questions := pt_questions d,
        pt_option := ru_option r1, pt_decided_at := ru_at r1, pt_decided_by := ru_by r1\<rparr>"
      using settled f vr by (simp add: rule_point_def decide_def Let_def r1_def)
    then show ?thesis using r1 by blast
  qed
qed

lemma ratify_point_total: "\<exists>d'. ratify_point pol it e d = Some d'"
proof (cases "pt_ruling d")
  case (Some r)
  obtain d1 b where "po_fold pol d e = (d1, b)" by fastforce
  then show ?thesis using settled_law [of d e] Some by (auto simp: ratify_point_def split: option.splits)
qed (simp add: ratify_point_def)

lemma moved_point_total: "\<exists>d'. moved_point pol it e d = Some d'"
  using ratify_point_total by (simp add: moved_point_def)

lemma decision_steps_total: "\<exists>s'. decision_steps pol its s = Some s'"
proof (induction its arbitrary: s)
  case (Cons it its)
  obtain out pos where s: "s = (out, pos)" by fastforce
  have "\<exists>s1. decision_step pol it s = Some s1"
    using moved_point_total unfolding s by (fastforce simp: decision_step_def split: option.splits)
  then show ?case using Cons.IH by auto
qed simp

lemma points_total: "\<exists>ds. points_at its now (Some pol) = Some ds"
  using decision_steps_total [of its "([], [])"] by (auto simp: points_at_def policy_or_default_def)

lemma ratify_point_fields: "ratify_point pol it e d = Some d' \<Longrightarrow> \<exists>v r opt t w. d' = d\<lparr>pt_policy := v, pt_ruling := r, pt_option := opt,
    pt_decided_at := t, pt_decided_by := w\<rparr>
  \<and> (t = pt_decided_at d \<and> w = pt_decided_by d \<and> opt = pt_option d
     \<or> (\<exists>r1. r = Some r1 \<and> opt = ru_option r1 \<and> t = ru_at r1 \<and> w = ru_by r1 \<and> t = it_created_at it \<and> w = de_by e))"
proof -
  assume a: "ratify_point pol it e d = Some d'"
  show ?thesis
  proof (cases "d' = d")
    case True
    then have "d' = d\<lparr>pt_policy := pt_policy d, pt_ruling := pt_ruling d, pt_option := pt_option d, pt_decided_at := pt_decided_at d, pt_decided_by := pt_decided_by d\<rparr>" by simp
    then show ?thesis by blast
  next
    case False
    then obtain r where r: "pt_ruling d = Some r" "ru_outcome r = ''decided''" using a by (auto simp: ratify_point_def split: option.splits if_splits)
    obtain d1 b where f: "po_fold pol d e = (d1, b)" by fastforce
    obtain v r1 where vr: "d1 = d\<lparr>pt_policy := v, pt_ruling := r1\<rparr>"
      using fold_law [of d e] f by (auto simp: fold_changes_def)
    show ?thesis
    proof (cases b)
      case True
      then obtain r2 where r2: "r1 = Some r2" using settled_law [of d e] f vr r by auto
      define r3 where "r3 = \<lparr>ru_outcome = ''decided'', ru_option = ru_option r2, ru_confidence = ru_confidence r2,
                 ru_justification = ru_justification r2, ru_by = de_by e, ru_human = True, ru_role = [], ru_at = it_created_at it\<rparr>"
      have "d' = d\<lparr>pt_policy := v, pt_ruling := Some r3, pt_option := ru_option r3, pt_decided_at := ru_at r3, pt_decided_by := ru_by r3\<rparr>"
        using a r f vr r2 True by (simp add: ratify_point_def decide_def r3_def)
      moreover have "ru_at r3 = it_created_at it" "ru_by r3 = de_by e" by (simp_all add: r3_def)
      ultimately show ?thesis by blast
    next
      case False
      then have "d' = d\<lparr>pt_policy := v, pt_ruling := None\<rparr>" using a r f vr by (simp add: ratify_point_def)
      also have "\<dots> = d\<lparr>pt_policy := v, pt_ruling := None, pt_option := pt_option d, pt_decided_at := pt_decided_at d, pt_decided_by := pt_decided_by d\<rparr>" by simp
      finally have "d' = d\<lparr>pt_policy := v, pt_ruling := None, pt_option := pt_option d, pt_decided_at := pt_decided_at d, pt_decided_by := pt_decided_by d\<rparr>" .
      then show ?thesis by blast
    qed
  qed
qed

text \<open>What the replay keeps: a point that is decided was decided by its ruling, at its time, by its author.\<close>

lemma decision_step_ruled:
  assumes "list_all ruled out" and "decision_step pol it (out, pos) = Some (out', pos')"
  shows "list_all ruled out'"
proof (cases "\<exists>i e d. out' = out[i := d] \<and> moved_point pol it e (out ! i) = Some d \<and> i < length out")
  case True
  then obtain i e d where d: "out' = out[i := d]" "moved_point pol it e (out ! i) = Some d" "i < length out" by blast
  have o': "ruled (out ! i)" using assms(1) d(3) by (simp add: list_all_length)
  have "ruled d"
  proof (cases "pt_decided_by (out ! i) \<noteq> [] \<or> pt_decided_at (out ! i) \<noteq> 0")
    case True
    then show ?thesis using d(2) o' by (simp add: moved_point_def)
  next
    case False
    then have z: "pt_decided_at (out ! i) = 0" by simp
    have "d = rule_point pol it e (out ! i) \<or> ratify_point pol it e (out ! i) = Some d \<or> d = answer_point e (out ! i) \<or> d = out ! i"
      using d(2) False by (cases "de_op e = ''rule''"; cases "de_op e = ''ratify''"; cases "de_op e = ''answer''"; simp add: moved_point_def)
    then consider (r) "d = rule_point pol it e (out ! i)" | (t) "ratify_point pol it e (out ! i) = Some d" | (a) "d = answer_point e (out ! i)" | (n) "d = out ! i"
      by blast
    then show ?thesis
    proof cases
      case r
      show ?thesis using rule_point_fields [of it e "out ! i"] z unfolding r [symmetric] by (auto simp: ruled_def)
    next
      case t
      show ?thesis using ratify_point_fields [OF t] z by (auto simp: ruled_def)
    qed (use z in \<open>simp_all add: ruled_def answer_point_def\<close>)
  qed
  then show ?thesis using assms(1) d(1) by (auto simp: list_all_iff dest: set_update_subset_insert [THEN subsetD])
next
  case False
  have "out' = out \<or> (\<exists>e. out' = out @ [opened_point it e])"
  proof (cases "it_decision_event it")
    case (Some e)
    consider (skip) "out' = out" | (new) "out' = out @ [opened_point it e]"
      | (move) i d where "out' = out[i := d]" "moved_point pol it e (out ! i) = Some d"
      using assms(2) Some by (auto simp: decision_step_def split: if_splits option.splits)
    then show ?thesis
    proof cases
      case (move i d)
      then have "length out \<le> i" using False not_le by blast
      then show ?thesis using move(1) by (simp add: list_update_beyond)
    qed auto
  qed (use assms(2) in \<open>simp add: decision_step_def\<close>)
  then show ?thesis using assms(1) by (auto simp: ruled_def opened_point_def)
qed

lemma decision_steps_ruled: "list_all ruled (fst s) \<Longrightarrow> decision_steps pol its s = Some s' \<Longrightarrow> list_all ruled (fst s')"
proof (induction its arbitrary: s)
  case (Cons it its)
  obtain s1 where s1: "decision_step pol it s = Some s1" "decision_steps pol its s1 = Some s'" using Cons.prems(2) by (auto split: option.splits)
  have "list_all ruled (fst s1)" using decision_step_ruled [of "fst s" it "snd s" "fst s1" "snd s1"] Cons.prems(1) s1(1) by simp
  then show ?case using Cons.IH s1(2) by blast
qed simp

lemma points_ruled:
  assumes "points_at its now (Some pol) = Some ds"
  shows "list_all (\<lambda>d. pending d \<or> ruled d) ds"
proof -
  obtain out pos where o': "decision_steps pol its ([], []) = Some (out, pos)" "ds = map (settle_point pol now) out"
    using assms by (auto simp: points_at_def policy_or_default_def)
  have "list_all ruled out" using decision_steps_ruled [OF _ o'(1)] by simp
  moreover have "pending (settle_point pol now d) \<or> ruled (settle_point pol now d)" if "ruled d" for d
    using that settle_status [of pol now d] settle_decided [of d pol now] by (cases "pt_decided_at d = 0") (simp_all add: pending_def ruled_def)
  ultimately show ?thesis using o'(2) by (auto simp: list_all_iff)
qed

end

lemma fold_changes_refl: "fold_changes p p"
proof -
  have "p = p\<lparr>pt_policy := pt_policy p, pt_ruling := pt_ruling p\<rparr>" by simp
  moreover have "case pt_ruling p of None \<Rightarrow> True | Some r1 \<Rightarrow> \<exists>r0 opt. pt_ruling p = Some r0 \<and> r1 = r0\<lparr>ru_option := opt\<rparr>"
  proof (cases "pt_ruling p")
    case (Some r)
    have "r = r\<lparr>ru_option := ru_option r\<rparr>" by simp
    then show ?thesis unfolding Some option.case by blast
  qed simp
  ultimately show ?thesis unfolding fold_changes_def by blast
qed

interpretation minimal: policy_laws minimal_policy
  by unfold_locales (simp_all add: minimal_policy_def fold_changes_refl)

subsection \<open>A decided point is final\<close>

lemma decision_steps_append: "decision_steps pol (xs @ ys) s = Option.bind (decision_steps pol xs s) (decision_steps pol ys)"
  by (induction xs arbitrary: s) (auto split: option.splits)

lemma decision_step_final:
  assumes "decision_step pol it (out, pos) = Some (out', pos')"
  shows "length out \<le> length out' \<and> (\<forall>i < length out. pt_decided_at (out ! i) \<noteq> 0 \<longrightarrow> out' ! i = out ! i)"
proof (cases "it_decision_event it")
  case (Some e)
  consider (skip) "out' = out" | (new) "out' = out @ [opened_point it e]"
    | (move) i d where "out' = out[i := d]" "moved_point pol it e (out ! i) = Some d"
    using assms Some by (auto simp: decision_step_def split: if_splits option.splits)
  then show ?thesis
  proof cases
    case (move i d)
    then have "pt_decided_at (out ! i) \<noteq> 0 \<Longrightarrow> d = out ! i" by (simp add: moved_point_def)
    then have "out' ! j = out ! j" if "j < length out" "pt_decided_at (out ! j) \<noteq> 0" for j
      using move(1) that by (cases "j = i") auto
    then show ?thesis using move(1) by simp
  qed (simp_all add: nth_append)
qed (use assms in \<open>simp add: decision_step_def\<close>)

lemma decision_steps_final:
  "decision_steps pol its s = Some s' \<Longrightarrow> length (fst s) \<le> length (fst s')
    \<and> (\<forall>i < length (fst s). pt_decided_at (fst s ! i) \<noteq> 0 \<longrightarrow> fst s' ! i = fst s ! i)"
proof (induction its arbitrary: s)
  case (Cons it its)
  then obtain s1 where s1: "decision_step pol it s = Some s1" "decision_steps pol its s1 = Some s'" by (auto split: option.splits)
  have a: "length (fst s) \<le> length (fst s1) \<and> (\<forall>i < length (fst s). pt_decided_at (fst s ! i) \<noteq> 0 \<longrightarrow> fst s1 ! i = fst s ! i)"
    using decision_step_final [of pol it "fst s" "snd s" "fst s1" "snd s1"] s1(1) by simp
  show ?case using a Cons.IH [OF s1(2)] by auto
qed simp

text \<open>
  C12. A point that is decided at a moment is the same point, at the same place, for any longer log and at
  any later or earlier moment: no ruling, ratification, answer or deadline moves it, whatever the policy.
\<close>

theorem decided_point_is_final:
  assumes "points_at before now p = Some ds" and "i < length ds" and "\<not> pending (ds ! i)" and "points_at (before @ after) later p = Some ds'"
  shows "i < length ds' \<and> ds' ! i = ds ! i"
proof -
  let ?pol = "policy_or_default p"
  obtain out pos where o': "decision_steps ?pol before ([], []) = Some (out, pos)" "ds = map (settle_point ?pol now) out"
    using assms(1) by (auto simp: points_at_def Let_def)
  obtain out' pos' where o2: "decision_steps ?pol after (out, pos) = Some (out', pos')" "ds' = map (settle_point ?pol later) out'"
    using assms(4) o'(1) by (auto simp: points_at_def Let_def decision_steps_append)
  have i: "i < length out" "pt_decided_at (out ! i) \<noteq> 0" using assms(2,3) o'(2) settle_status by (auto simp: pending_def)
  then have "i < length out'" "out' ! i = out ! i" using decision_steps_final [OF o2(1)] by auto
  then show ?thesis using i o'(2) o2(2) settle_decided by simp
qed

definition decision_item :: "string \<Rightarrow> time \<Rightarrow> decision_event \<Rightarrow> item" where
  "decision_item i t e = \<lparr>it_id = i, it_type = ''decision_point'', it_target = ''decision.'' @ de_op e, it_status = ''accepted'', it_flow = [],
     it_flow_event = None, it_decision_event = Some e, it_decision = None, it_recipient = [], it_data = None, it_produced_by = [],
     it_derived_from = [], it_supersedes = [], it_execution = [], it_created_at = t\<rparr>"

definition no_event :: decision_event where
  "no_event = \<lparr>de_op = [], de_point = [], de_question = [], de_options = [], de_criteria = [], de_policy = None, de_outcome = [], de_option = [],
     de_confidence = 0, de_justification = [], de_questions = [], de_human = False, de_question_id = [], de_answer = [], de_process = [],
     de_accept = False, de_comment = [], de_by = [], de_role = []\<rparr>"

definition rule_event :: "string \<Rightarrow> string \<Rightarrow> string \<Rightarrow> decision_event" where
  "rule_event point outcome opt = no_event\<lparr>de_op := ''rule'', de_point := point, de_outcome := outcome, de_option := opt, de_by := ''bob''\<rparr>"

definition demo_point_log :: "item list" where
  "demo_point_log = [decision_item ''p'' 1 (no_event\<lparr>de_op := ''open'', de_question := ''which?'', de_options := [''a'', ''b'']\<rparr>),
     decision_item ''r'' 2 (rule_event ''p'' ''decided'' ''a'')]"

theorem decided_point_is_final_witness:
  "\<exists>ds ds'. points_at demo_point_log 3 None = Some ds \<and> points_at (demo_point_log @ [decision_item ''s'' 4 (rule_event ''p'' ''decided'' ''b'')]) 9 None = Some ds'
    \<and> ds' ! 0 = ds ! 0 \<and> map (\<lambda>d. (pt_status d, pt_option d)) ds' = [(''decided'', ''a'')]"
proof -
  let ?after = "[decision_item ''s'' 4 (rule_event ''p'' ''decided'' ''b'')]"
  have e: "map_option (map (\<lambda>d. (pt_status d, pt_option d))) (points_at demo_point_log 3 None) = Some [(''decided'', ''a'')]"
    "map_option (map (\<lambda>d. (pt_status d, pt_option d))) (points_at (demo_point_log @ ?after) 9 None) = Some [(''decided'', ''a'')]" by code_simp+
  obtain ds where ds: "points_at demo_point_log 3 None = Some ds" "map (\<lambda>d. (pt_status d, pt_option d)) ds = [(''decided'', ''a'')]" using e(1) by auto
  obtain ds' where ds': "points_at (demo_point_log @ ?after) 9 None = Some ds'" "map (\<lambda>d. (pt_status d, pt_option d)) ds' = [(''decided'', ''a'')]" using e(2) by auto
  have i: "0 < length ds" "\<not> pending (ds ! 0)" using ds(2) by (auto simp: pending_def)
  have "ds' ! 0 = ds ! 0" using decided_point_is_final [OF ds(1) i ds'(1)] by blast
  then show ?thesis using ds(1) ds' by (intro exI [of _ ds] exI [of _ ds'] conjI)
qed

end
