(* ===== verification/Gotime.thy ===== *)
theory Gotime
  imports Float64 Lnk
begin

text \<open>
  What the program uses of Go's package time: the text of an instant (RFC 3339 with nanoseconds, in UTC)
  and the durations read from text. An instant is its nanoseconds since 0001-01-01T00:00:00Z, a duration its
  nanoseconds. The parser reads the forms Format writes, with an offset; Go's also takes an hour of one digit.
\<close>

subsection \<open>Calendar\<close>

definition civil :: "int \<Rightarrow> int \<times> int \<times> int" where
  "civil days = (let z = days + 306; era = z div 146097; doe = z mod 146097;
     yoe = (doe - doe div 1460 + doe div 36524 - doe div 146096) div 365;
     doy = doe - (365 * yoe + yoe div 4 - yoe div 100); mp = (5 * doy + 2) div 153;
     d = doy - (153 * mp + 2) div 5 + 1; m = (if mp < 10 then mp + 3 else mp - 9)
     in (yoe + era * 400 + (if m \<le> 2 then 1 else 0), m, d))"

definition days_of :: "int \<Rightarrow> int \<Rightarrow> int \<Rightarrow> int" where
  "days_of y m d = (let y1 = (if m \<le> 2 then y - 1 else y); era = y1 div 400; yoe = y1 mod 400;
     doy = (153 * (if m > 2 then m - 3 else m + 9) + 2) div 5 + d - 1
     in era * 146097 + yoe * 365 + yoe div 4 - yoe div 100 + doy - 306)"

definition leap :: "int \<Rightarrow> bool" where
  "leap y \<longleftrightarrow> y mod 4 = 0 \<and> (y mod 100 \<noteq> 0 \<or> y mod 400 = 0)"

definition month_days :: "int \<Rightarrow> int \<Rightarrow> int" where
  "month_days y m = (if m = 2 then if leap y then 29 else 28 else if m = 4 \<or> m = 6 \<or> m = 9 \<or> m = 11 then 30 else 31)"

subsection \<open>Instants in text\<close>

function int_text :: "int \<Rightarrow> string" where
  "int_text n = (if n < 10 then [char_of (48 + n)] else int_text (n div 10) @ [char_of (48 + n mod 10)])"
  by pat_completeness auto
termination
  by (relation "measure nat") auto

declare int_text.simps [simp del]

definition digits_int :: "string \<Rightarrow> int" where
  "digits_int s = foldl (\<lambda>n c. 10 * n + (of_char c - 48)) 0 s"

definition padded :: "nat \<Rightarrow> int \<Rightarrow> string" where
  "padded w n = (let s = int_text n in replicate (w - length s) (CHR ''0'') @ s)"

definition fraction_text :: "int \<Rightarrow> string" where
  "fraction_text ns = (if ns = 0 then [] else CHR ''.'' # rev (dropWhile (\<lambda>c. c = CHR ''0'') (rev (padded 9 ns))))"

definition rfc3339 :: "int \<Rightarrow> string" where
  "rfc3339 t = (let s = t div 1000000000; (y, m, d) = civil (s div 86400); r = s mod 86400 in
     padded 4 y @ ''-'' @ padded 2 m @ ''-'' @ padded 2 d @ ''T'' @ padded 2 (r div 3600) @ '':'' @ padded 2 (r div 60 mod 60)
       @ '':'' @ padded 2 (r mod 60) @ fraction_text (t mod 1000000000) @ ''Z'')"

definition number_of :: "nat \<Rightarrow> string \<Rightarrow> (int \<times> string) option" where
  "number_of w s = (if length s < w \<or> \<not> list_all is_digit (take w s) then None else Some (digits_int (take w s), drop w s))"

definition skip_char :: "char \<Rightarrow> string \<Rightarrow> string option" where
  "skip_char c s = (case s of [] \<Rightarrow> None | x # xs \<Rightarrow> if x = c then Some xs else None)"

definition field :: "nat \<Rightarrow> char list \<Rightarrow> string \<Rightarrow> (int \<times> string) option" where
  "field w sep s = Option.bind (case sep of [] \<Rightarrow> Some s | c # _ \<Rightarrow> skip_char c s) (number_of w)"

definition fraction_of :: "string \<Rightarrow> (int \<times> string) option" where
  "fraction_of s = (case s of c # cs \<Rightarrow>
       if c = CHR ''.'' \<or> c = CHR '','' then
         (let ds = takeWhile is_digit cs; k = take 9 ds in
          if ds = [] then None else Some (digits_int k * 10 ^ (9 - length k), dropWhile is_digit cs))
       else Some (0, s)
     | [] \<Rightarrow> Some (0, s))"

definition offset_of :: "string \<Rightarrow> int option" where
  "offset_of s = (if s = ''Z'' then Some 0
     else case s of [] \<Rightarrow> None
     | c # cs \<Rightarrow> if c \<noteq> CHR ''+'' \<and> c \<noteq> CHR ''-'' then None
         else (case field 2 [] cs of None \<Rightarrow> None
           | Some (h, s1) \<Rightarrow> (case field 2 '':'' s1 of None \<Rightarrow> None
             | Some (m, s2) \<Rightarrow> if s2 \<noteq> [] \<or> h > 24 \<or> m > 60 then None
                 else Some ((if c = CHR ''-'' then - 1 else 1) * (h * 3600 + m * 60)))))"

definition parse_rfc3339 :: "string \<Rightarrow> int option" where
  "parse_rfc3339 s0 = (case field 4 [] s0 of None \<Rightarrow> None | Some (y, s1) \<Rightarrow>
     (case field 2 ''-'' s1 of None \<Rightarrow> None | Some (m, s2) \<Rightarrow>
     (case field 2 ''-'' s2 of None \<Rightarrow> None | Some (d, s3) \<Rightarrow>
     (case field 2 ''T'' s3 of None \<Rightarrow> None | Some (h, s4) \<Rightarrow>
     (case field 2 '':'' s4 of None \<Rightarrow> None | Some (mi, s5) \<Rightarrow>
     (case field 2 '':'' s5 of None \<Rightarrow> None | Some (sec, s6) \<Rightarrow>
     (case fraction_of s6 of None \<Rightarrow> None | Some (ns, s7) \<Rightarrow>
     (case offset_of s7 of None \<Rightarrow> None | Some off \<Rightarrow>
       if m < 1 \<or> 12 < m \<or> d < 1 \<or> month_days y m < d \<or> 23 < h \<or> 59 < mi \<or> 59 < sec then None
       else Some ((days_of y m d * 86400 + h * 3600 + mi * 60 + sec - off) * 1000000000 + ns)))))))))"

subsection \<open>Durations in text\<close>

definition units :: "(string \<times> int) list" where
  "units = [(''ns'', 1), (''us'', 1000), ([CHR 0xC2, CHR 0xB5, CHR ''s''], 1000), ([CHR 0xCE, CHR 0xBC, CHR ''s''], 1000),
     (''ms'', 1000000), (''s'', 1000000000), (''m'', 60000000000), (''h'', 3600000000000)]"

text \<open>The digits of a fraction are read until their value would overflow.\<close>

fun leading_fraction :: "int \<Rightarrow> nat \<Rightarrow> string \<Rightarrow> int \<times> nat" where
  "leading_fraction x k [] = (x, k)"
| "leading_fraction x k (c # cs) = (if x > (2 ^ 63 - 1) div 10 then (x, k)
     else let y = x * 10 + (of_char c - 48) in if y > 2 ^ 63 then (x, k) else leading_fraction y (k + 1) cs)"

definition fraction_ns :: "int \<Rightarrow> nat \<Rightarrow> int \<Rightarrow> int" where
  "fraction_ns x k u = \<lfloor>round64 (round64 (of_int x) * round64 (of_int u / round64 (10 ^ k)))\<rfloor>"

text \<open>The next number and unit: its digits, those of its fraction, the unit and the rest.\<close>

definition duration_part :: "string \<Rightarrow> string \<times> string \<times> string \<times> string" where
  "duration_part s = (let ds = takeWhile is_digit s; s1 = dropWhile is_digit s; dot = (s1 \<noteq> [] \<and> hd s1 = CHR ''.'');
       fs = (if dot then takeWhile is_digit (tl s1) else []); s2 = (if dot then dropWhile is_digit (tl s1) else s1)
     in (ds, fs, takeWhile (\<lambda>c. c \<noteq> CHR ''.'' \<and> \<not> is_digit c) s2, dropWhile (\<lambda>c. c \<noteq> CHR ''.'' \<and> \<not> is_digit c) s2))"

lemma duration_part_less:
  assumes "duration_part s = (ds, fs, uname, s3)" and "uname \<noteq> []"
  shows "length s3 < length s"
proof -
  define s1 where "s1 = dropWhile is_digit s"
  define s2 where "s2 = (if s1 \<noteq> [] \<and> hd s1 = CHR ''.'' then dropWhile is_digit (tl s1) else s1)"
  have u: "uname = takeWhile (\<lambda>c. c \<noteq> CHR ''.'' \<and> \<not> is_digit c) s2" "s3 = dropWhile (\<lambda>c. c \<noteq> CHR ''.'' \<and> \<not> is_digit c) s2"
    using assms(1) unfolding duration_part_def Let_def s1_def [symmetric] s2_def [symmetric] by simp_all
  have "length s1 \<le> length s" unfolding s1_def by (rule length_dropWhile_le)
  moreover have "length s2 \<le> length s1" unfolding s2_def using length_dropWhile_le [of is_digit "tl s1"] by (cases s1) auto
  moreover have "length s2 = length uname + length s3" unfolding u by (metis length_append takeWhile_dropWhile_id)
  ultimately show ?thesis using assms(2) by (cases uname) auto
qed

function duration_parts :: "int \<Rightarrow> string \<Rightarrow> int option" where
  "duration_parts d s = (if s = [] then Some d
     else if \<not> (hd s = CHR ''.'' \<or> is_digit (hd s)) then None
     else (case duration_part s of (ds, fs, uname, s3) \<Rightarrow>
       if digits_int ds > 2 ^ 63 \<or> (ds = [] \<and> fs = []) \<or> uname = [] then None
       else (case map_of units uname of None \<Rightarrow> None
         | Some u \<Rightarrow> if digits_int ds > 2 ^ 63 div u then None
             else (case leading_fraction 0 0 fs of (f, k) \<Rightarrow>
               let w = digits_int ds * u + (if f > 0 then fraction_ns f k u else 0)
               in if w > 2 ^ 63 \<or> d + w > 2 ^ 63 then None else duration_parts (d + w) s3))))"
  by pat_completeness auto
termination
  by (relation "measure (length \<circ> snd)") (auto dest: duration_part_less [OF sym])

declare duration_parts.simps [simp del]

definition parse_duration :: "string \<Rightarrow> int option" where
  "parse_duration s = (let neg = (s \<noteq> [] \<and> hd s = CHR ''-''); b = (if s \<noteq> [] \<and> (hd s = CHR ''-'' \<or> hd s = CHR ''+'') then tl s else s)
     in if b = ''0'' then Some 0 else if b = [] then None
        else (case duration_parts 0 b of None \<Rightarrow> None
          | Some d \<Rightarrow> if neg then Some (- d) else if d > 2 ^ 63 - 1 then None else Some d))"

end
