(* ===== verification/Rulings.thy ===== *)
theory Rulings
  imports Decisions Gotime
begin

text \<open>
  contracts/decision/decision.go: the policy of the decision points, who decides, how sure an agent must
  be, how many rulings may fail, by when, and the boards with their votes.
\<close>

subsection \<open>Policy values\<close>

text \<open>A number of the values, as a float64; absent is 0, what is not a number an error.\<close>

definition number_value :: "props \<Rightarrow> string \<Rightarrow> rat option" where
  "number_value m k = (case pget m k of None \<Rightarrow> Some 0 | Some GNil \<Rightarrow> Some 0
     | Some (GFloat q) \<Rightarrow> Some q | Some (GInt n) \<Rightarrow> Some (round64 (of_int n)) | _ \<Rightarrow> None)"

definition number_or_0 :: "props \<Rightarrow> string \<Rightarrow> rat" where
  "number_or_0 m k = (case number_value m k of None \<Rightarrow> 0 | Some q \<Rightarrow> q)"

definition trunc :: "rat \<Rightarrow> int" where
  "trunc q = (if q < 0 then \<lceil>q\<rceil> else \<lfloor>q\<rfloor>)"

definition role_names :: "gval list \<Rightarrow> string list option" where
  "role_names vs = those (map (\<lambda>v. case as_str v of Some s \<Rightarrow> if s = [] then None else Some s | None \<Rightarrow> None) vs)"

definition strings_value :: "props \<Rightarrow> string \<Rightarrow> string list option" where
  "strings_value m k = (case pget m k of None \<Rightarrow> Some [] | Some GNil \<Rightarrow> Some []
     | Some (GStrs ss) \<Rightarrow> Some ss | Some (GList vs) \<Rightarrow> role_names vs | _ \<Rightarrow> None)"

definition policy_keys :: "string list" where
  "policy_keys = [''decider'', ''threshold'', ''maxRounds'', ''maxDuration'', ''board'', ''rule'', ''chair'', ''gate'', ''transition'']"

definition default_threshold :: rat where
  "default_threshold = 7 / 10"

text \<open>Open, step by step; an error is None.\<close>

definition open_decider :: "props \<Rightarrow> string option" where
  "open_decider given = (case pget given ''decider'' of None \<Rightarrow> Some ''agent'' | Some GNil \<Rightarrow> Some ''agent''
     | Some (GStr s) \<Rightarrow> if s = [] \<or> s = ''agent'' then Some ''agent'' else if s = ''human'' then Some ''human'' else None
     | _ \<Rightarrow> None)"

definition open_threshold :: "props \<Rightarrow> rat option" where
  "open_threshold given = (case number_value given ''threshold'' of None \<Rightarrow> None
     | Some q \<Rightarrow> let t = (if q = 0 then round64 default_threshold else q) in if t < 0 \<or> 1 < t then None else Some t)"

definition open_rounds :: "props \<Rightarrow> int option" where
  "open_rounds given = map_option (\<lambda>q. trunc (if q = 0 then 3 else q)) (number_value given ''maxRounds'')"

text \<open>The text of the deadline, none, or an error.\<close>

definition open_deadline :: "props \<Rightarrow> time \<Rightarrow> string option option" where
  "open_deadline given now = (case pget given ''maxDuration'' of None \<Rightarrow> Some None | Some GNil \<Rightarrow> Some None
     | Some (GDur d) \<Rightarrow> Some (if 0 < d then Some (rfc3339 (now + d)) else None)
     | Some (GStr s) \<Rightarrow> if s = [] then Some None
         else map_option (\<lambda>d. if 0 < d then Some (rfc3339 (now + d)) else None) (parse_duration s)
     | _ \<Rightarrow> None)"

definition put_text :: "props \<Rightarrow> string \<Rightarrow> (string, gval) gomap \<Rightarrow> (string, gval) gomap" where
  "put_text given k out = (if str_of (pget given k) = [] then out else mput k (GStr (str_of (pget given k))) out)"

definition open_board :: "props \<Rightarrow> string list \<Rightarrow> (string, gval) gomap \<Rightarrow> (string, gval) gomap option" where
  "open_board given board out = (if board \<noteq> [] then
       (let out1 = mput ''decider'' (GStr ''human'') (mput ''board'' (GStrs board) out) in
        case pget given ''rule'' of None \<Rightarrow> Some (mput ''rule'' (GStr ''unanimity'') out1)
          | Some GNil \<Rightarrow> Some (mput ''rule'' (GStr ''unanimity'') out1)
          | Some (GStr r) \<Rightarrow> if r = [] then Some (mput ''rule'' (GStr ''unanimity'') out1)
              else if r \<in> set [''unanimity'', ''majority'', ''consent''] then Some (mput ''rule'' (GStr r) out1) else None
          | _ \<Rightarrow> None)
     else if str_of (pget given ''rule'') \<noteq> [] then None else Some out)"

definition policy_open :: "props \<Rightarrow> time \<Rightarrow> props option" where
  "policy_open given now = (if \<not> list_all (\<lambda>k. k \<in> set policy_keys) (mkeys (pmap given)) then None
     else case open_decider given of None \<Rightarrow> None | Some dec \<Rightarrow>
       (case open_threshold given of None \<Rightarrow> None | Some t \<Rightarrow>
       (case open_rounds given of None \<Rightarrow> None | Some rounds \<Rightarrow>
       (case open_deadline given now of None \<Rightarrow> None | Some deadline \<Rightarrow>
         let out = mput ''maxRounds'' (GInt rounds) (mput ''threshold'' (GFloat t) (mput ''decider'' (GStr dec) []));
             out1 = (case deadline of None \<Rightarrow> out | Some s \<Rightarrow> mput ''deadline'' (GStr s) out);
             out2 = put_text given ''chair'' (put_text given ''transition'' (put_text given ''gate'' out1))
         in (case strings_value given ''board'' of None \<Rightarrow> None
           | Some board \<Rightarrow> map_option Some (open_board given board out2))))))"

subsection \<open>Boards\<close>

definition board_of :: "point \<Rightarrow> string list" where
  "board_of p = (case strings_value (pt_policy p) ''board'' of None \<Rightarrow> [] | Some b \<Rightarrow> b)"

definition rule_of :: "point \<Rightarrow> string" where
  "rule_of p = (if str_of (pget (pt_policy p) ''rule'') \<noteq> [] then str_of (pget (pt_policy p) ''rule'') else ''unanimity'')"

definition chair_of :: "point \<Rightarrow> string" where
  "chair_of p = str_of (pget (pt_policy p) ''chair'')"

definition votes_of :: "point \<Rightarrow> (string, string) gomap" where
  "votes_of p = (case pget (pt_policy p) ''votes'' of Some (GStrMap m) \<Rightarrow> mcopy [] m
     | Some (GMap m) \<Rightarrow> foldr (\<lambda>(k, v). case v of GStr s \<Rightarrow> mput k s | _ \<Rightarrow> id) m []
     | _ \<Rightarrow> [])"

definition vote_of :: "(string, string) gomap \<Rightarrow> string \<Rightarrow> string" where
  "vote_of votes role = (case map_of votes role of None \<Rightarrow> [] | Some o' \<Rightarrow> o')"

definition vote_count :: "string list \<Rightarrow> (string, string) gomap \<Rightarrow> (string, nat) gomap" where
  "vote_count board votes = foldl (\<lambda>m role. let o' = vote_of votes role in
     if o' = [] then m else mput o' ((case map_of m o' of None \<Rightarrow> 0 | Some n \<Rightarrow> n) + 1) m) [] board"

text \<open>The options of a tally in the order a loop over the map takes them: a parameter, that the result does not depend on.\<close>

definition majority :: "string list \<Rightarrow> nat \<Rightarrow> (string, nat) gomap \<Rightarrow> string option" where
  "majority order seats tally = find (\<lambda>o'. (case map_of tally o' of None \<Rightarrow> False | Some n \<Rightarrow> seats < 2 * n) \<and> o' \<noteq> ''abstain'') order"

definition board_settles :: "string \<Rightarrow> string list \<Rightarrow> (string, string) gomap \<Rightarrow> string \<Rightarrow> string option" where
  "board_settles rule board votes o' = (let tally = vote_count board votes in
     if rule = ''majority'' then majority (mkeys tally) (length board) tally
     else if rule = ''consent'' then (if o' = ''no_go'' then Some ''no_go'' else if length board \<le> msize votes then Some ''go'' else None)
     else if o' \<noteq> ''go'' then Some o'
     else if (case map_of tally ''go'' of None \<Rightarrow> 0 | Some n \<Rightarrow> n) = length board then Some ''go''
     else None)"

definition board_ruling :: "point \<Rightarrow> string list \<Rightarrow> decision_event \<Rightarrow> point \<times> string option" where
  "board_ruling p board ev = (let votes = votes_of p in
     if chair_of p \<noteq> [] \<and> de_role ev = chair_of p \<and> length board \<le> msize votes then (p, Some (de_option ev))
     else if de_role ev \<notin> set board \<or> vote_of votes (de_role ev) \<noteq> [] then (p, None)
     else let votes1 = mput (de_role ev) (de_option ev) votes;
              p1 = p\<lparr>pt_policy := Some (mput ''votes'' (GStrMap votes1) (pmap (pt_policy p)))\<rparr>
       in (p1, board_settles (rule_of p1) board votes1 (de_option ev)))"

definition fold_board :: "point \<Rightarrow> string list \<Rightarrow> decision_event \<Rightarrow> point \<times> bool" where
  "fold_board p board ev = (case board_ruling p board ev of
     (p1, None) \<Rightarrow> (p1\<lparr>pt_ruling := None\<rparr>, False)
   | (p1, Some opt) \<Rightarrow> (p1\<lparr>pt_ruling := map_option (\<lambda>r. r\<lparr>ru_option := opt\<rparr>) (pt_ruling p1)\<rparr>, True))"

subsection \<open>Rounds and the fold\<close>

definition rounds_of :: "point \<Rightarrow> int" where
  "rounds_of p = trunc (number_or_0 (pt_policy p) ''rounds'')"

definition max_rounds :: "point \<Rightarrow> int" where
  "max_rounds p = trunc (number_or_0 (pt_policy p) ''maxRounds'')"

definition threshold_of :: "point \<Rightarrow> rat" where
  "threshold_of p = number_or_0 (pt_policy p) ''threshold''"

definition decider_of :: "point \<Rightarrow> string" where
  "decider_of p = (if str_of (pget (pt_policy p) ''decider'') \<noteq> [] then str_of (pget (pt_policy p) ''decider'') else ''agent'')"

definition fail_round :: "point \<Rightarrow> point" where
  "fail_round p = p\<lparr>pt_policy := Some (mput ''rounds'' (GInt (rounds_of p + 1)) (pmap (pt_policy p)))\<rparr>"

definition policy_fold :: "point \<Rightarrow> decision_event \<Rightarrow> point \<times> bool" where
  "policy_fold p ev =
     (if board_of p \<noteq> [] \<and> de_op ev = ''rule'' \<and> de_outcome ev = ''decided'' then fold_board p (board_of p) ev
      else if de_op ev = ''rule'' then
        (if de_outcome ev = ''undecidable'' then (fail_round p, False) else (p, de_human ev \<or> threshold_of p \<le> de_confidence ev))
      else if de_op ev = ''ratify'' then (if de_accept ev then (p, True) else (fail_round p, False))
      else (p, False))"

definition policy_reserve :: "point \<Rightarrow> time \<Rightarrow> bool \<times> string" where
  "policy_reserve p now = (let human = (str_of (pget (pt_policy p) ''decider'') = ''human'') in
     if 0 < max_rounds p \<and> max_rounds p \<le> rounds_of p then (human, int_text (rounds_of p) @ '' rounds without a decision'')
     else (let s = str_of (pget (pt_policy p) ''deadline'') in
       (case (if s = [] then None else parse_rfc3339 s) of
          None \<Rightarrow> (human, [])
        | Some deadline \<Rightarrow> if deadline < now
            then (human, ''past the deadline '' @ rfc3339 (deadline div 1000000000 * 1000000000)) else (human, []))))"

definition board_policy :: decision_policy where
  "board_policy = \<lparr>po_open = policy_open, po_fold = policy_fold, po_reserve = policy_reserve\<rparr>"

definition seats_of :: "point \<Rightarrow> string list" where
  "seats_of p = board_of p"

subsection \<open>The laws of the policy\<close>

lemma fold_changes_intro:
  "p' = p\<lparr>pt_policy := v, pt_ruling := r\<rparr> \<Longrightarrow> (\<And>r1. r = Some r1 \<Longrightarrow> \<exists>r0 opt. pt_ruling p = Some r0 \<and> r1 = r0\<lparr>ru_option := opt\<rparr>)
    \<Longrightarrow> fold_changes p p'"
  unfolding fold_changes_def by (rule exI [of _ v], rule exI [of _ r], cases r) simp_all

lemma keep_option: "r = r\<lparr>ru_option := ru_option r\<rparr>" for r :: ruling
  by simp

lemma board_ruling_point: "\<exists>v. fst (board_ruling p board ev) = p\<lparr>pt_policy := v\<rparr>"
proof -
  have "\<exists>v. p = p\<lparr>pt_policy := v\<rparr>" by (rule exI [of _ "pt_policy p"]) simp
  then show ?thesis by (auto simp: board_ruling_def Let_def)
qed

lemma policy_fold_changes: "fold_changes p (fst (policy_fold p ev))"
proof -
  have fail: "fold_changes p (fail_round p)"
    by (rule fold_changes_intro [where r = "pt_ruling p"]) (auto simp: fail_round_def intro: keep_option)
  have board: "fold_changes p (fst (fold_board p b ev))" for b
  proof -
    obtain p1 o' where r: "board_ruling p b ev = (p1, o')" by fastforce
    obtain v where v: "p1 = p\<lparr>pt_policy := v\<rparr>" using board_ruling_point [of p b ev] r by auto
    show ?thesis
    proof (cases o')
      case None
      then show ?thesis using r v by (intro fold_changes_intro [where r = None and v = v]) (simp_all add: fold_board_def)
    next
      case (Some opt)
      have "fst (fold_board p b ev) = p\<lparr>pt_policy := v, pt_ruling := map_option (\<lambda>r. r\<lparr>ru_option := opt\<rparr>) (pt_ruling p)\<rparr>"
        using r v Some by (simp add: fold_board_def)
      then show ?thesis by (rule fold_changes_intro) auto
    qed
  qed
  show ?thesis using fail board fold_changes_refl [of p] by (simp add: policy_fold_def)
qed

lemma policy_fold_settled: "snd (policy_fold p ev) \<Longrightarrow> pt_ruling p \<noteq> None \<Longrightarrow> pt_ruling (fst (policy_fold p ev)) \<noteq> None"
proof -
  assume s: "snd (policy_fold p ev)" and r: "pt_ruling p \<noteq> None"
  show ?thesis
  proof (cases "board_of p \<noteq> [] \<and> de_op ev = ''rule'' \<and> de_outcome ev = ''decided''")
    case True
    obtain p1 o' where b: "board_ruling p (board_of p) ev = (p1, o')" by fastforce
    obtain v where "p1 = p\<lparr>pt_policy := v\<rparr>" using board_ruling_point [of p "board_of p" ev] b by auto
    then show ?thesis using s r True b by (cases o') (auto simp: policy_fold_def fold_board_def)
  next
    case False
    then have "fst (policy_fold p ev) = p" using s by (auto simp: policy_fold_def split: if_splits)
    then show ?thesis using r by simp
  qed
qed

interpretation boards: policy_laws board_policy
  by unfold_locales (simp_all add: board_policy_def policy_fold_changes policy_fold_settled)

text \<open>
  C29. The replay under the policy of the platform never fails, and each point it gives is pending or was
  decided by the ruling it holds: its option, its author and its time are those of the ruling.
\<close>

theorem replay_decides_by_ruling:
  "\<exists>ds. points_at its now (Some board_policy) = Some ds \<and> list_all (\<lambda>d. pending d \<or> ruled d) ds"
proof -
  obtain ds where "points_at its now (Some board_policy) = Some ds" using boards.points_total by blast
  then show ?thesis using boards.points_ruled by blast
qed

subsection \<open>The votes of a board\<close>

definition seats_for :: "string list \<Rightarrow> (string, string) gomap \<Rightarrow> string \<Rightarrow> nat" where
  "seats_for board votes o' = length (filter (\<lambda>role. vote_of votes role = o') board)"

lemma vote_count_spec:
  assumes "o' \<noteq> []"
  shows "map_of (vote_count board votes) o' = (let n = seats_for board votes o' in if n = 0 then None else Some n)"
proof (induction board rule: rev_induct)
  case Nil
  then show ?case by (simp add: vote_count_def seats_for_def)
next
  case (snoc role board)
  have "vote_count (board @ [role]) votes = (let v = vote_of votes role; m = vote_count board votes in
     if v = [] then m else mput v ((case map_of m v of None \<Rightarrow> 0 | Some n \<Rightarrow> n) + 1) m)"
    by (simp add: vote_count_def Let_def)
  then show ?case using snoc assms by (auto simp: Let_def seats_for_def)
qed

lemma vote_count_keys: "map_of (vote_count board votes) [] = None"
  by (induction board rule: rev_induct) (auto simp: vote_count_def Let_def)

lemma seats_disjoint: "o' \<noteq> p \<Longrightarrow> seats_for board votes o' + seats_for board votes p \<le> length board"
  by (induction board) (auto simp: seats_for_def)

text \<open>An option that more than half of the seats rule is the only one.\<close>

lemma majority_unique:
  assumes "set order = dom (map_of (vote_count board votes))"
  shows "majority order (length board) (vote_count board votes) = Some o' \<longleftrightarrow> o' \<noteq> [] \<and> o' \<noteq> ''abstain'' \<and> length board < 2 * seats_for board votes o'"
proof -
  let ?p = "\<lambda>o'. (case map_of (vote_count board votes) o' of None \<Rightarrow> False | Some n \<Rightarrow> length board < 2 * n) \<and> o' \<noteq> ''abstain''"
  have p: "?p o' \<longleftrightarrow> o' \<noteq> [] \<and> o' \<noteq> ''abstain'' \<and> length board < 2 * seats_for board votes o'" for o'
    using vote_count_keys [of board votes] vote_count_spec [of o' board votes] by (cases "o' = []") (auto simp: Let_def)
  have uniq: "a = b" if "?p a" "?p b" for a b
    using that seats_disjoint [of a b board votes] unfolding p by (cases "a = b") auto
  have dom: "?p a \<Longrightarrow> a \<in> set order" for a using assms by (auto split: option.splits)
  have "majority order (length board) (vote_count board votes) = find ?p order" by (simp add: majority_def)
  moreover have "find ?p order = Some o' \<longleftrightarrow> ?p o'"
  proof
    assume "find ?p order = Some o'"
    then show "?p o'" by (auto simp: find_Some_iff)
  next
    assume o': "?p o'"
    then have "find ?p order \<noteq> None" using dom [OF o'] by (auto simp: find_None_iff)
    then obtain q where q: "find ?p order = Some q" by blast
    then have "?p q" by (auto simp: find_Some_iff)
    then show "find ?p order = Some o'" using uniq [OF _ o'] q by blast
  qed
  ultimately show ?thesis using p by simp
qed

text \<open>
  The loop that looks for a majority ranges over a map, in no order: in any order it finds the option
  that more than half of the seats rule, and none when there is none.
\<close>

theorem majority_any_order:
  assumes "set order = dom (map_of (vote_count board votes))"
  shows "majority order (length board) (vote_count board votes) = majority (mkeys (vote_count board votes)) (length board) (vote_count board votes)
     \<and> (majority order (length board) (vote_count board votes) = Some o')
       = (o' \<noteq> [] \<and> o' \<noteq> ''abstain'' \<and> length board < 2 * seats_for board votes o')"
proof -
  have "majority order (length board) (vote_count board votes) = Some q
      \<longleftrightarrow> majority (mkeys (vote_count board votes)) (length board) (vote_count board votes) = Some q" for q
    using majority_unique [OF assms] majority_unique [of "mkeys (vote_count board votes)" board votes] by simp
  then have "majority order (length board) (vote_count board votes) = majority (mkeys (vote_count board votes)) (length board) (vote_count board votes)"
    by (metis not_None_eq)
  then show ?thesis using majority_unique [OF assms] by simp
qed

definition demo_votes :: "(string, string) gomap" where
  "demo_votes = [(''dev'', ''go''), (''ops'', ''no_go''), (''qa'', ''go'')]"

theorem majority_any_order_witness:
  "set [''no_go'', ''go''] = dom (map_of (vote_count [''dev'', ''ops'', ''qa''] demo_votes))
   \<and> majority [''no_go'', ''go''] 3 (vote_count [''dev'', ''ops'', ''qa''] demo_votes) = Some ''go''"
proof -
  have k: "mkeys (vote_count [''dev'', ''ops'', ''qa''] demo_votes) = [''go'', ''no_go'']" by code_simp
  have "dom (map_of (vote_count [''dev'', ''ops'', ''qa''] demo_votes)) = set [''go'', ''no_go'']" unfolding k [symmetric] by simp
  then have d: "set [''no_go'', ''go''] = dom (map_of (vote_count [''dev'', ''ops'', ''qa''] demo_votes))" by auto
  have "seats_for [''dev'', ''ops'', ''qa''] demo_votes ''go'' = 2" by code_simp
  then show ?thesis using conjunct2 [OF majority_any_order [OF d, of "''go''"]] d by (simp add: numeral_3_eq_3)
qed

text \<open>What a ruling of a seat leaves: its vote recorded, once.\<close>

lemma board_votes:
  assumes "chair_of p = []" and "board_ruling p board ev = (p1, Some opt)"
  shows "de_role ev \<in> set board \<and> vote_of (votes_of p) (de_role ev) = [] \<and> map_of (votes_of p1) = map_of (mput (de_role ev) (de_option ev) (votes_of p))
    \<and> rule_of p1 = rule_of p \<and> board_settles (rule_of p) board (mput (de_role ev) (de_option ev) (votes_of p)) (de_option ev) = Some opt"
proof -
  define votes where "votes = mput (de_role ev) (de_option ev) (votes_of p)"
  define q where "q = p\<lparr>pt_policy := Some (mput ''votes'' (GStrMap votes) (pmap (pt_policy p)))\<rparr>"
  have ok: "de_role ev \<in> set board" "vote_of (votes_of p) (de_role ev) = []" "p1 = q" "board_settles (rule_of q) board votes (de_option ev) = Some opt"
    using assms by (auto simp: board_ruling_def Let_def votes_def q_def split: if_splits)
  have "pget (pt_policy q) ''rule'' = pget (pt_policy p) ''rule''" by (simp add: q_def pget_def)
  then have r: "rule_of q = rule_of p" by (simp add: rule_of_def)
  have "map_of (votes_of q) = map_of votes" by (simp add: votes_of_def q_def)
  then show ?thesis using ok r by (simp add: votes_def)
qed

lemma vote_of_cong: "map_of m = map_of m' \<Longrightarrow> vote_of m = vote_of m'"
  by (simp add: vote_of_def fun_eq_iff)

lemma seats_all: "seats_for board votes o' = length board \<Longrightarrow> role \<in> set board \<Longrightarrow> vote_of votes role = o'"
  using length_filter_less [of role board "\<lambda>r. vote_of votes r = o'"] by (auto simp: seats_for_def)

lemma seats_for_cong: "vote_of votes = vote_of votes' \<Longrightarrow> seats_for board votes o' = seats_for board votes' o'"
  by (simp add: seats_for_def)

text \<open>
  C16. A board without a chair settles a point only by the ruling of a seat of it that has not ruled yet,
  on an option that its rule gives: by unanimity, go when every seat ruled go and else the option the seat
  ruled; by majority, an option more than half of the seats ruled; by consent, no go when the seat ruled
  it and go when every seat ruled.
\<close>

theorem board_settles_by_rule:
  assumes "policy_fold p ev = (p', True)" and "pt_ruling p = Some r" and "board_of p \<noteq> []" and "chair_of p = []"
    and "de_op ev = ''rule''" and "de_outcome ev = ''decided''"
  shows "\<exists>opt. pt_ruling p' = Some (r\<lparr>ru_option := opt\<rparr>) \<and> de_role ev \<in> set (board_of p) \<and> vote_of (votes_of p) (de_role ev) = []
    \<and> vote_of (votes_of p') = (vote_of (votes_of p))(de_role ev := de_option ev)
    \<and> (if rule_of p = ''majority'' then opt \<noteq> ''abstain'' \<and> length (board_of p) < 2 * seats_for (board_of p) (votes_of p') opt
       else if rule_of p = ''consent'' then opt = (if de_option ev = ''no_go'' then ''no_go'' else ''go'')
         \<and> (de_option ev = ''no_go'' \<or> length (board_of p) \<le> msize (votes_of p'))
       else opt = de_option ev \<and> (opt \<noteq> ''go'' \<or> list_all (\<lambda>role. vote_of (votes_of p') role = ''go'') (board_of p)))"
proof -
  let ?b = "board_of p" and ?votes = "mput (de_role ev) (de_option ev) (votes_of p)"
  have f: "fold_board p ?b ev = (p', True)" using assms by (simp add: policy_fold_def)
  obtain p1 opt where r1: "board_ruling p ?b ev = (p1, Some opt)" "p' = p1\<lparr>pt_ruling := map_option (\<lambda>r. r\<lparr>ru_option := opt\<rparr>) (pt_ruling p1)\<rparr>"
    using f by (auto simp: fold_board_def split: prod.splits option.splits)
  obtain v where v: "p1 = p\<lparr>pt_policy := v\<rparr>" using board_ruling_point [of p ?b ev] r1(1) by auto
  note V = board_votes [OF assms(4) r1(1)]
  have vs: "map_of (votes_of p') = map_of ?votes" using V r1(2) by (simp add: votes_of_def)
  have vo: "vote_of (votes_of p') = vote_of ?votes" using vs by (rule vote_of_cong)
  have upd: "vote_of ?votes = (vote_of (votes_of p))(de_role ev := de_option ev)" by (simp add: vote_of_def fun_eq_iff)
  have size: "msize (votes_of p') = msize ?votes" using vs by (simp add: msize_card)
  have seats: "seats_for ?b (votes_of p') o' = seats_for ?b ?votes o'" for o' using vo by (rule seats_for_cong)
  have st: "board_settles (rule_of p) ?b ?votes (de_option ev) = Some opt" using V by blast
  have "if rule_of p = ''majority'' then opt \<noteq> ''abstain'' \<and> length ?b < 2 * seats_for ?b (votes_of p') opt
       else if rule_of p = ''consent'' then opt = (if de_option ev = ''no_go'' then ''no_go'' else ''go'')
         \<and> (de_option ev = ''no_go'' \<or> length ?b \<le> msize (votes_of p'))
       else opt = de_option ev \<and> (opt \<noteq> ''go'' \<or> list_all (\<lambda>role. vote_of (votes_of p') role = ''go'') ?b)"
  proof (cases "rule_of p = ''majority''")
    case True
    then have "majority (mkeys (vote_count ?b ?votes)) (length ?b) (vote_count ?b ?votes) = Some opt" using st by (simp add: board_settles_def Let_def)
    then show ?thesis using True majority_unique [of "mkeys (vote_count ?b ?votes)" ?b ?votes opt] seats by simp
  next
    case nm: False
    show ?thesis
    proof (cases "rule_of p = ''consent''")
      case True
      then show ?thesis using st nm size by (auto simp: board_settles_def Let_def split: if_splits)
    next
      case False
      have "opt = de_option ev \<and> (opt \<noteq> ''go'' \<or> seats_for ?b ?votes ''go'' = length ?b)"
        using st nm False vote_count_spec [of "''go''" ?b ?votes] by (auto simp: board_settles_def Let_def split: if_splits)
      then show ?thesis using nm False seats_all [of ?b ?votes "''go''"] vo by (auto simp: list_all_iff)
    qed
  qed
  moreover have "pt_ruling p' = Some (r\<lparr>ru_option := opt\<rparr>)" using r1(2) v assms(2) by simp
  ultimately show ?thesis using V vo upd by (intro exI [of _ opt]) simp
qed

definition board_point :: point where
  "board_point = (opened_point (decision_item ''p'' 1 no_event) no_event)\<lparr>pt_policy := Some [(''board'', GStrs [''dev'', ''qa'']),
     (''rule'', GStr ''unanimity''), (''votes'', GStrMap [(''dev'', ''go'')])],
     pt_ruling := Some (ruling_of (decision_item ''r'' 2 no_event) no_event)\<rparr>"

definition board_vote :: decision_event where
  "board_vote = (rule_event ''p'' ''decided'' ''go'')\<lparr>de_role := ''qa'', de_human := True\<rparr>"

theorem board_settles_by_rule_witness:
  "\<exists>p'. policy_fold board_point board_vote = (p', True) \<and> map_option ru_option (pt_ruling p') = Some ''go''
    \<and> list_all (\<lambda>role. vote_of (votes_of p') role = ''go'') [''dev'', ''qa'']"
proof -
  obtain p' where p': "policy_fold board_point board_vote = (p', snd (policy_fold board_point board_vote))" by (metis prod.collapse)
  have s: "snd (policy_fold board_point board_vote)" by code_simp
  then have f: "policy_fold board_point board_vote = (p', True)" using p' by simp
  have r: "pt_ruling board_point = Some (ruling_of (decision_item ''r'' 2 no_event) no_event)" by (simp add: board_point_def)
  have b: "board_of board_point = [''dev'', ''qa'']" by code_simp
  have c: "board_of board_point \<noteq> []" "chair_of board_point = []" "de_op board_vote = ''rule''" "de_outcome board_vote = ''decided''"
    "rule_of board_point = ''unanimity''" "de_option board_vote = ''go''" by code_simp+
  obtain opt where opt: "pt_ruling p' = Some ((ruling_of (decision_item ''r'' 2 no_event) no_event)\<lparr>ru_option := opt\<rparr>)"
    "opt = ''go''" "list_all (\<lambda>role. vote_of (votes_of p') role = ''go'') (board_of board_point)"
    using board_settles_by_rule [OF f r c(1-4)] unfolding c(5,6) by auto
  have "map_option ru_option (pt_ruling p') = Some ''go''" using opt(1,2) by simp
  then show ?thesis using f opt(3) unfolding b by blast
qed

subsection \<open>The values a point is opened with\<close>

lemma mput_get [simp]: "pget (Some (mput k v m)) j = (if j = k then Some v else map_of m j)"
  by simp

lemma put_text_other: "j \<noteq> k \<Longrightarrow> map_of (put_text given k out) j = map_of out j"
  by (simp add: put_text_def)

lemma open_decider_values: "open_decider given = Some d \<Longrightarrow> d = ''agent'' \<or> d = ''human''"
  by (auto simp: open_decider_def split: option.splits gval.splits if_splits)

lemma open_threshold_bounds: "open_threshold given = Some t \<Longrightarrow> 0 < t \<and> t \<le> 1"
proof -
  assume o': "open_threshold given = Some t"
  have pos: "0 < round64 default_threshold" by (simp add: default_threshold_def) code_simp
  obtain q where q: "number_value given ''threshold'' = Some q" "t = (if q = 0 then round64 default_threshold else q)" "\<not> (t < 0 \<or> 1 < t)"
    using o' by (auto simp: open_threshold_def Let_def split: option.splits if_splits)
  show ?thesis using q pos by (auto split: if_splits)
qed

lemma open_board_some:
  assumes "open_board given board out = Some m" and "board \<noteq> []"
  shows "\<exists>r. (r = ''unanimity'' \<or> r = ''majority'' \<or> r = ''consent'')
    \<and> m = mput ''rule'' (GStr r) (mput ''decider'' (GStr ''human'') (mput ''board'' (GStrs board) out))"
proof (cases "pget given ''rule''")
  case None
  then show ?thesis using assms by (auto simp: open_board_def)
next
  case (Some v)
  then show ?thesis using assms by (cases v) (auto simp: open_board_def Let_def split: if_splits)
qed

lemma open_board_values:
  assumes "open_board given board out = Some m"
  shows "(\<forall>k. k \<noteq> ''board'' \<and> k \<noteq> ''decider'' \<and> k \<noteq> ''rule'' \<longrightarrow> map_of m k = map_of out k)
    \<and> (if board = [] then m = out else map_of m ''board'' = Some (GStrs board) \<and> map_of m ''decider'' = Some (GStr ''human'')
       \<and> (\<exists>r. (r = ''unanimity'' \<or> r = ''majority'' \<or> r = ''consent'') \<and> map_of m ''rule'' = Some (GStr r)))"
proof (cases "board = []")
  case True
  then show ?thesis using assms by (simp add: open_board_def split: if_splits)
next
  case False
  obtain r where r: "r = ''unanimity'' \<or> r = ''majority'' \<or> r = ''consent''"
    "m = mput ''rule'' (GStr r) (mput ''decider'' (GStr ''human'') (mput ''board'' (GStrs board) out))"
    using open_board_some [OF assms False] by blast
  then have "map_of m ''rule'' = Some (GStr r)" "map_of m ''board'' = Some (GStrs board)" "map_of m ''decider'' = Some (GStr ''human'')" by simp_all
  then show ?thesis using False r by auto
qed

text \<open>
  A point opened with the values of the policy starts with sound ones: a threshold above 0 and at most
  1, a decider that is an agent or a person, no round nor vote yet, and a board only of people, with one of
  the three rules.
\<close>

theorem opened_values_sound:
  assumes "policy_open given now = Some v" and "pt_policy p = v"
  shows "0 < threshold_of p \<and> threshold_of p \<le> 1 \<and> (decider_of p = ''agent'' \<or> decider_of p = ''human'') \<and> rounds_of p = 0 \<and> votes_of p = []
    \<and> (board_of p = [] \<or> decider_of p = ''human'' \<and> (rule_of p = ''unanimity'' \<or> rule_of p = ''majority'' \<or> rule_of p = ''consent''))
    \<and> strings_value given ''board'' = Some (board_of p)"
proof -
  obtain dec t rounds deadline board m where o': "open_decider given = Some dec" "open_threshold given = Some t" "open_rounds given = Some rounds"
      "open_deadline given now = Some deadline" "strings_value given ''board'' = Some board" "v = Some m"
    and b: "open_board given board (put_text given ''chair'' (put_text given ''transition'' (put_text given ''gate''
        (case deadline of None \<Rightarrow> mput ''maxRounds'' (GInt rounds) (mput ''threshold'' (GFloat t) (mput ''decider'' (GStr dec) []))
          | Some s \<Rightarrow> mput ''deadline'' (GStr s) (mput ''maxRounds'' (GInt rounds) (mput ''threshold'' (GFloat t) (mput ''decider'' (GStr dec) []))))))) = Some m"
    using assms(1) unfolding policy_open_def Let_def by (auto split: if_splits option.splits)
  define out where "out = (case deadline of None \<Rightarrow> mput ''maxRounds'' (GInt rounds) (mput ''threshold'' (GFloat t) (mput ''decider'' (GStr dec) []))
          | Some s \<Rightarrow> mput ''deadline'' (GStr s) (mput ''maxRounds'' (GInt rounds) (mput ''threshold'' (GFloat t) (mput ''decider'' (GStr dec) []))))"
  have out: "map_of out ''threshold'' = Some (GFloat t)" "map_of out ''decider'' = Some (GStr dec)" "map_of out ''rounds'' = None"
    "map_of out ''votes'' = None" "map_of out ''board'' = None" "map_of out ''rule'' = None"
    by (simp_all add: out_def split: option.split)
  note B = open_board_values [OF b [folded out_def]]
  have keep: "map_of m k = map_of out k" if "k \<noteq> ''board'' \<and> k \<noteq> ''decider'' \<and> k \<noteq> ''rule'' \<and> k \<noteq> ''chair'' \<and> k \<noteq> ''transition'' \<and> k \<noteq> ''gate''" for k
    using B that by (simp add: put_text_other)
  have tx: "map_of (put_text given ''chair'' (put_text given ''transition'' (put_text given ''gate'' out))) k = map_of out k" if "k = ''decider'' \<or> k = ''board'' \<or> k = ''rule''" for k
    using that by (auto simp: put_text_other)
  have p: "pget (pt_policy p) = map_of m" using assms(2) o'(6) by (simp add: fun_eq_iff)
  have th: "threshold_of p = t" using keep [of "''threshold''"] out(1) by (simp add: threshold_of_def number_or_0_def number_value_def p)
  have rd: "rounds_of p = 0" using keep [of "''rounds''"] out(3) by (simp add: rounds_of_def number_or_0_def number_value_def p trunc_def)
  have vt: "votes_of p = []" using keep [of "''votes''"] out(4) by (simp add: votes_of_def p)
  have bd: "board_of p = board"
  proof (cases "board = []")
    case True
    then have "map_of m ''board'' = None" using B tx [of "''board''"] out(5) by simp
    then show ?thesis using True by (simp add: board_of_def strings_value_def p)
  next
    case False
    then show ?thesis using B by (simp add: board_of_def strings_value_def p)
  qed
  have dc: "decider_of p = (if board = [] then dec else ''human'')"
    using B tx [of "''decider''"] out(2) open_decider_values [OF o'(1)] by (auto simp: decider_of_def p)
  have rl: "rule_of p = ''unanimity'' \<or> rule_of p = ''majority'' \<or> rule_of p = ''consent''" if ne: "board \<noteq> []"
  proof -
    have "\<exists>r. (r = ''unanimity'' \<or> r = ''majority'' \<or> r = ''consent'') \<and> map_of m ''rule'' = Some (GStr r)"
      using conjunct2 [OF B] ne by (simp only: if_False)
    then obtain r where r: "r = ''unanimity'' \<or> r = ''majority'' \<or> r = ''consent''" "map_of m ''rule'' = Some (GStr r)" by blast
    have "r \<noteq> []" using r(1) by auto
    then have "rule_of p = r" using r(2) by (simp add: rule_of_def p)
    then show ?thesis using r(1) by simp
  qed
  have "board_of p = [] \<or> decider_of p = ''human'' \<and> (rule_of p = ''unanimity'' \<or> rule_of p = ''majority'' \<or> rule_of p = ''consent'')"
    using rl bd dc by (cases "board = []") simp_all
  moreover have "decider_of p = ''agent'' \<or> decider_of p = ''human''" using dc open_decider_values [OF o'(1)] by simp
  moreover have "0 < threshold_of p \<and> threshold_of p \<le> 1" using th open_threshold_bounds [OF o'(2)] by simp
  ultimately show ?thesis using rd vt bd o'(5) by blast
qed

definition demo_given :: props where
  "demo_given = Some [(''board'', GList [GStr ''dev'', GStr ''qa'']), (''rule'', GStr ''consent''), (''maxRounds'', GInt 2)]"

theorem opened_values_sound_witness:
  "\<exists>v. policy_open demo_given 5 = Some v \<and> 0 < threshold_of (board_point\<lparr>pt_policy := v\<rparr>) \<and> board_of (board_point\<lparr>pt_policy := v\<rparr>) = [''dev'', ''qa'']
    \<and> decider_of (board_point\<lparr>pt_policy := v\<rparr>) = ''human''"
proof -
  have "policy_open demo_given 5 \<noteq> None" by code_simp
  then obtain v where v: "policy_open demo_given 5 = Some v" by blast
  have b: "strings_value demo_given ''board'' = Some [''dev'', ''qa'']" by code_simp
  have p: "pt_policy (board_point\<lparr>pt_policy := v\<rparr>) = v" by simp
  show ?thesis using opened_values_sound [OF v p] v b by auto
qed

subsection \<open>Rounds\<close>






end
