(* ===== verification/Deciding.thy ===== *)
theory Deciding
  imports Rulings Boards
begin

text \<open>
  graph/graph/decision.go: the operations on the decision points of a change, each an event appended to
  its log after the guards that the replay of the points answers. The ids and the clock, the check of the
  items, the seats a caller holds and the folding of the case of names are arguments; what selecting an
  option does to the nodes is not modelled, the option to select is given.
\<close>

datatype decision_error = NoQuestion | PolicyRefused | ChangeNotOpen string | NoOption string | OptionDecided string | ChoiceTwice string
  | BadDecisionItem | PointsPending nat | NoPoint string | PointDecided string | PointBlocked nat | PointReserved string
  | WaitsRatification | NoBoard | BoardOfPeople | SeatUnnamed | SeatRefused | NotAnOption string | BadConfidence rat
  | NoJustification | NoQuestionAsked | BadOutcome string | NoAnswer | QuestionAnswered string | NothingToRatify string | NoComment

record rule_request =
  rr_point :: string
  rr_outcome :: string
  rr_option :: string
  rr_confidence :: rat
  rr_justification :: string
  rr_questions :: "string list"
  rr_human :: bool
  rr_by :: string
  rr_role :: string

record decision_request =
  dr_question :: string
  dr_options :: "string list option"
  dr_choices :: "string list"
  dr_criteria :: "string list"
  dr_policy :: props
  dr_by :: string

text \<open>What the operations take of the graph.\<close>

record deciding =
  dg_policy :: "decision_policy option"
  dg_seats :: "point \<Rightarrow> string list"
  dg_may_sit :: "change \<Rightarrow> string \<Rightarrow> bool"
  dg_item_ok :: "item \<Rightarrow> bool"
  dg_same_name :: "string \<Rightarrow> string \<Rightarrow> bool"

definition decision_fact :: "string \<Rightarrow> time \<Rightarrow> decision_event \<Rightarrow> item" where
  "decision_fact i now e = \<lparr>it_id = i, it_type = ''decision_point'', it_target = ''decision.'' @ de_op e,
     it_status = ''accepted'', it_flow = [], it_flow_event = None, it_decision_event = Some e, it_decision = None, it_recipient = [],
     it_data = None, it_produced_by = (if de_by e \<noteq> [] then de_by e else ''graph.decision''), it_derived_from = [], it_supersedes = [],
     it_execution = [], it_created_at = now\<rparr>"

definition put_decision_event :: "deciding \<Rightarrow> string \<Rightarrow> time \<Rightarrow> change \<Rightarrow> decision_event \<Rightarrow> decision_error + change" where
  "put_decision_event g i now c e = (let it = decision_fact i now e
     in if \<not> dg_item_ok g it then Inl BadDecisionItem else Inr (c\<lparr>ch_items := ch_items c @ [it]\<rparr>))"

lemma decision_fact_fields [simp]:
  "it_decision_event (decision_fact i now e) = Some e" "it_type (decision_fact i now e) = ''decision_point''"
  "it_flow (decision_fact i now e) = []" "it_id (decision_fact i now e) = i" "it_created_at (decision_fact i now e) = now"
  by (simp_all add: decision_fact_def)

definition option_id :: "(string \<Rightarrow> string \<Rightarrow> bool) \<Rightarrow> item list \<Rightarrow> string \<Rightarrow> string" where
  "option_id same its s = (let os = options its; named = (\<lambda>open_now f. (fl_status f = FlowOpen) = open_now
       \<and> (case fl_option f of None \<Rightarrow> False | Some sp \<Rightarrow> same (os_name sp) s))
     in if list_ex (\<lambda>f. fl_id f = s) os then s
        else (case find (named True) os of Some f \<Rightarrow> fl_id f
          | None \<Rightarrow> (case find (named False) os of Some f \<Rightarrow> fl_id f | None \<Rightarrow> s)))"

definition open_option :: "item list \<Rightarrow> string \<Rightarrow> decision_error + flow" where
  "open_option its i = (case fx_get (flows its) i of None \<Rightarrow> Inl (NoOption i)
     | Some f \<Rightarrow> if fl_option f = None then Inl (NoOption i)
         else if fl_status f \<noteq> FlowOpen then Inl (OptionDecided i) else Inr f)"

fun check_options :: "(string \<Rightarrow> string \<Rightarrow> bool) \<Rightarrow> item list \<Rightarrow> string list \<Rightarrow> decision_error + string list" where
  "check_options same its [] = Inr []"
| "check_options same its (o' # os) = (let i = option_id same its o' in
     case open_option its i of Inl e \<Rightarrow> Inl e
     | Inr _ \<Rightarrow> (case check_options same its os of Inl e \<Rightarrow> Inl e | Inr is \<Rightarrow> Inr (i # is)))"

fun add_choices :: "string list \<Rightarrow> string list \<Rightarrow> decision_error + string list" where
  "add_choices os [] = Inr os"
| "add_choices os (ch # chs) = (if ch = [] \<or> ch \<in> set os then Inl (ChoiceTwice ch) else add_choices (os @ [ch]) chs)"

text \<open>A point after an operation; the replay that fails is None.\<close>

definition decision_of :: "deciding \<Rightarrow> time \<Rightarrow> change \<Rightarrow> string \<Rightarrow> (decision_error + point) option" where
  "decision_of g now c i = map_option (\<lambda>d. case d of None \<Rightarrow> Inl (NoPoint i) | Some d \<Rightarrow> Inr d) (point_at (ch_items c) i now (dg_policy g))"

definition open_decision :: "deciding \<Rightarrow> string \<Rightarrow> time \<Rightarrow> change \<Rightarrow> decision_request \<Rightarrow> (decision_error + change \<times> point) option" where
  "open_decision g i now c req =
     (if trim (dr_question req) = [] then Some (Inl NoQuestion)
      else case po_open (policy_or_default (dg_policy g)) (dr_policy req) now of None \<Rightarrow> Some (Inl PolicyRefused)
      | Some values \<Rightarrow>
        if flow_change_ok c \<noteq> None then Some (Inl (ChangeNotOpen (ch_status c)))
        else let os = (case dr_options req of Some os \<Rightarrow> os
               | None \<Rightarrow> map fl_id (filter (\<lambda>f. fl_status f = FlowOpen) (options (ch_items c)))) in
          (case check_options (dg_same_name g) (ch_items c) os of Inl e \<Rightarrow> Some (Inl e)
           | Inr is \<Rightarrow> (case add_choices is (dr_choices req) of Inl e \<Rightarrow> Some (Inl e)
           | Inr cs \<Rightarrow> (case put_decision_event g i now c (no_event\<lparr>de_op := ''open'', de_question := trim (dr_question req), de_options := cs,
                 de_criteria := dr_criteria req, de_policy := values, de_by := dr_by req\<rparr>) of Inl e \<Rightarrow> Some (Inl e)
           | Inr c1 \<Rightarrow> let c2 = (if ch_status c1 = ''draft'' then c1\<lparr>ch_status := ''active''\<rparr> else c1)
               in map_option (\<lambda>r. case r of Inl e \<Rightarrow> Inl e | Inr d \<Rightarrow> Inr (c2, d)) (decision_of g now c2 i)))))"

definition pending_point :: "deciding \<Rightarrow> time \<Rightarrow> item list \<Rightarrow> string \<Rightarrow> (decision_error + point) option" where
  "pending_point g now its i =
     (if i = [] then map_option (\<lambda>ds. case filter pending ds of [d] \<Rightarrow> Inr d | ps \<Rightarrow> Inl (PointsPending (length ps))) (points_at its now (dg_policy g))
      else map_option (\<lambda>d. case d of None \<Rightarrow> Inl (NoPoint i)
          | Some d \<Rightarrow> if \<not> pending d then Inl (PointDecided i) else Inr d) (point_at its i now (dg_policy g)))"

definition pending_decisions :: "deciding \<Rightarrow> time \<Rightarrow> item list \<Rightarrow> point list option" where
  "pending_decisions g now its = map_option (filter pending) (points_at its now (dg_policy g))"

definition check_seat :: "deciding \<Rightarrow> change \<Rightarrow> point \<Rightarrow> rule_request \<Rightarrow> decision_error option" where
  "check_seat g c p req = (if dg_seats g p = [] then (if rr_role req \<noteq> [] then Some NoBoard else None)
     else if \<not> rr_human req then Some BoardOfPeople
     else if rr_role req = [] then Some SeatUnnamed
     else if \<not> dg_may_sit g c (rr_role req) then Some SeatRefused
     else None)"

text \<open>The event of a ruling, or why it is refused.\<close>

definition ruling_event :: "deciding \<Rightarrow> change \<Rightarrow> point \<Rightarrow> rule_request \<Rightarrow> decision_error + decision_event" where
  "ruling_event g c cur req =
     (let just = trim (rr_justification req);
          e = no_event\<lparr>de_op := ''rule'', de_point := pt_id cur, de_outcome := rr_outcome req, de_justification := just,
            de_human := rr_human req, de_by := rr_by req, de_role := rr_role req\<rparr>
      in if rr_outcome req = ''decided'' then
           (let opt = (if rr_option req \<noteq> [] \<and> rr_option req \<notin> set (pt_options cur) then option_id (dg_same_name g) (ch_items c) (rr_option req)
                else rr_option req)
            in if pt_options cur \<noteq> [] \<and> opt \<notin> set (pt_options cur) then Inl (NotAnOption opt)
               else if rr_confidence req < 0 \<or> 1 < rr_confidence req then Inl (BadConfidence (rr_confidence req))
               else if just = [] then Inl NoJustification
               else Inr (e\<lparr>de_option := opt, de_confidence := rr_confidence req\<rparr>))
         else if rr_outcome req = ''undecidable'' then
           (let qs = filter (\<lambda>q. q \<noteq> []) (map trim (rr_questions req))
            in if qs = [] \<or> just = [] then Inl NoQuestionAsked else Inr (e\<lparr>de_questions := qs\<rparr>))
         else Inl (BadOutcome (rr_outcome req)))"

text \<open>The point after its event, with the option to select when the event decided it on an open option.\<close>

definition settle_decision :: "deciding \<Rightarrow> time \<Rightarrow> change \<Rightarrow> string \<Rightarrow> (decision_error + point \<times> string option) option" where
  "settle_decision g now c i = map_option (\<lambda>r. case r of Inl e \<Rightarrow> Inl e
     | Inr d \<Rightarrow> Inr (d, if pending d \<or> pt_option d = [] then None
         else (case fx_get (flows (ch_items c)) (pt_option d) of None \<Rightarrow> None
           | Some f \<Rightarrow> if fl_option f = None \<or> fl_status f \<noteq> FlowOpen then None else Some (pt_option d)))) (decision_of g now c i)"

definition rule_decision :: "deciding \<Rightarrow> string \<Rightarrow> time \<Rightarrow> change \<Rightarrow> rule_request \<Rightarrow> (decision_error + change \<times> point \<times> string option) option" where
  "rule_decision g i now c req =
     (if flow_change_ok c \<noteq> None then Some (Inl (ChangeNotOpen (ch_status c)))
      else case pending_point g now (ch_items c) (rr_point req) of None \<Rightarrow> None
      | Some (Inl e) \<Rightarrow> Some (Inl e)
      | Some (Inr cur) \<Rightarrow>
        if pt_status cur = ''blocked'' then Some (Inl (PointBlocked (open_questions cur)))
        else if needs_human cur \<and> \<not> rr_human req then Some (Inl (PointReserved (pt_escalation cur)))
        else if pt_status cur = ''ratifying'' \<and> \<not> rr_human req then Some (Inl WaitsRatification)
        else (case check_seat g c cur req of Some e \<Rightarrow> Some (Inl e)
          | None \<Rightarrow> (case ruling_event g c cur req of Inl e \<Rightarrow> Some (Inl e)
          | Inr e \<Rightarrow> (case put_decision_event g i now c e of Inl e \<Rightarrow> Some (Inl e)
          | Inr c1 \<Rightarrow> map_option (\<lambda>r. case r of Inl e \<Rightarrow> Inl e | Inr (d, chosen) \<Rightarrow> Inr (c1, d, chosen)) (settle_decision g now c1 (pt_id cur))))))"

definition question_point :: "point list \<Rightarrow> string \<Rightarrow> decision_error + string" where
  "question_point ds q = (let asked = concat (map (\<lambda>d. map (Pair (pt_id d)) (filter (\<lambda>x. qu_id x = q) (pt_questions d))) ds) in
     case find (\<lambda>(_, x). qu_status x \<noteq> ''open'') asked of Some (_, x) \<Rightarrow> Inl (QuestionAnswered q)
     | None \<Rightarrow> if asked = [] \<or> fst (last asked) = [] then Inl (NoPoint q) else Inr (fst (last asked)))"

definition answer_question :: "deciding \<Rightarrow> string \<Rightarrow> time \<Rightarrow> change \<Rightarrow> string \<Rightarrow> string \<Rightarrow> string \<Rightarrow> string \<Rightarrow> (decision_error + change \<times> point) option" where
  "answer_question g i now c q answer process b =
     (if trim answer = [] then Some (Inl NoAnswer)
      else if flow_change_ok c \<noteq> None then Some (Inl (ChangeNotOpen (ch_status c)))
      else case points_at (ch_items c) now (dg_policy g) of None \<Rightarrow> None
      | Some ds \<Rightarrow> (case question_point ds q of Inl e \<Rightarrow> Some (Inl e)
        | Inr p \<Rightarrow> (case put_decision_event g i now c (no_event\<lparr>de_op := ''answer'', de_point := p, de_question_id := q,
              de_answer := trim answer, de_process := process, de_by := b\<rparr>) of Inl e \<Rightarrow> Some (Inl e)
          | Inr c1 \<Rightarrow> map_option (\<lambda>r. case r of Inl e \<Rightarrow> Inl e | Inr d \<Rightarrow> Inr (c1, d)) (decision_of g now c1 p))))"

definition ratify_decision :: "deciding \<Rightarrow> string \<Rightarrow> time \<Rightarrow> change \<Rightarrow> string \<Rightarrow> bool \<Rightarrow> string \<Rightarrow> string
    \<Rightarrow> (decision_error + change \<times> point \<times> string option) option" where
  "ratify_decision g i now c p accept b comment =
     (if flow_change_ok c \<noteq> None then Some (Inl (ChangeNotOpen (ch_status c)))
      else case pending_point g now (ch_items c) p of None \<Rightarrow> None
      | Some (Inl e) \<Rightarrow> Some (Inl e)
      | Some (Inr cur) \<Rightarrow>
        if pt_status cur \<noteq> ''ratifying'' then Some (Inl (NothingToRatify (pt_status cur)))
        else if \<not> accept \<and> trim comment = [] then Some (Inl NoComment)
        else (case put_decision_event g i now c (no_event\<lparr>de_op := ''ratify'', de_point := p, de_accept := accept, de_comment := comment,
              de_human := True, de_by := b\<rparr>) of Inl e \<Rightarrow> Some (Inl e)
          | Inr c1 \<Rightarrow> map_option (\<lambda>r. case r of Inl e \<Rightarrow> Inl e | Inr (d, chosen) \<Rightarrow> Inr (c1, d, chosen)) (settle_decision g now c1 p)))"

subsection \<open>A ruling in the replay\<close>

text \<open>The point an event of a log is of: the position of its id among the points of the log.\<close>

lemma find_index_of: "find p xs = map_option ((!) xs) (index_of p xs)"
  by (induction xs) (auto simp: option.map_comp comp_def)

lemma moved_point_id:
  assumes "policy_laws pol" and "moved_point pol it e d = Some d'"
  shows "pt_id d' = pt_id d"
proof (cases "pt_decided_by d \<noteq> [] \<or> pt_decided_at d \<noteq> 0")
  case True
  then show ?thesis using assms(2) by (simp add: moved_point_def)
next
  case False
  have "d' = rule_point pol it e d \<or> ratify_point pol it e d = Some d' \<or> d' = answer_point e d \<or> d' = d"
    using assms(2) False by (cases "de_op e = ''rule''"; cases "de_op e = ''ratify''"; cases "de_op e = ''answer''"; simp add: moved_point_def)
  then consider (r) "d' = rule_point pol it e d" | (t) "ratify_point pol it e d = Some d'" | (o) "d' = answer_point e d \<or> d' = d" by blast
  then show ?thesis
  proof cases
    case r
    show ?thesis using policy_laws.rule_point_fields [OF assms(1), of it e d] unfolding r [symmetric] by auto
  next
    case t
    show ?thesis using policy_laws.ratify_point_fields [OF assms(1) t] by auto
  qed (auto simp: answer_point_def)
qed

definition opens :: "item \<Rightarrow> bool" where
  "opens it \<longleftrightarrow> (case it_decision_event it of None \<Rightarrow> False
     | Some e \<Rightarrow> it_type it = ''decision_point'' \<and> it_flow it = [] \<and> de_op e = ''open'')"

lemma decision_steps_indexed:
  assumes "policy_laws pol"
  shows "indexed pt_id pos out \<Longrightarrow> distinct (map pt_id out @ map it_id (filter opens its)) \<Longrightarrow> decision_steps pol its (out, pos) = Some (out', pos')
    \<Longrightarrow> indexed pt_id pos' out'"
proof (induction its arbitrary: out pos)
  case (Cons it its)
  obtain out1 pos1 where s1: "decision_step pol it (out, pos) = Some (out1, pos1)" "decision_steps pol its (out1, pos1) = Some (out', pos')"
    using Cons.prems(3) by (auto split: option.splits)
  consider (skip) "out1 = out" "pos1 = pos" "\<not> opens it"
    | (new) e where "out1 = out @ [opened_point it e]" "pos1 = mput (it_id it) (length out) pos" "opens it"
    | (move) e i d where "out1 = out[i := d]" "pos1 = pos" "map_of pos (de_point e) = Some i" "moved_point pol it e (out ! i) = Some d" "\<not> opens it"
    using s1(1) by (auto simp: decision_step_def opens_def split: if_splits option.splits)
  then show ?case
  proof cases
    case skip
    then show ?thesis using Cons s1(2) by simp
  next
    case new
    have "map_of pos (it_id it) = None" using Cons.prems(1,2) new(3) indexed_None by fastforce
    then have "indexed pt_id (mput (it_id it) (length out) pos) (out @ [opened_point it e])"
      using indexed_snoc [OF Cons.prems(1), of "opened_point it e"] by (simp add: opened_point_def)
    moreover have "distinct (map pt_id (out @ [opened_point it e]) @ map it_id (filter opens its))"
      using Cons.prems(2) new(3) by (simp add: opened_point_def)
    ultimately show ?thesis using Cons.IH s1(2) new(1,2) by simp
  next
    case move
    have i: "i < length out" using indexed_Some [OF Cons.prems(1) move(3)] by simp
    have d: "pt_id d = pt_id (out ! i)" using moved_point_id [OF assms move(4)] .
    have ids: "map pt_id out1 = map pt_id out" using move(1) i d by (simp add: map_update list_update_same_conv)
    have "indexed pt_id pos1 out1" using indexed_update [OF Cons.prems(1) i d] move(1,2) by simp
    moreover have "distinct (map pt_id out1 @ map it_id (filter opens its))" using Cons.prems(2) move(5) ids by simp
    ultimately show ?thesis using Cons.IH s1(2) by blast
  qed
qed simp

lemma settle_keeps [simp]:
  "pt_id (settle_point pol now d) = pt_id d" "pt_policy (settle_point pol now d) = pt_policy d"
  by (simp_all add: settle_point_def Let_def split: prod.split)

lemma same_policy: "pt_policy p = pt_policy q \<Longrightarrow> board_of p = board_of q \<and> threshold_of p = threshold_of q"
  by (simp add: board_of_def threshold_of_def)

lemma index_of_settled: "index_of (\<lambda>d. pt_id d = i) (map (settle_point pol now) out) = index_of (\<lambda>d. pt_id d = i) out"
  by (induction out) auto

text \<open>The replay of a log with one more event of a point.\<close>

lemma points_after_event:
  assumes "policy_laws pol" and "distinct (map it_id (filter opens its))" and "points_at its now (Some pol) = Some ds" and "cur \<in> set ds"
    and "it_decision_event it = Some e" and "it_type it = ''decision_point''" and "it_flow it = []" and "de_op e \<noteq> ''open''" and "de_point e = pt_id cur"
    and "point_at (its @ [it]) (pt_id cur) now (Some pol) = Some (Some d)"
  shows "\<exists>raw d1. cur = settle_point pol now raw \<and> moved_point pol it e raw = Some d1 \<and> d = settle_point pol now d1"
proof -
  obtain out pos where s: "decision_steps pol its ([], []) = Some (out, pos)" "ds = map (settle_point pol now) out"
    using assms(3) by (auto simp: points_at_def policy_or_default_def)
  obtain j where j: "j < length out" "cur = settle_point pol now (out ! j)" using assms(4) s(2) by (auto simp: in_set_conv_nth)
  have ix: "indexed pt_id pos out" using decision_steps_indexed [OF assms(1) indexed_Nil _ s(1)] assms(2) by simp
  have pj: "map_of pos (de_point e) = Some j" using indexed_nth [OF ix j(1)] j(2) assms(9) by simp
  have tot: "\<exists>d'. moved_point pol it e (out ! j) = Some d'" using policy_laws.moved_point_total [OF assms(1)] .
  then obtain d1 where d1: "moved_point pol it e (out ! j) = Some d1" by blast
  have "decision_steps pol (its @ [it]) ([], []) = Some (out[j := d1], pos)"
    using s(1) pj d1 assms(5-8) by (simp add: decision_steps_append decision_step_def)
  then have ds': "points_at (its @ [it]) now (Some pol) = Some (map (settle_point pol now) (out[j := d1]))"
    by (simp add: points_at_def policy_or_default_def)
  have id1: "pt_id d1 = pt_id (out ! j)" using moved_point_id [OF assms(1) d1] .
  have "indexed pt_id pos (out[j := d1])" using indexed_update [OF ix j(1) id1] .
  then have "index_of (\<lambda>d. pt_id d = pt_id cur) (out[j := d1]) = Some j" using pj assms(9) by (simp add: indexed_def)
  then have "find (\<lambda>d. pt_id d = pt_id cur) (map (settle_point pol now) (out[j := d1])) = Some (settle_point pol now d1)"
    using j(1) by (simp add: find_index_of index_of_settled)
  then have "d = settle_point pol now d1" using assms(10) ds' by (simp add: point_at_def)
  then show ?thesis using j(2) d1 by blast
qed

lemma pending_point_in:
  "pending_point g now its i = Some (Inr cur) \<Longrightarrow> \<exists>ds. points_at its now (dg_policy g) = Some ds \<and> cur \<in> set ds \<and> pending cur"
proof -
  assume a: "pending_point g now its i = Some (Inr cur)"
  show ?thesis
  proof (cases "i = []")
    case True
    then obtain ds where z: "points_at its now (dg_policy g) = Some ds"
      "(case filter pending ds of [d] \<Rightarrow> Inr d | ps \<Rightarrow> Inl (PointsPending (length ps))) = Inr cur"
      using a by (auto simp: pending_point_def)
    have "filter pending ds = [cur]"
    proof (cases "filter pending ds")
      case (Cons x xs)
      then show ?thesis using z(2) by (cases xs) auto
    qed (use z(2) in simp)
    then have ds: "points_at its now (dg_policy g) = Some ds" "filter pending ds = [cur]" using z(1) by simp_all
    then have "cur \<in> set (filter pending ds)" by simp
    then show ?thesis using ds(1) by auto
  next
    case False
    then show ?thesis using a by (auto simp: pending_point_def point_at_def find_Some_iff split: option.splits if_splits)
  qed
qed

lemma ruled_event:
  "ruling_event g c cur req = Inr e \<Longrightarrow> de_op e = ''rule'' \<and> de_point e = pt_id cur \<and> de_outcome e = rr_outcome req \<and> de_human e = rr_human req
    \<and> (rr_outcome req = ''undecidable'' \<or> rr_outcome req = ''decided'' \<and> de_confidence e = rr_confidence req
        \<and> 0 \<le> rr_confidence req \<and> rr_confidence req \<le> 1 \<and> trim (rr_justification req) \<noteq> []
        \<and> (pt_options cur = [] \<or> de_option e \<in> set (pt_options cur)))"
  by (auto simp: ruling_event_def Let_def split: if_splits)

lemma decision_of_point: "decision_of g now c i = Some (Inr d) \<Longrightarrow> point_at (ch_items c) i now (dg_policy g) = Some (Some d)"
proof -
  assume "decision_of g now c i = Some (Inr d)"
  then obtain z where "point_at (ch_items c) i now (dg_policy g) = Some z" "(case z of None \<Rightarrow> Inl (NoPoint i) | Some d \<Rightarrow> Inr d) = Inr d"
    by (auto simp: decision_of_def)
  then show ?thesis by (cases z) auto
qed

lemma settle_decision_of: "settle_decision g now c i = Some (Inr (d, chosen)) \<Longrightarrow> decision_of g now c i = Some (Inr d)"
proof -
  assume a: "settle_decision g now c i = Some (Inr (d, chosen))"
  then obtain z where z: "decision_of g now c i = Some z" by (auto simp: settle_decision_def)
  show ?thesis using a z by (cases z) (auto simp: settle_decision_def)
qed

lemma rule_decision_cases:
  assumes "rule_decision g i now c req = Some (Inr (c', d, chosen))"
  shows "\<exists>cur e. flow_change_ok c = None \<and> pending_point g now (ch_items c) (rr_point req) = Some (Inr cur) \<and> pt_status cur \<noteq> ''blocked''
    \<and> (needs_human cur \<longrightarrow> rr_human req) \<and> (pt_status cur = ''ratifying'' \<longrightarrow> rr_human req) \<and> check_seat g c cur req = None
    \<and> ruling_event g c cur req = Inr e \<and> dg_item_ok g (decision_fact i now e)
    \<and> c' = c\<lparr>ch_items := ch_items c @ [decision_fact i now e]\<rparr> \<and> point_at (ch_items c') (pt_id cur) now (dg_policy g) = Some (Some d)"
proof -
  have open_ok: "flow_change_ok c = None" using assms by (auto simp: rule_decision_def split: if_splits)
  then obtain cur where cur: "pending_point g now (ch_items c) (rr_point req) = Some (Inr cur)"
    using assms by (auto simp: rule_decision_def split: option.splits sum.splits)
  have g1: "pt_status cur \<noteq> ''blocked''" "needs_human cur \<longrightarrow> rr_human req" "pt_status cur = ''ratifying'' \<longrightarrow> rr_human req"
    using assms open_ok cur by (auto simp: rule_decision_def split: if_splits)
  then have g2: "check_seat g c cur req = None" using assms open_ok cur by (auto simp: rule_decision_def split: option.splits if_splits)
  obtain e where e: "ruling_event g c cur req = Inr e" using assms open_ok cur g1 g2 by (auto simp: rule_decision_def split: sum.splits if_splits)
  obtain c1 where c1: "put_decision_event g i now c e = Inr c1" using assms open_ok cur g1 g2 e by (auto simp: rule_decision_def split: sum.splits if_splits)
  have no: "\<not> (needs_human cur \<and> \<not> rr_human req)" "\<not> (pt_status cur = ''ratifying'' \<and> \<not> rr_human req)" using g1 by blast+
  have "map_option (\<lambda>r. case r of Inl e \<Rightarrow> Inl e | Inr (d, chosen) \<Rightarrow> Inr (c1, d, chosen)) (settle_decision g now c1 (pt_id cur)) = Some (Inr (c', d, chosen))"
    using assms open_ok cur g1(1) no g2 e c1 by (simp only: rule_decision_def option.case sum.case if_False simp_thms)
  then obtain z where z: "settle_decision g now c1 (pt_id cur) = Some z" "(case z of Inl e \<Rightarrow> Inl e | Inr (d, chosen) \<Rightarrow> Inr (c1, d, chosen)) = Inr (c', d, chosen)"
    by auto
  then have c': "c' = c1" "settle_decision g now c1 (pt_id cur) = Some (Inr (d, chosen))" by (cases z; auto)+
  have it: "dg_item_ok g (decision_fact i now e)" "c1 = c\<lparr>ch_items := ch_items c @ [decision_fact i now e]\<rparr>"
    using c1 by (auto simp: put_decision_event_def Let_def split: if_splits)
  have "point_at (ch_items c1) (pt_id cur) now (dg_policy g) = Some (Some d)"
    by (rule decision_of_point [OF settle_decision_of [OF c'(2)]])
  then show ?thesis using open_ok cur g1 g2 e it c'(1) by (intro exI [of _ cur] exI [of _ e]) simp
qed

text \<open>
  C8. An agent settles a point alone only when it is sure enough: when its ruling leaves the point decided,
  the point had no board, was not reserved to a person nor waiting for an answer or a ratification, and the
  confidence the agent gave reaches the threshold the point was opened with.
\<close>

theorem agent_settles_when_sure:
  assumes "rule_decision g i now c req = Some (Inr (c', d, chosen))" and "\<not> rr_human req" and "\<not> pending d"
    and "dg_policy g = Some board_policy" and "dg_seats g = seats_of" and "distinct (map it_id (filter opens (ch_items c)))"
  shows "\<exists>ds cur. points_at (ch_items c) now (Some board_policy) = Some ds \<and> cur \<in> set ds \<and> pt_id cur = pt_id d \<and> pending cur
    \<and> board_of cur = [] \<and> \<not> needs_human cur \<and> pt_status cur \<noteq> ''blocked'' \<and> pt_status cur \<noteq> ''ratifying''
    \<and> rr_outcome req = ''decided'' \<and> threshold_of cur \<le> rr_confidence req \<and> rr_confidence req \<le> 1
    \<and> (pt_options cur = [] \<or> pt_option d \<in> set (pt_options cur))"
proof -
  obtain cur e where R: "pending_point g now (ch_items c) (rr_point req) = Some (Inr cur)" "pt_status cur \<noteq> ''blocked''"
    "\<not> needs_human cur" "pt_status cur \<noteq> ''ratifying''" "check_seat g c cur req = None" "ruling_event g c cur req = Inr e"
    "point_at (ch_items c @ [decision_fact i now e]) (pt_id cur) now (Some board_policy) = Some (Some d)"
    using rule_decision_cases [OF assms(1)] assms(2,4) by auto
  obtain ds where ds: "points_at (ch_items c) now (Some board_policy) = Some ds" "cur \<in> set ds" "pending cur"
    using pending_point_in [OF R(1)] assms(4) by auto
  let ?it = "decision_fact i now e"
  note E = ruled_event [OF R(6)]
  have no_seat: "board_of cur = []" using R(5) assms(2,5) by (auto simp: check_seat_def seats_of_def split: if_splits)
  have op: "de_op e \<noteq> ''open''" "de_point e = pt_id cur" using E by auto
  obtain raw d1 where P: "cur = settle_point board_policy now raw" "moved_point board_policy ?it e raw = Some d1" "d = settle_point board_policy now d1"
    using points_after_event [OF boards.policy_laws_axioms assms(6) ds(1,2) decision_fact_fields(1-3) op R(7)] by blast
  have z: "pt_decided_at raw = 0" using ds(3) P(1) settle_status by (auto simp: pending_def)
  have nz: "pt_decided_at d1 \<noteq> 0" using assms(3) P(3) settle_status by (auto simp: pending_def)
  then have "pt_decided_by raw = []" using P(2) z by (auto simp: moved_point_def split: if_splits)
  then have d1: "d1 = rule_point board_policy ?it e raw" using P(2) z E by (simp add: moved_point_def)
  define q where "q = raw\<lparr>pt_ruling := Some (ruling_of ?it e)\<rparr>"
  have q: "board_of q = []" "threshold_of q = threshold_of cur"
    using same_policy [of q cur] no_seat P(1) by (simp_all add: q_def)
  have out: "rr_outcome req = ''decided''"
  proof (rule ccontr)
    assume "rr_outcome req \<noteq> ''decided''"
    then have u: "de_outcome e = ''undecidable''" "de_op e = ''rule''" using E by auto
    then have "policy_fold q e = (fail_round q, False)" using q(1) by (simp add: policy_fold_def)
    then have "pt_decided_at d1 = 0" using u z d1 by (simp add: rule_point_def board_policy_def q_def fail_round_def Let_def)
    then show False using nz by simp
  qed
  then have eo: "de_outcome e = ''decided''" "de_op e = ''rule''" "\<not> de_human e" "de_confidence e = rr_confidence req" using E assms(2) by auto
  have pf: "policy_fold q e = (q, threshold_of cur \<le> rr_confidence req)" using q eo by (simp add: policy_fold_def)
  then have rp: "d1 = (if threshold_of cur \<le> rr_confidence req then decide (ruling_of ?it e) q else q)"
    unfolding d1 rule_point_def q_def [symmetric] using eo(1) by (simp add: board_policy_def q_def Let_def)
  have t: "threshold_of cur \<le> rr_confidence req" using rp nz z by (auto simp: q_def split: if_splits)
  then have "pt_option d1 = de_option e" "pt_id d1 = pt_id cur" using rp P(1) by (simp_all add: decide_def ruling_of_def q_def)
  then have "pt_option d = de_option e" "pt_id d = pt_id cur" using P(3) nz by (simp_all add: settle_decided)
  then show ?thesis using ds R(2-4) no_seat out t E by (intro exI [of _ ds] exI [of _ cur]) auto
qed

definition demo_graph :: deciding where
  "demo_graph = \<lparr>dg_policy = Some board_policy, dg_seats = seats_of, dg_may_sit = (\<lambda>_ _. True), dg_item_ok = (\<lambda>_. True), dg_same_name = (=)\<rparr>"

definition demo_decision_change :: change where
  "demo_decision_change = demo_change [decision_fact ''p'' 1 (no_event\<lparr>de_op := ''open'', de_question := ''which?'',
     de_options := [''a'', ''b''], de_policy := Some [(''threshold'', GFloat (1 / 2))]\<rparr>)]"

definition demo_ruling :: "rat \<Rightarrow> rule_request" where
  "demo_ruling q = \<lparr>rr_point = ''p'', rr_outcome = ''decided'', rr_option = ''a'', rr_confidence = q, rr_justification = ''best'',
     rr_questions = [], rr_human = False, rr_by = ''bot'', rr_role = []\<rparr>"

definition result_status :: "(decision_error + change \<times> point \<times> string option) option \<Rightarrow> (string \<times> string) option" where
  "result_status r = (case r of Some (Inr (c, d, ch)) \<Rightarrow> Some (pt_status d, pt_option d) | _ \<Rightarrow> None)"

theorem agent_settles_when_sure_witness:
  "result_status (rule_decision demo_graph ''r'' 2 demo_decision_change (demo_ruling (9 / 10))) = Some (''decided'', ''a'')
   \<and> result_status (rule_decision demo_graph ''r'' 2 demo_decision_change (demo_ruling (1 / 10))) = Some (''ratifying'', [])
   \<and> (\<exists>ds cur. points_at (ch_items demo_decision_change) 2 (Some board_policy) = Some ds \<and> cur \<in> set ds \<and> threshold_of cur \<le> 9 / 10)"
proof -
  have s: "result_status (rule_decision demo_graph ''r'' 2 demo_decision_change (demo_ruling (9 / 10))) = Some (''decided'', ''a'')"
    "result_status (rule_decision demo_graph ''r'' 2 demo_decision_change (demo_ruling (1 / 10))) = Some (''ratifying'', [])" by code_simp+
  obtain c' d ch where r: "rule_decision demo_graph ''r'' 2 demo_decision_change (demo_ruling (9 / 10)) = Some (Inr (c', d, ch))" "pt_status d = ''decided''"
    using s(1) by (auto simp: result_status_def split: option.splits sum.splits)
  have h: "\<not> rr_human (demo_ruling (9 / 10))" "\<not> pending d" "dg_policy demo_graph = Some board_policy" "dg_seats demo_graph = seats_of"
    "distinct (map it_id (filter opens (ch_items demo_decision_change)))"
    using r(2) by (simp_all add: demo_ruling_def pending_def demo_graph_def demo_decision_change_def demo_change_def opens_def)
  have q: "rr_confidence (demo_ruling (9 / 10)) = 9 / 10" by (simp only: demo_ruling_def rule_request.select_convs)
  obtain ds cur where "points_at (ch_items demo_decision_change) 2 (Some board_policy) = Some ds" "cur \<in> set ds"
    "threshold_of cur \<le> rr_confidence (demo_ruling (9 / 10))"
    using agent_settles_when_sure [OF r(1) h] by blast
  then show ?thesis unfolding q using s by blast
qed

text \<open>
  A ratification must name its point: with no name the pending point is found and its guards are passed,
  but the event written names no point, and the check of the items refuses it.
\<close>

lemma ratify_needs_name:
  assumes "\<And>it. dg_item_ok g it \<Longrightarrow> check_item reg cat it"
  shows "ratify_decision g i now c [] accept b comment \<noteq> Some (Inr r)"
proof
  assume a: "ratify_decision g i now c [] accept b comment = Some (Inr r)"
  let ?e = "no_event\<lparr>de_op := ''ratify'', de_point := [], de_accept := accept, de_comment := comment, de_human := True, de_by := b\<rparr>"
  have "dg_item_ok g (decision_fact i now ?e)"
    using a by (auto simp: ratify_decision_def put_decision_event_def Let_def split: if_splits option.splits sum.splits)
  then have "validate_item reg (decision_fact i now ?e) = None" using assms(1) by (auto simp: check_item_def)
  then show False by (simp add: validate_item_def validate_decision_event_def no_event_def)
qed

end
