(* ===== verification/Authz.thy ===== *)
theory Authz
  imports Lnk
begin

text \<open>
  Callers and what they may do (contracts/authz/authz.go, casbin.go): the principal and the resource of a
  request with the tests the rules are made of, the compiled-in policies and the effect of a list of
  policies on a request (the model text given to Casbin). The rules of the compiled-in policies, written as
  expression texts in the code, are values of a datatype with their meaning; the rules stored in the graph
  stay texts.
\<close>

subsection \<open>Principals and resources\<close>

record principal =
  pr_subject :: string
  pr_org :: string
  pr_project :: string
  pr_roles :: "string list"
  pr_global :: "string list"
  pr_project_admin :: bool
  pr_project_owner :: bool
  pr_on_behalf_of :: string

definition zero_principal :: principal where
  "zero_principal = \<lparr>pr_subject = [], pr_org = [], pr_project = [], pr_roles = [], pr_global = [],
     pr_project_admin = False, pr_project_owner = False, pr_on_behalf_of = []\<rparr>"

definition anonymous :: "principal \<Rightarrow> bool" where
  "anonymous p \<longleftrightarrow> pr_subject p = []"

definition system_prefix :: string where
  "system_prefix = ''system:''"

definition system_principal :: "string \<Rightarrow> string list \<Rightarrow> principal" where
  "system_principal name roles = zero_principal\<lparr>pr_subject := system_prefix @ name, pr_roles := roles\<rparr>"

definition is_system :: "principal \<Rightarrow> bool" where
  "is_system p \<longleftrightarrow> take (length system_prefix) (pr_subject p) = system_prefix"

definition end_user :: "principal \<Rightarrow> string" where
  "end_user p = (if is_system p then pr_on_behalf_of p else pr_subject p)"

definition acting_for :: "principal \<Rightarrow> string \<Rightarrow> principal" where
  "acting_for p u = (if u \<noteq> [] \<and> is_system p then p\<lparr>pr_on_behalf_of := u\<rparr> else p)"

record resource =
  ob_type :: string
  ob_id :: string
  ob_org :: string
  ob_namespace :: string
  ob_owner :: string
  ob_name :: string
  ob_role :: string
  ob_accountable :: string
  ob_org_chain :: "string list"
  ob_project_id :: string
  ob_roles :: "string list"

text \<open>Appending a string a list does not hold yet, as the code does wherever it merges roles.\<close>

definition add_new :: "string list \<Rightarrow> string list \<Rightarrow> string list" where
  "add_new out rs = foldl (\<lambda>out r. if r \<in> set out then out else out @ [r]) out rs"

definition all_roles :: "principal \<Rightarrow> string list" where
  "all_roles p = add_new (pr_roles p) (pr_global p)"

definition has_role :: "principal \<Rightarrow> string \<Rightarrow> bool" where
  "has_role p r \<longleftrightarrow> r \<in> set (pr_roles p) \<or> r \<in> set (pr_global p)"

definition any_role :: string where
  "any_role = ''*''"

definition has_role_in :: "principal \<Rightarrow> string \<Rightarrow> resource \<Rightarrow> bool" where
  "has_role_in p role res \<longleftrightarrow> role \<noteq> [] \<and>
     (let chain = (if ob_org_chain res = [] \<and> ob_org res \<noteq> [] then [ob_org res] else ob_org_chain res) in
      list_ex (\<lambda>r. case cut (CHR ''@'') r of None \<Rightarrow> r = role
         | Some (name, unit) \<Rightarrow> name = role \<and> unit \<in> set chain) (pr_roles p))"

definition on_project :: "principal \<Rightarrow> bool" where
  "on_project p \<longleftrightarrow> pr_roles p \<noteq> [] \<or> pr_project_admin p \<or> pr_project_owner p"

definition may_run :: "principal \<Rightarrow> resource \<Rightarrow> bool" where
  "may_run p res \<longleftrightarrow> pr_project_admin p \<or> pr_project_owner p
     \<or> list_ex (\<lambda>r. if r = any_role then pr_roles p \<noteq> [] else has_role_in p r res) (ob_roles res)"

record access_request =
  aq_subject :: principal
  aq_action :: string
  aq_resource :: resource

definition parse_permission :: "string \<Rightarrow> (string \<times> string) option" where
  "parse_permission p = (case cut (CHR '':'') p of None \<Rightarrow> None
     | Some (t, a) \<Rightarrow> if t = [] \<or> a = [] then None else Some (t, a))"

subsection \<open>Policies\<close>

text \<open>The expressions of the compiled-in rules, over the subject, the object and their functions.\<close>

datatype rule = HasRole string | HasRoleIn "resource \<Rightarrow> string" | OnProject | MayRun | IsProjectAdmin | IsProjectOwner
  | IsAnonymous | ObjNamed "resource \<Rightarrow> string" | SameOrg | OwnObject | RNot rule | RAnd rule rule | ROr rule rule

primrec rule_holds :: "rule \<Rightarrow> principal \<Rightarrow> resource \<Rightarrow> bool" where
  "rule_holds (HasRole r) p res = has_role p r"
| "rule_holds (HasRoleIn f) p res = has_role_in p (f res) res"
| "rule_holds OnProject p res = on_project p"
| "rule_holds MayRun p res = may_run p res"
| "rule_holds IsProjectAdmin p res = (pr_project_admin p \<or> pr_project_owner p)"
| "rule_holds IsProjectOwner p res = pr_project_owner p"
| "rule_holds IsAnonymous p res = anonymous p"
| "rule_holds (ObjNamed f) p res = (f res \<noteq> [])"
| "rule_holds SameOrg p res = (ob_org res = pr_org p)"
| "rule_holds OwnObject p res = (pr_subject p = ob_owner res)"
| "rule_holds (RNot r) p res = (\<not> rule_holds r p res)"
| "rule_holds (RAnd r1 r2) p res = (rule_holds r1 p res \<and> rule_holds r2 p res)"
| "rule_holds (ROr r1 r2) p res = (rule_holds r1 p res \<or> rule_holds r2 p res)"

record 'r policy =
  pc_rule :: 'r
  pc_resource :: string
  pc_action :: string
  pc_effect :: string

definition allow :: "rule \<Rightarrow> string \<Rightarrow> string \<Rightarrow> rule policy" where
  "allow r t a = \<lparr>pc_rule = r, pc_resource = t, pc_action = a, pc_effect = ''allow''\<rparr>"

definition deny :: "rule \<Rightarrow> string \<Rightarrow> string \<Rightarrow> rule policy" where
  "deny r t a = \<lparr>pc_rule = r, pc_resource = t, pc_action = a, pc_effect = ''deny''\<rparr>"

definition not_owner :: rule where
  "not_owner = RAnd (RNot IsProjectOwner) (RNot (HasRole ''admin''))"

definition own_object :: rule where
  "own_object = RAnd OwnObject (RNot (HasRole ''admin''))"

definition default_policies :: "rule policy list" where
  "default_policies = [
     allow (HasRole ''admin'') ''*'' ''*'',
     allow (HasRole ''reader'') ''*'' ''read'',
     allow (RAnd (RNot IsAnonymous) (ROr (RAnd (ObjNamed ob_org) SameOrg) OnProject)) ''*'' ''read'',
     allow (RAnd (RNot IsAnonymous) (ObjNamed ob_namespace)) ''*'' ''read'',
     allow (RNot IsAnonymous) ''trigger'' ''read'',
     allow IsProjectAdmin ''*'' ''*'',
     deny not_owner ''assignment'' ''flag'',
     deny not_owner ''project'' ''stop'',
     deny not_owner ''project'' ''move'',
     allow OnProject ''process'' ''*'',
     allow OnProject ''object'' ''create'',
     allow OnProject ''node'' ''transition'',
     allow OnProject ''requirement'' ''approve'',
     allow OnProject ''tool'' ''call'',
     allow OnProject ''change'' ''transition'',
     allow OnProject ''change'' ''move'',
     allow OnProject ''prompt'' ''inspect'',
     allow OnProject ''change'' ''apply'',
     deny own_object ''change'' ''apply'',
     allow (RAnd (HasRole ''release_manager'') (RNot OwnObject)) ''release'' ''deploy'',
     allow (HasRoleIn ob_role) ''step'' ''perform'',
     allow (HasRoleIn ob_accountable) ''step'' ''approve'',
     deny own_object ''step'' ''approve'',
     allow MayRun ''action'' ''run'',
     allow MayRun ''agent'' ''run'',
     allow MayRun ''operation'' ''perform'',
     allow (HasRole ''derogation_signatory'') ''derogation'' ''sign'',
     allow MayRun ''derogation'' ''sign-role'',
     allow MayRun ''decision'' ''sit'',
     allow MayRun ''model'' ''use'']"

definition floor_policies :: "rule policy list" where
  "floor_policies = [default_policies ! 0]"

text \<open>The matcher and the effect of the model: some matching policy allows and no matching policy denies.\<close>

definition matching :: "access_request \<Rightarrow> rule policy \<Rightarrow> bool" where
  "matching rq p \<longleftrightarrow> (pc_resource p = ''*'' \<or> ob_type (aq_resource rq) = pc_resource p)
     \<and> (pc_action p = ''*'' \<or> aq_action rq = pc_action p) \<and> rule_holds (pc_rule p) (aq_subject rq) (aq_resource rq)"

definition enforce :: "rule policy list \<Rightarrow> access_request \<Rightarrow> bool" where
  "enforce ps rq \<longleftrightarrow> \<not> anonymous (aq_subject rq) \<and> list_ex (\<lambda>p. matching rq p \<and> pc_effect p = ''allow'') ps
     \<and> \<not> list_ex (\<lambda>p. matching rq p \<and> pc_effect p = ''deny'') ps"

text \<open>The check of a stored policy; the probe that compiles its rule is Casbin's.\<close>

definition validate_policy :: "(string policy \<Rightarrow> bool) \<Rightarrow> string policy \<Rightarrow> bool" where
  "validate_policy probe p \<longleftrightarrow> (pc_effect p = ''allow'' \<or> pc_effect p = ''deny'')
     \<and> pc_rule p \<noteq> [] \<and> pc_resource p \<noteq> [] \<and> pc_action p \<noteq> [] \<and> probe p"

subsection \<open>Facts\<close>

lemma set_add_new [simp]: "set (add_new out rs) = set out \<union> set rs"
  unfolding add_new_def by (induction rs arbitrary: out) auto

lemma add_new_known: "set rs \<subseteq> set out \<Longrightarrow> add_new out rs = out"
  unfolding add_new_def by (induction rs arbitrary: out) auto

lemma add_new_Nil [simp]: "add_new out [] = out"
  by (simp add: add_new_def)

lemma distinct_add_new: "distinct out \<Longrightarrow> distinct (add_new out rs)"
  unfolding add_new_def by (induction rs arbitrary: out) auto

lemma floor_is_admin: "enforce floor_policies rq \<longleftrightarrow> \<not> anonymous (aq_subject rq) \<and> has_role (aq_subject rq) ''admin''"
  by (simp add: enforce_def floor_policies_def default_policies_def matching_def allow_def)

text \<open>A denial that matches settles the request, whatever allows it.\<close>

lemma enforce_denied: "p \<in> set ps \<Longrightarrow> matching rq p \<Longrightarrow> pc_effect p = ''deny'' \<Longrightarrow> \<not> enforce ps rq"
  by (auto simp: enforce_def list_ex_iff)

lemma default_denials:
  "deny not_owner ''assignment'' ''flag'' \<in> set default_policies" "deny not_owner ''project'' ''stop'' \<in> set default_policies"
  "deny not_owner ''project'' ''move'' \<in> set default_policies" "deny own_object ''change'' ''apply'' \<in> set default_policies"
  "deny own_object ''step'' ''approve'' \<in> set default_policies"
  unfolding default_policies_def by (simp_all only: list.set insert_iff simp_thms)

end
