(* ===== verification/Access.thy ===== *)
theory Access
  imports Authz Nodes Lifecycle
begin

text \<open>
  Who may do what, read from the organisation held in the graph (lib/access): the snapshot of users, units,
  projects, Assignments and policies built from a commit, the roles and flags it grants, the completion of a
  principal, the decision of a request, what a principal reads, and the validators that keep the writes of the
  organisation sound. Casbin's enforcement of the stored policies, the digest of the keys of the policies and
  the order Go ranges over a map in are parameters.
\<close>

subsection \<open>Names\<close>

definition type_user :: string where "type_user = ''organisation@User''"
definition type_policy :: string where "type_policy = ''organisation@Policy''"
definition type_assignment :: string where "type_assignment = ''organisation@Assignment''"
definition type_project_unit :: string where "type_project_unit = ''organisation@ProjectUnit''"
definition link_member_of :: string where "link_member_of = ''organisation@member_of''"
definition link_assigns_org :: string where "link_assigns_org = ''organisation@assigns_org''"
definition link_assigns_project :: string where "link_assigns_project = ''organisation@assigns_project''"
definition link_project_part_of :: string where "link_project_part_of = ''organisation@project_part_of''"
definition namespace_organisation :: string where "namespace_organisation = ''organisation''"
definition platform_scope :: string where "platform_scope = ''PLATFORM''"
definition state_retired :: string where "state_retired = ''retired''"

definition role_admin :: string where "role_admin = ''admin''"
definition role_reader :: string where "role_reader = ''reader''"

definition platform_role_names :: "string list" where
  "platform_role_names = [role_admin, role_reader]"

definition user_prefix :: string where "user_prefix = ''USR:''"

definition user_key :: "string \<Rightarrow> string" where
  "user_key subject = user_prefix @ subject"

definition is_personal_unit :: "string \<Rightarrow> bool" where
  "is_personal_unit key \<longleftrightarrow> take (length user_prefix) key = user_prefix"

definition personal_subject :: "string \<Rightarrow> string" where
  "personal_subject key = (if is_personal_unit key then drop (length user_prefix) key else [])"

definition assignment_key :: "string \<Rightarrow> string \<Rightarrow> string" where
  "assignment_key org project = ''ASG:'' @ org @ ''/'' @ project"

subsection \<open>Properties of the nodes\<close>

record user =
  us_subject :: string
  us_display_name :: string
  us_email :: string
  us_locale :: string
  us_unit :: string

definition user_props :: "user \<Rightarrow> (string, gval) gomap" where
  "user_props u = fold (\<lambda>(k, v) m. if v = [] then m else mput k (GStr v) m)
     [(''displayName'', us_display_name u), (''email'', us_email u), (''locale'', us_locale u)] [(''subject'', GStr (us_subject u))]"

definition user_from_props :: "props \<Rightarrow> user option" where
  "user_from_props ps = (let u = \<lparr>us_subject = str_of (pget ps ''subject''), us_display_name = str_of (pget ps ''displayName''),
       us_email = str_of (pget ps ''email''), us_locale = str_of (pget ps ''locale''), us_unit = []\<rparr>
     in if us_subject u = [] then None else Some u)"

definition policy_from_props :: "(string policy \<Rightarrow> bool) \<Rightarrow> props \<Rightarrow> string policy option" where
  "policy_from_props probe ps = (let p = \<lparr>pc_rule = str_of (pget ps ''rule''), pc_resource = str_of (pget ps ''resource''),
       pc_action = str_of (pget ps ''action''), pc_effect = str_of (pget ps ''effect'')\<rparr>
     in if validate_policy probe p then Some p else None)"

definition policy_key :: "(string \<Rightarrow> string) \<Rightarrow> string policy \<Rightarrow> string" where
  "policy_key digest p = ''POL:'' @ pc_resource p @ ''/'' @ pc_action p @ ''/'' @ digest (pc_rule p @ [CHR 0x00] @ pc_effect p)"

definition nonempty_strs :: "gval list \<Rightarrow> string list" where
  "nonempty_strs vs = filter (\<lambda>s. s \<noteq> []) (List.map_filter as_str vs)"

fun str_list :: "gval option \<Rightarrow> string list option" where
  "str_list None = Some []"
| "str_list (Some GNil) = Some []"
| "str_list (Some (GList vs)) = Some (nonempty_strs vs)"
| "str_list (Some (GStrs ss)) = Some ss"
| "str_list _ = None"

fun string_list :: "gval option \<Rightarrow> string list" where
  "string_list (Some (GStrs ss)) = ss"
| "string_list (Some (GList vs)) = nonempty_strs vs"
| "string_list _ = []"

text \<open>A source mapping; None is the error of a value that is not one.\<close>

fun source_map :: "gval option \<Rightarrow> (string, string) gomap option" where
  "source_map None = Some []"
| "source_map (Some GNil) = Some []"
| "source_map (Some (GStrMap m)) = Some m"
| "source_map (Some (GMap m)) = (if list_ex (\<lambda>(k, v). case as_str v of None \<Rightarrow> True | Some s \<Rightarrow> k = [] \<or> s = []) m then None
     else Some (map (\<lambda>(k, v). (k, str_of (Some v))) m))"
| "source_map _ = None"

record assignment_node =
  an_roles :: "string list"
  an_description :: string
  an_owner :: bool
  an_admin :: bool

definition assignment_props :: "assignment_node \<Rightarrow> (string, gval) gomap" where
  "assignment_props a = (let
       m0 = (if an_description a = [] then [] else [(''description'', GStr (an_description a))]);
       m1 = (if an_roles a = [] then m0 else mput ''roles'' (GList (map GStr (an_roles a))) m0);
       m2 = (if an_owner a then mput ''owner'' (GBool True) m1 else m1)
     in if an_admin a then mput ''admin'' (GBool True) m2 else m2)"

definition assignment_from_props :: "props \<Rightarrow> assignment_node option" where
  "assignment_from_props ps = (case str_list (pget ps ''roles'') of None \<Rightarrow> None
     | Some rs \<Rightarrow> Some \<lparr>an_roles = rs, an_description = str_of (pget ps ''description''),
         an_owner = bool_of (pget ps ''owner''), an_admin = bool_of (pget ps ''admin'')\<rparr>)"

definition node_flag :: "node \<Rightarrow> string \<Rightarrow> bool" where
  "node_flag n prop = bool_of (pget (n_props n) prop)"

subsection \<open>The snapshot\<close>

datatype problem = BadSources | BadUser | BadPolicy | BadAssignment

record assignment =
  as_key :: string
  as_org :: string
  as_project :: string
  as_roles :: "string list"
  as_owner :: bool
  as_admin :: bool

record snapshot =
  sn_commit :: string
  sn_problems :: "(string \<times> problem) list"
  sn_policies :: "string policy list"
  sn_structures :: "structure_set list"
  sn_users :: "(string, user) gomap"
  sn_keys :: "(string \<times> string, node) gomap" \<comment> \<open>by kind, then by key\<close>
  sn_units :: hierarchy
  sn_projects :: hierarchy
  sn_methods :: "(string, string list) gomap"
  sn_stopped :: "(string, bool) gomap"
  sn_sources :: "(string, (string, string) gomap) gomap"
  sn_assignments :: "assignment list"

text \<open>The nodes their lifecycle retired are left out, with their links.\<close>

definition in_force :: "node list \<Rightarrow> link list \<Rightarrow> node list \<times> link list" where
  "in_force nodes links = (let retired = map n_id (filter (\<lambda>n. n_state n = state_retired) nodes) in
     if retired = [] then (nodes, links)
     else (filter (\<lambda>n. n_state n \<noteq> state_retired) nodes,
       filter (\<lambda>l. nr_id (k_from l) \<notin> set retired \<and> nr_id (k_to l) \<notin> set retired) links))"

definition structure_kinds :: "string list" where
  "structure_kinds = [''organisation'', ''project'']"

definition keys_of :: "structure_set list \<Rightarrow> node list \<Rightarrow> (string \<times> string, node) gomap" where
  "keys_of st nodes = foldl (\<lambda>m n. foldl (\<lambda>m kind. if structure_in st kind (n_type n) then mput (kind, n_key n) n m else m) m structure_kinds) [] nodes"

record building =
  bu_snap :: snapshot
  bu_assign :: "(string, assignment) gomap"
  bu_by_id :: "(string, node) gomap"

definition add_problem :: "string \<Rightarrow> problem \<Rightarrow> snapshot \<Rightarrow> snapshot" where
  "add_problem k p s = s\<lparr>sn_problems := sn_problems s @ [(k, p)]\<rparr>"

definition read_project :: "node \<Rightarrow> snapshot \<Rightarrow> snapshot" where
  "read_project n s = (let
       s1 = s\<lparr>sn_methods := mput (n_key n) (string_list (pget (n_props n) ''methodologies'')) (sn_methods s)\<rparr>;
       s2 = (if node_flag n ''stopped'' then s1\<lparr>sn_stopped := mput (n_key n) True (sn_stopped s1)\<rparr> else s1)
     in (case source_map (pget (n_props n) ''sources'') of None \<Rightarrow> add_problem (n_key n) BadSources s2
        | Some m \<Rightarrow> if m = [] then s2 else s2\<lparr>sn_sources := mput (n_key n) m (sn_sources s2)\<rparr>))"

definition read_node :: "(string policy \<Rightarrow> bool) \<Rightarrow> structure_set list \<Rightarrow> building \<Rightarrow> node \<Rightarrow> building" where
  "read_node probe st b n = (let
       s = (if structure_in st ''project'' (n_type n) then read_project n (bu_snap b) else bu_snap b);
       b1 = b\<lparr>bu_snap := s, bu_by_id := mput (n_id n) n (bu_by_id b)\<rparr>
     in if n_type n = type_user then
          (case user_from_props (n_props n) of None \<Rightarrow> b1\<lparr>bu_snap := add_problem (n_key n) BadUser s\<rparr>
           | Some u \<Rightarrow> b1\<lparr>bu_snap := s\<lparr>sn_users := mput (us_subject u) u (sn_users s)\<rparr>\<rparr>)
        else if n_type n = type_policy then
          (case policy_from_props probe (n_props n) of None \<Rightarrow> b1\<lparr>bu_snap := add_problem (n_key n) BadPolicy s\<rparr>
           | Some p \<Rightarrow> b1\<lparr>bu_snap := s\<lparr>sn_policies := sn_policies s @ [p]\<rparr>\<rparr>)
        else if n_type n = type_assignment then
          (case assignment_from_props (n_props n) of None \<Rightarrow> b1\<lparr>bu_snap := add_problem (n_key n) BadAssignment s\<rparr>
           | Some a \<Rightarrow> b1\<lparr>bu_assign := mput (n_id n) \<lparr>as_key = n_key n, as_org = [], as_project = [], as_roles = an_roles a,
                 as_owner = an_owner a, as_admin = an_admin a\<rparr> (bu_assign b1)\<rparr>)
        else b1)"

definition read_link :: "structure_set list \<Rightarrow> building \<Rightarrow> link \<Rightarrow> building" where
  "read_link st b l = (let
       get = (\<lambda>i. case map_of (bu_by_id b) i of Some n \<Rightarrow> n | None \<Rightarrow> zero_node);
       from = get (nr_id (k_from l)); to = get (nr_id (k_to l));
       b1 = (if k_type l = link_member_of \<and> n_type from = type_user \<and> structure_in st ''organisation'' (n_type to) then
           (case map_of (sn_users (bu_snap b)) (str_of (pget (n_props from) ''subject'')) of None \<Rightarrow> b
            | Some u \<Rightarrow> b\<lparr>bu_snap := (bu_snap b)\<lparr>sn_users := mput (us_subject u) (u\<lparr>us_unit := n_key to\<rparr>) (sn_users (bu_snap b))\<rparr>\<rparr>)
         else b);
       b2 = (if k_type l = link_assigns_org \<and> n_type from = type_assignment then
           (case map_of (bu_assign b1) (nr_id (k_from l)) of None \<Rightarrow> b1
            | Some a \<Rightarrow> b1\<lparr>bu_assign := mput (nr_id (k_from l)) (a\<lparr>as_org := n_key to\<rparr>) (bu_assign b1)\<rparr>)
         else b1)
     in if k_type l = link_assigns_project \<and> n_type from = type_assignment then
           (case map_of (bu_assign b2) (nr_id (k_from l)) of None \<Rightarrow> b2
            | Some a \<Rightarrow> b2\<lparr>bu_assign := mput (nr_id (k_from l)) (a\<lparr>as_project := n_key to\<rparr>) (bu_assign b2)\<rparr>)
         else b2)"

text \<open>A platform Assignment carries no flag; one that names no unit or grants nothing is left out.\<close>

definition resolved :: "assignment \<Rightarrow> assignment" where
  "resolved a = (if as_project a = [] then a\<lparr>as_owner := False, as_admin := False\<rparr> else a)"

definition grants :: "assignment \<Rightarrow> bool" where
  "grants a \<longleftrightarrow> as_org a \<noteq> [] \<and> (as_roles a \<noteq> [] \<or> as_owner a \<or> as_admin a)"

definition build_snapshot :: "(string \<Rightarrow> string) \<Rightarrow> (string policy \<Rightarrow> bool) \<Rightarrow> (string list \<Rightarrow> string list) \<Rightarrow>
    structure_set list \<Rightarrow> string \<Rightarrow> node list \<Rightarrow> link list \<Rightarrow> snapshot" where
  "build_snapshot digest probe walk st i nodes links = (let
       (ns, ls) = in_force nodes links;
       s0 = \<lparr>sn_commit = i, sn_problems = [], sn_policies = [], sn_structures = st, sn_users = [], sn_keys = keys_of st nodes,
         sn_units = read_hierarchy st ''organisation'' ns ls, sn_projects = read_hierarchy st ''project'' ns ls,
         sn_methods = [], sn_stopped = [], sn_sources = [], sn_assignments = []\<rparr>;
       b = foldl (read_link st) (foldl (read_node probe st) \<lparr>bu_snap = s0, bu_assign = [], bu_by_id = []\<rparr> ns) ls
     in (bu_snap b)\<lparr>sn_assignments := filter grants (map (\<lambda>k. resolved (the (map_of (bu_assign b) k))) (walk (mkeys (bu_assign b)))),
          sn_policies := stable_sort (\<lambda>p q. policy_key digest p < policy_key digest q) (sn_policies (bu_snap b))\<rparr>)"

subsection \<open>What the snapshot says\<close>

definition unit_chain :: "snapshot \<Rightarrow> string \<Rightarrow> string list" where
  "unit_chain s u = h_chain (sn_units s) u"

definition project_chain :: "snapshot \<Rightarrow> string \<Rightarrow> string list" where
  "project_chain s p = h_chain (sn_projects s) p"

definition root_project :: "snapshot \<Rightarrow> string" where
  "root_project s = s_root (structure_of (sn_structures s) ''project'')"

definition structure_node :: "snapshot \<Rightarrow> string \<Rightarrow> string \<Rightarrow> node option" where
  "structure_node s kind key = map_of (sn_keys s) (kind, key)"

definition structure_chain :: "snapshot \<Rightarrow> string \<Rightarrow> string \<Rightarrow> string list" where
  "structure_chain s kind key = (if kind = ''project'' then project_chain s key else unit_chain s key)"

definition has_project :: "snapshot \<Rightarrow> string \<Rightarrow> bool" where
  "has_project s key \<longleftrightarrow> map_of (sn_methods s) key \<noteq> None"

definition sub_projects :: "snapshot \<Rightarrow> string \<Rightarrow> string list" where
  "sub_projects s project = project # filter (\<lambda>k. k \<noteq> project \<and> project \<in> set (project_chain s k)) (mkeys (sn_methods s))"

definition methods_of :: "snapshot \<Rightarrow> string \<Rightarrow> string list" where
  "methods_of s k = (case map_of (sn_methods s) k of None \<Rightarrow> [] | Some ms \<Rightarrow> ms)"

definition applicable_methodologies :: "snapshot \<Rightarrow> string \<Rightarrow> string list" where
  "applicable_methodologies s project = foldl (\<lambda>out k. add_new out (methods_of s k)) [] (project_chain s project)"

definition subject_chain :: "snapshot \<Rightarrow> principal \<Rightarrow> string list" where
  "subject_chain s p = (let
       u = (case map_of (sn_users s) (pr_subject p) of Some u \<Rightarrow> if us_unit u \<noteq> [] then us_unit u else pr_org p | None \<Rightarrow> pr_org p);
       unit = (if u = [] then s_root (structure_of (sn_structures s) ''organisation'') else u)
     in user_key (pr_subject p) # unit_chain s unit)"

definition project_roles :: "snapshot \<Rightarrow> string list \<Rightarrow> string list \<Rightarrow> string list" where
  "project_roles s orgs projects = foldl (\<lambda>out a. if as_org a \<notin> set orgs \<or> as_project a \<notin> set projects then out
     else add_new out (as_roles a)) [] (sn_assignments s)"

definition project_flags :: "snapshot \<Rightarrow> string list \<Rightarrow> string list \<Rightarrow> bool \<times> bool" where
  "project_flags s orgs projects = foldl (\<lambda>(admin, owner) a.
       if as_project a = [] \<or> as_org a \<notin> set orgs \<or> as_project a \<notin> set projects then (admin, owner)
       else (admin \<or> as_admin a \<or> as_owner a, owner \<or> as_owner a)) (False, False) (sn_assignments s)"

definition project_owned :: "snapshot \<Rightarrow> string \<Rightarrow> bool" where
  "project_owned s project \<longleftrightarrow> list_ex (\<lambda>a. as_owner a \<and> as_project a \<noteq> [] \<and> as_project a \<in> set (project_chain s project)) (sn_assignments s)"

definition project_stopped :: "snapshot \<Rightarrow> string \<Rightarrow> bool" where
  "project_stopped s project \<longleftrightarrow> list_ex (\<lambda>p. map_of (sn_stopped s) p = Some True) (project_chain s project)"

definition project_sources :: "snapshot \<Rightarrow> string \<Rightarrow> (string, string) gomap" where
  "project_sources s project = foldl (\<lambda>out p. mcopy (case map_of (sn_sources s) p of None \<Rightarrow> [] | Some m \<Rightarrow> m) out) [] (project_chain s project)"

definition project_of :: "snapshot \<Rightarrow> string \<Rightarrow> string" where
  "project_of s project = (case project_chain s project of _ # p # _ \<Rightarrow> p | _ \<Rightarrow> [])"

definition assignment_project :: "snapshot \<Rightarrow> string \<Rightarrow> (string \<times> bool \<times> bool) option" where
  "assignment_project s key = (case find (\<lambda>a. as_key a = key) (sn_assignments s) of None \<Rightarrow> None
     | Some a \<Rightarrow> if as_project a = [] then Some (platform_scope, False, False) else Some (as_project a, as_owner a, as_admin a))"

definition platform_roles :: "snapshot \<Rightarrow> string list \<Rightarrow> string list" where
  "platform_roles s orgs = foldl (\<lambda>out a. if as_project a \<noteq> [] \<or> as_org a \<notin> set orgs then out else add_new out (as_roles a))
     [] (sn_assignments s)"

definition users_sorted :: "snapshot \<Rightarrow> user list" where
  "users_sorted s = map (\<lambda>k. the (map_of (sn_users s) k)) (mkeys (sn_users s))"

subsection \<open>The completion of a principal\<close>

definition enrich :: "snapshot \<Rightarrow> principal \<Rightarrow> principal" where
  "enrich s p = (if anonymous p then p else (let
       p1 = (case map_of (sn_users s) (pr_subject p) of Some u \<Rightarrow> if pr_org p = [] then p\<lparr>pr_org := us_unit u\<rparr> else p | None \<Rightarrow> p);
       (roles, global) = foldl (\<lambda>(roles, global) r. if r \<in> set platform_role_names then (roles, add_new global [r])
           else (add_new roles [r], global)) ([], pr_global p1) (pr_roles p1);
       global1 = add_new global (platform_roles s (subject_chain s p1))
     in p1\<lparr>pr_roles := roles, pr_global := global1\<rparr>))"

definition may_access_project :: "snapshot \<Rightarrow> principal \<Rightarrow> string \<Rightarrow> bool" where
  "may_access_project s p0 project = (let p = enrich s p0 in
     if anonymous p then False
     else let chain = subject_chain s p; projects = project_chain s project in
       fst (project_flags s chain projects) \<or> platform_roles s chain \<noteq> [] \<or> project_roles s chain projects \<noteq> []
         \<or> has_role p role_admin)"

definition reachable_projects :: "snapshot \<Rightarrow> principal \<Rightarrow> string list" where
  "reachable_projects s p = (if anonymous p then [] else filter (may_access_project s p) (mkeys (sn_methods s)))"

subsection \<open>Decisions\<close>

text \<open>
  The authorizer keeps the enforcer of the stored policies of one commit. Compiling the stored policies and
  enforcing them are Casbin's: \<open>compiles\<close> tells whether their texts compile, \<open>stored\<close> their answer (None an
  error of the evaluation).
\<close>

type_synonym enforcer = "string policy list option" \<comment> \<open>None: the compiled-in policies\<close>

record authorizer =
  az_commit :: string
  az_casbin :: "string policy list option"

definition pick_enforcer :: "(string policy list \<Rightarrow> bool) \<Rightarrow> authorizer \<Rightarrow> snapshot option \<Rightarrow> authorizer \<times> enforcer" where
  "pick_enforcer compiles a snap = (case snap of None \<Rightarrow> (a, None)
     | Some s \<Rightarrow> if sn_policies s = [] then (a, None)
       else if az_casbin a = None \<or> az_commit a \<noteq> sn_commit s then
         (if compiles (sn_policies s) then (\<lparr>az_commit = sn_commit s, az_casbin = Some (sn_policies s)\<rparr>, Some (sn_policies s))
          else (a, None))
       else (a, az_casbin a))"

definition run_enforcer :: "(string policy list \<Rightarrow> access_request \<Rightarrow> bool option) \<Rightarrow> enforcer \<Rightarrow> access_request \<Rightarrow> bool option" where
  "run_enforcer stored e rq = (case e of None \<Rightarrow> Some (enforce default_policies rq)
     | Some ps \<Rightarrow> if anonymous (aq_subject rq) then Some False else stored ps rq)"

text \<open>The request with what the snapshot knows: the chain of its unit, the roles and flags held on its project.\<close>

definition complete_request :: "snapshot option \<Rightarrow> access_request \<Rightarrow> access_request" where
  "complete_request snap rq0 = (let rq = rq0\<lparr>aq_subject := (aq_subject rq0)\<lparr>pr_project_admin := False, pr_project_owner := False\<rparr>\<rparr> in
     case snap of None \<Rightarrow> rq
     | Some s \<Rightarrow> (let p = enrich s (aq_subject rq);
           res = aq_resource rq;
           res1 = (if ob_org res \<noteq> [] \<and> ob_org_chain res = [] then res\<lparr>ob_org_chain := unit_chain s (ob_org res)\<rparr> else res);
           project = (if ob_project_id res1 = [] then root_project s else ob_project_id res1);
           projects = project_chain s project;
           subjects = subject_chain s p;
           p1 = p\<lparr>pr_roles := add_new (pr_roles p) (project_roles s subjects projects)\<rparr>;
           p2 = (if ob_project_id res1 \<noteq> [] then p1\<lparr>pr_project_admin := fst (project_flags s subjects projects),
                   pr_project_owner := snd (project_flags s subjects projects)\<rparr> else p1)
         in rq\<lparr>aq_subject := p2, aq_resource := res1\<rparr>))"

definition authorize :: "(string policy list \<Rightarrow> bool) \<Rightarrow> (string policy list \<Rightarrow> access_request \<Rightarrow> bool option) \<Rightarrow>
    snapshot option \<Rightarrow> authorizer \<Rightarrow> access_request \<Rightarrow> authorizer \<times> bool option" where
  "authorize compiles stored snap a rq = (if anonymous (aq_subject rq) then (a, Some False)
     else let (a1, e) = pick_enforcer compiles a snap; rq1 = complete_request snap rq
       in (a1, if enforce floor_policies rq1 then Some True else run_enforcer stored e rq1))"

definition floor_authorize :: "snapshot option \<Rightarrow> access_request \<Rightarrow> bool" where
  "floor_authorize snap rq \<longleftrightarrow> \<not> anonymous (aq_subject rq) \<and>
     enforce floor_policies (case snap of None \<Rightarrow> rq | Some s \<Rightarrow> rq\<lparr>aq_subject := enrich s (aq_subject rq)\<rparr>)"

text \<open>A missing authorizer denies; an error of the authorizer is an error of the check.\<close>

datatype check_result = Granted | Forbidden | CheckFailed

definition check_access :: "(access_request \<Rightarrow> bool option) option \<Rightarrow> access_request \<Rightarrow> check_result" where
  "check_access az rq = (case az of None \<Rightarrow> Forbidden
     | Some f \<Rightarrow> (case f rq of None \<Rightarrow> CheckFailed | Some ok \<Rightarrow> if ok then Granted else Forbidden))"

subsection \<open>What a principal reads\<close>

record reach_set =
  rc_projects :: "string list"
  rc_trees :: "string list"
  rc_units :: "string list"
  rc_subject :: string

definition children_of :: "snapshot \<Rightarrow> string \<Rightarrow> string list" where
  "children_of s a = filter (\<lambda>k. case project_chain s k of _ # p # _ \<Rightarrow> p = a | _ \<Rightarrow> False) (mkeys (sn_methods s))"

definition reach_set_of :: "snapshot \<Rightarrow> principal \<Rightarrow> reach_set" where
  "reach_set_of s p = (if anonymous p then \<lparr>rc_projects = [], rc_trees = [], rc_units = [], rc_subject = []\<rparr>
     else let ps = reachable_projects s p in
       \<lparr>rc_projects = ps,
        rc_trees = sort (remdups (concat (map (\<lambda>w. concat (map (children_of s) (project_chain s w))) ps))),
        rc_units = subject_chain s p, rc_subject = pr_subject p\<rparr>)"

definition reach_holds :: "reach_set \<Rightarrow> string \<Rightarrow> string \<Rightarrow> string \<Rightarrow> string \<Rightarrow> bool" where
  "reach_holds r project visibility responsible creator = (let
       isin = (\<lambda>l k. k \<noteq> [] \<and> k \<in> set l); v = visibility_of visibility in
     if v = ''public'' then True
     else if v = ''tree'' then isin (rc_trees r) project \<or> isin (rc_projects r) project
     else if v = ''private'' then isin (rc_projects r) project \<and> isin (rc_units r) responsible
     else if v = ''personal'' then isin (rc_projects r) project \<and> rc_subject r \<noteq> [] \<and> creator = rc_subject r
     else isin (rc_projects r) project)"

text \<open>The same on the side of the graph: the sets are maps of booleans, no reach (None) reads everything.\<close>

record reach =
  rh_projects :: "(string, bool) gomap"
  rh_trees :: "(string, bool) gomap"
  rh_units :: "(string, bool) gomap"
  rh_subject :: string
  rh_namespaces :: "(string, bool) gomap"

definition mtrue :: "(string, bool) gomap \<Rightarrow> string \<Rightarrow> bool" where
  "mtrue m k \<longleftrightarrow> map_of m k = Some True"

definition open_namespaces :: "(string, bool) gomap" where
  "open_namespaces = [(namespace_organisation, True), (''platform'', True), (''methodology'', True)]"

definition reader :: "principal \<Rightarrow> principal" where
  "reader p = (if is_system p \<and> pr_on_behalf_of p \<noteq> [] then zero_principal\<lparr>pr_subject := pr_on_behalf_of p\<rparr> else p)"

definition keys_map :: "string list \<Rightarrow> (string, bool) gomap" where
  "keys_map l = foldl (\<lambda>m k. mput k True m) [] l"

text \<open>The reach of the caller of a read; the inner option is the nil that reads everything.\<close>

definition reach_of :: "(principal \<Rightarrow> reach_set option) \<Rightarrow> principal \<Rightarrow> reach option option" where
  "reach_of sets p0 = (let p = reader p0 in
     if is_system p \<or> anonymous p then Some None
     else (case sets p of None \<Rightarrow> None
       | Some r \<Rightarrow> Some (Some \<lparr>rh_projects = keys_map (rc_projects r), rh_trees = keys_map (rc_trees r), rh_units = keys_map (rc_units r),
           rh_subject = rc_subject r, rh_namespaces = open_namespaces\<rparr>)))"

definition reach_in :: "reach option \<Rightarrow> string \<Rightarrow> reach option" where
  "reach_in r namespace = (case r of None \<Rightarrow> None
     | Some x \<Rightarrow> if mtrue (rh_namespaces x) (namespace_of namespace) then None else Some x)"

definition reach_sees :: "reach option \<Rightarrow> node \<Rightarrow> bool" where
  "reach_sees r n = (case r of None \<Rightarrow> True
     | Some x \<Rightarrow> (let p = u_key (n_project n); v = visibility_of (n_visibility n) in
         if v = ''public'' then True
         else if v = ''tree'' then mtrue (rh_trees x) p \<or> mtrue (rh_projects x) p
         else if v = ''private'' then mtrue (rh_projects x) p \<and> mtrue (rh_units x) (u_key (n_responsible n))
         else if v = ''personal'' then mtrue (rh_projects x) p \<and> rh_subject x \<noteq> [] \<and> cr_subject (n_creator n) = rh_subject x
         else mtrue (rh_projects x) p))"

definition reads_node :: "reach option \<Rightarrow> node \<Rightarrow> bool" where
  "reads_node r n = reach_sees (reach_in r (n_namespace n)) n"

definition reach_keep :: "reach option \<Rightarrow> node list \<Rightarrow> link list \<Rightarrow> node list \<times> link list" where
  "reach_keep r nodes links = (case r of None \<Rightarrow> (nodes, links)
     | Some x \<Rightarrow> (let hidden = foldl (\<lambda>m n. mput (n_id n) (\<not> reads_node r n) m) [] nodes in
         (filter (reads_node r) nodes,
          filter (\<lambda>l. \<not> (mtrue hidden (nr_id (k_from l)) \<or> (\<not> link_external l \<and> mtrue hidden (nr_id (k_to l))))) links)))"

subsection \<open>Chains of the structures\<close>

text \<open>A chain is what the parents lead to, and the root.\<close>

definition up :: "hierarchy \<Rightarrow> (string \<times> string) set" where
  "up h = {(a, b). map_of (h_parent h) a = Some b \<and> b \<noteq> []}"

lemma chain_walk_up:
  assumes "set out \<subseteq> (up h)\<^sup>* `` {k}" and "cur \<in> set out" and "k \<in> set out"
    and "\<And>a b. a \<in> set out \<Longrightarrow> a \<noteq> cur \<Longrightarrow> (a, b) \<in> up h \<Longrightarrow> b \<in> set out"
  shows "set (chain_walk (h_parent h) out cur) = (up h)\<^sup>* `` {k}"
proof -
  define m where "m = h_parent h"
  have u: "(a, b) \<in> up h \<longleftrightarrow> map_of m a = Some b \<and> b \<noteq> []" for a b by (simp add: up_def m_def)
  have "set (chain_walk m out cur) = (up h)\<^sup>* `` {k}" using assms u
  proof (induction m out cur rule: chain_walk.induct)
    case (1 m out cur)
    show ?case
    proof (cases "\<exists>p. map_of m cur = Some p \<and> p \<noteq> [] \<and> p \<notin> set out")
      case True
      then obtain p where p: "map_of m cur = Some p" "p \<noteq> []" "p \<notin> set out" by blast
      have cp: "(cur, p) \<in> up h" using p(1,2) 1(6) by blast
      have kc: "(k, cur) \<in> (up h)\<^sup>*" using 1(2,3) by blast
      have "set (chain_walk m (out @ [p]) p) = (up h)\<^sup>* `` {k}"
      proof (rule 1(1) [OF p(1)])
        show "\<not> (p = [] \<or> p \<in> set out)" using p by simp
        show "set (out @ [p]) \<subseteq> (up h)\<^sup>* `` {k}" using 1(2) kc cp by auto
        show "p \<in> set (out @ [p])" "k \<in> set (out @ [p])" using 1(4) by auto
        show "b \<in> set (out @ [p])" if "a \<in> set (out @ [p])" "a \<noteq> p" "(a, b) \<in> up h" for a b
        proof (cases "a = cur")
          case True then show ?thesis using that(3) p(1) 1(6) by simp
        next
          case False then show ?thesis using that 1(5) [of a b] by auto
        qed
        show "\<And>a b. (a, b) \<in> up h \<longleftrightarrow> map_of m a = Some b \<and> b \<noteq> []" by (rule 1(6))
      qed
      then show ?thesis using p by (subst chain_walk.simps) simp
    next
      case False
      then have r: "chain_walk m out cur = out" by (subst chain_walk.simps) (auto split: option.splits)
      have c: "b \<in> set out" if "a \<in> set out" "(a, b) \<in> up h" for a b
        using that False 1(5) [of a b] 1(6) by (cases "a = cur") auto
      have "x \<in> set out" if "(k, x) \<in> (up h)\<^sup>*" for x
        using that by (induction rule: rtrancl_induct) (use 1(4) c in auto)
      then show ?thesis using 1(2) r by auto
    qed
  qed
  then show ?thesis by (simp add: m_def)
qed

lemma set_h_chain:
  "set (h_chain h key) = insert (h_root h) ((up h)\<^sup>* `` {if key = [] then h_root h else key})"
  using chain_walk_up [of "[k]" h k k for k] by (auto simp: h_chain_def Let_def)

text \<open>The chain of a node of a chain stays in it, when the root has no parent.\<close>

lemma h_chain_sub:
  assumes "q \<in> set (h_chain h k)" and "h_parent_of h (h_root h) = []"
  shows "set (h_chain h q) \<subseteq> set (h_chain h k)"
proof -
  have r: "(up h)\<^sup>* `` {h_root h} = {h_root h}"
  proof -
    have n: "(h_root h, b) \<notin> up h" for b using assms(2) by (auto simp: up_def h_parent_of_def)
    have "x = h_root h" if "(h_root h, x) \<in> (up h)\<^sup>*" for x
      using that by (induction rule: rtrancl_induct) (use n in auto)
    then show ?thesis by auto
  qed
  show ?thesis
  proof (cases "q = [] \<or> q = h_root h")
    case True
    then show ?thesis using r by (auto simp: set_h_chain)
  next
    case False
    then show ?thesis using assms(1) by (auto simp: set_h_chain intro: rtrancl_trans)
  qed
qed

lemma h_chain_key: "key \<noteq> [] \<Longrightarrow> key \<in> set (h_chain h key)"
  by (simp add: set_h_chain)

subsection \<open>What the Assignments grant\<close>

lemma foldl_grants:
  "set (foldl (\<lambda>out a. if c a then out else add_new out (f a)) out as) = set out \<union> (\<Union>a \<in> {a \<in> set as. \<not> c a}. set (f a))"
  by (induction as arbitrary: out) auto

lemma set_project_roles:
  "set (project_roles s orgs projects) = (\<Union>a \<in> {a \<in> set (sn_assignments s). as_org a \<in> set orgs \<and> as_project a \<in> set projects}. set (as_roles a))"
  unfolding project_roles_def foldl_grants by simp

lemma set_platform_roles:
  "set (platform_roles s orgs) = (\<Union>a \<in> {a \<in> set (sn_assignments s). as_project a = [] \<and> as_org a \<in> set orgs}. set (as_roles a))"
  unfolding platform_roles_def foldl_grants by simp

text \<open>The Assignments that give the flags of a project.\<close>

definition flag_grants :: "snapshot \<Rightarrow> string list \<Rightarrow> string list \<Rightarrow> assignment set" where
  "flag_grants s orgs projects = {a \<in> set (sn_assignments s). as_project a \<noteq> [] \<and> as_org a \<in> set orgs \<and> as_project a \<in> set projects}"

lemma project_flags_alt:
  "project_flags s orgs projects = ((\<exists>a \<in> flag_grants s orgs projects. as_admin a \<or> as_owner a), (\<exists>a \<in> flag_grants s orgs projects. as_owner a))"
proof -
  have "foldl (\<lambda>(admin, owner) a. if as_project a = [] \<or> as_org a \<notin> set orgs \<or> as_project a \<notin> set projects then (admin, owner)
       else (admin \<or> as_admin a \<or> as_owner a, owner \<or> as_owner a)) (x, y) as
    = (x \<or> (\<exists>a \<in> {a \<in> set as. as_project a \<noteq> [] \<and> as_org a \<in> set orgs \<and> as_project a \<in> set projects}. as_admin a \<or> as_owner a),
       y \<or> (\<exists>a \<in> {a \<in> set as. as_project a \<noteq> [] \<and> as_org a \<in> set orgs \<and> as_project a \<in> set projects}. as_owner a))" for x y as
    by (induction as arbitrary: x y) auto
  from this [of False False "sn_assignments s"] show ?thesis unfolding project_flags_def flag_grants_def by simp
qed

lemma flags_mono: "set projects \<subseteq> set projects' \<Longrightarrow>
   (fst (project_flags s orgs projects) \<longrightarrow> fst (project_flags s orgs projects'))
   \<and> (snd (project_flags s orgs projects) \<longrightarrow> snd (project_flags s orgs projects'))"
  by (auto simp: project_flags_alt flag_grants_def)

lemma owner_is_admin: "snd (project_flags s orgs projects) \<Longrightarrow> fst (project_flags s orgs projects)"
  by (auto simp: project_flags_alt)

subsection \<open>Enrichment\<close>

definition with_org :: "snapshot \<Rightarrow> principal \<Rightarrow> principal" where
  "with_org s p = (case map_of (sn_users s) (pr_subject p) of Some u \<Rightarrow> if pr_org p = [] then p\<lparr>pr_org := us_unit u\<rparr> else p | None \<Rightarrow> p)"

lemma subject_chain_with_org [simp]: "subject_chain s (with_org s p) = subject_chain s p"
  by (simp add: subject_chain_def with_org_def split: option.splits)

lemma with_org_fields [simp]: "pr_subject (with_org s p) = pr_subject p" "pr_roles (with_org s p) = pr_roles p"
    "pr_global (with_org s p) = pr_global p"
  by (simp_all add: with_org_def split: option.splits)

lemma split_roles:
  "foldl (\<lambda>(roles, global) r. if r \<in> P then (roles, add_new global [r]) else (add_new roles [r], global)) (rs0, g0) rs
   = (add_new rs0 (filter (\<lambda>r. r \<notin> P) rs), add_new g0 (filter (\<lambda>r. r \<in> P) rs))"
  by (induction rs arbitrary: rs0 g0) (simp_all add: add_new_def)

lemma enrich_alt:
  "enrich s p = (if anonymous p then p else (with_org s p)\<lparr>
     pr_roles := add_new [] (filter (\<lambda>r. r \<notin> set platform_role_names) (pr_roles p)),
     pr_global := add_new (add_new (pr_global p) (filter (\<lambda>r. r \<in> set platform_role_names) (pr_roles p))) (platform_roles s (subject_chain s p))\<rparr>)"
  unfolding enrich_def with_org_def [symmetric] Let_def split_roles by simp

lemma enrich_subject [simp]: "pr_subject (enrich s p) = pr_subject p" "anonymous (enrich s p) = anonymous p"
  by (simp_all add: enrich_alt anonymous_def)

lemma subject_chain_enrich [simp]: "subject_chain s (enrich s p) = subject_chain s p"
proof (cases "anonymous p")
  case False
  have "subject_chain s (q\<lparr>pr_roles := a, pr_global := b\<rparr>) = subject_chain s q" for q a b
    by (cases "map_of (sn_users s) (pr_subject q)") (simp_all add: subject_chain_def)
  then show ?thesis using False by (simp add: enrich_alt)
qed (simp add: enrich_alt)

lemma enriched_roles: "\<not> anonymous p \<Longrightarrow> set (pr_roles (enrich s p)) = set (pr_roles p) - set platform_role_names"
  by (auto simp: enrich_alt)

lemma enriched_global: "\<not> anonymous p \<Longrightarrow> set (pr_global (enrich s p))
   = set (pr_global p) \<union> (set (pr_roles p) \<inter> set platform_role_names) \<union> set (platform_roles s (subject_chain s p))"
  by (auto simp: enrich_alt)

text \<open>The roles of a principal who may do everything: from its token, from a platform Assignment, on the project.\<close>

definition admin_of :: "snapshot \<Rightarrow> principal \<Rightarrow> bool" where
  "admin_of s p \<longleftrightarrow> role_admin \<in> set (pr_roles p) \<or> role_admin \<in> set (pr_global p) \<or> role_admin \<in> set (platform_roles s (subject_chain s p))"

lemma has_role_admin_enrich: "\<not> anonymous p \<Longrightarrow> has_role (enrich s p) role_admin \<longleftrightarrow> admin_of s p"
  by (auto simp: has_role_def enriched_roles enriched_global admin_of_def platform_role_names_def)

subsection \<open>Properties of the access\<close>

text \<open>
  C24. The rights on a project reach the projects below it: who may access a project, administers it or owns
  it, has the same on every project whose chain holds it, and a stopped project stops those below it.
\<close>

theorem rights_flow_down:
  assumes "q \<in> set (project_chain s project)" and "h_parent_of (sn_projects s) (h_root (sn_projects s)) = []"
  shows "(may_access_project s p q \<longrightarrow> may_access_project s p project)
     \<and> (fst (project_flags s orgs (project_chain s q)) \<longrightarrow> fst (project_flags s orgs (project_chain s project)))
     \<and> (snd (project_flags s orgs (project_chain s q)) \<longrightarrow> snd (project_flags s orgs (project_chain s project)))
     \<and> (project_owned s q \<longrightarrow> project_owned s project) \<and> (project_stopped s q \<longrightarrow> project_stopped s project)"
proof -
  have sub: "set (project_chain s q) \<subseteq> set (project_chain s project)"
    using h_chain_sub assms by (simp add: project_chain_def)
  have f: "(fst (project_flags s orgs (project_chain s q)) \<longrightarrow> fst (project_flags s orgs (project_chain s project)))
     \<and> (snd (project_flags s orgs (project_chain s q)) \<longrightarrow> snd (project_flags s orgs (project_chain s project)))" for orgs
    using flags_mono [OF sub] .
  have r: "project_roles s orgs (project_chain s q) \<noteq> [] \<Longrightarrow> project_roles s orgs (project_chain s project) \<noteq> []" for orgs
  proof -
    have "set (project_roles s orgs (project_chain s q)) \<subseteq> set (project_roles s orgs (project_chain s project))"
      unfolding set_project_roles using sub by blast
    then show "project_roles s orgs (project_chain s q) \<noteq> [] \<Longrightarrow> ?thesis" by auto
  qed
  have "may_access_project s p q \<longrightarrow> may_access_project s p project"
    unfolding may_access_project_def Let_def using f r by auto
  moreover have "project_owned s q \<longrightarrow> project_owned s project" "project_stopped s q \<longrightarrow> project_stopped s project"
    unfolding project_owned_def project_stopped_def list_ex_iff using sub by blast+
  ultimately show ?thesis using f by blast
qed

definition demo_structures :: "structure_set list" where
  "demo_structures = [zero_structure\<lparr>s_kind := ''organisation'', s_type := ''organisation@OrgUnit'', s_namespace := ''organisation'',
      s_parent := ''organisation@part_of'', s_root := ''ORG'', s_types := [''organisation@OrgUnit'', type_user]\<rparr>,
    zero_structure\<lparr>s_kind := ''project'', s_type := type_project_unit, s_namespace := ''organisation'',
      s_parent := link_project_part_of, s_root := ''ROOT'', s_types := [type_project_unit]\<rparr>]"

definition demo_node :: "string \<Rightarrow> string \<Rightarrow> (string, gval) gomap \<Rightarrow> node" where
  "demo_node t k ps = zero_node\<lparr>n_id := k, n_type := t, n_key := k, n_props := Some ps\<rparr>"

definition demo_edge :: "string \<Rightarrow> string \<Rightarrow> string \<Rightarrow> link" where
  "demo_edge t a b = \<lparr>k_id = [], k_type = t, k_from = \<lparr>nr_id = a, nr_version = 1\<rparr>, k_to = \<lparr>nr_id = b, nr_version = 1\<rparr>,
     k_target = zero_url, k_props = None, k_change = []\<rparr>"

text \<open>A project P with a sub-project S; ann holds the roles of an Assignment on P.\<close>

definition demo_nodes :: "string list \<Rightarrow> bool \<Rightarrow> node list" where
  "demo_nodes roles adm = [demo_node type_project_unit ''ROOT'' [], demo_node type_project_unit ''P'' [], demo_node type_project_unit ''S'' [],
     demo_node type_user ''USR:ann'' [(''subject'', GStr ''ann'')],
     demo_node type_assignment ''A'' [(''roles'', GList (map GStr roles)), (''admin'', GBool adm)]]"

definition demo_edges :: "link list" where
  "demo_edges = [demo_edge link_project_part_of ''P'' ''ROOT'', demo_edge link_project_part_of ''S'' ''P'',
     demo_edge link_assigns_org ''A'' ''USR:ann'', demo_edge link_assigns_project ''A'' ''P'']"

definition demo_snapshot :: "string list \<Rightarrow> bool \<Rightarrow> snapshot" where
  "demo_snapshot roles adm = build_snapshot id (\<lambda>_. True) id demo_structures ''c'' (demo_nodes roles adm) demo_edges"

definition ann :: principal where
  "ann = zero_principal\<lparr>pr_subject := ''ann''\<rparr>"

theorem rights_flow_down_witness:
  "may_access_project (demo_snapshot [''dev''] True) ann ''S'' \<and> \<not> may_access_project (demo_snapshot [''dev''] True) ann ''ROOT''
   \<and> fst (project_flags (demo_snapshot [''dev''] True) [''USR:ann''] (project_chain (demo_snapshot [''dev''] True) ''S''))"
proof -
  have h: "''P'' \<in> set (project_chain (demo_snapshot [''dev''] True) ''S'')"
    "h_parent_of (sn_projects (demo_snapshot [''dev''] True)) (h_root (sn_projects (demo_snapshot [''dev''] True))) = []"
    "may_access_project (demo_snapshot [''dev''] True) ann ''P''" "\<not> may_access_project (demo_snapshot [''dev''] True) ann ''ROOT''"
    "fst (project_flags (demo_snapshot [''dev''] True) [''USR:ann''] (project_chain (demo_snapshot [''dev''] True) ''P''))"
    by code_simp+
  show ?thesis using rights_flow_down [OF h(1,2)] h(3-5) by blast
qed

text \<open>The completed request: its subject is the enriched one with the roles and flags of the project.\<close>

definition project_asked :: "snapshot \<Rightarrow> resource \<Rightarrow> string list" where
  "project_asked s res = project_chain s (if ob_project_id res = [] then root_project s else ob_project_id res)"

lemma completed_subject:
  fixes s :: snapshot and rq :: access_request
  defines "p \<equiv> (aq_subject rq)\<lparr>pr_project_admin := False, pr_project_owner := False\<rparr>"
    and "q \<equiv> aq_subject (complete_request (Some s) rq)"
  shows "pr_subject q = pr_subject (aq_subject rq)" "pr_global q = pr_global (enrich s p)"
    "pr_roles q = add_new (pr_roles (enrich s p)) (project_roles s (subject_chain s p) (project_asked s (aq_resource rq)))"
    "pr_project_owner q \<longrightarrow> ob_project_id (aq_resource rq) \<noteq> [] \<and> snd (project_flags s (subject_chain s p) (project_asked s (aq_resource rq)))"
proof -
  have e: "pr_project_owner (enrich s p) = False"
    by (simp add: enrich_alt p_def with_org_def split: option.splits)
  show "pr_subject q = pr_subject (aq_subject rq)" "pr_global q = pr_global (enrich s p)"
    "pr_roles q = add_new (pr_roles (enrich s p)) (project_roles s (subject_chain s p) (project_asked s (aq_resource rq)))"
    "pr_project_owner q \<longrightarrow> ob_project_id (aq_resource rq) \<noteq> [] \<and> snd (project_flags s (subject_chain s p) (project_asked s (aq_resource rq)))"
    using e by (simp_all add: q_def complete_request_def Let_def p_def [symmetric] project_asked_def) (simp_all add: p_def)
qed

lemma completed_fields [simp]: "aq_action (complete_request sn rq) = aq_action rq"
    "ob_type (aq_resource (complete_request sn rq)) = ob_type (aq_resource rq)"
    "ob_owner (aq_resource (complete_request sn rq)) = ob_owner (aq_resource rq)"
  by (simp_all add: complete_request_def Let_def split: option.split)

lemma subject_chain_flags [simp]: "subject_chain s (p\<lparr>pr_project_admin := x, pr_project_owner := y\<rparr>) = subject_chain s p"
  by (cases "map_of (sn_users s) (pr_subject p)") (simp_all add: subject_chain_def)

lemma admin_of_flags [simp]: "admin_of s (p\<lparr>pr_project_admin := x, pr_project_owner := y\<rparr>) = admin_of s p"
  by (simp add: admin_of_def)

text \<open>Who holds the role of administrator for a request: platform-wide, or among the roles of the project asked for.\<close>

definition admin_for :: "snapshot \<Rightarrow> access_request \<Rightarrow> bool" where
  "admin_for s rq \<longleftrightarrow> admin_of s (aq_subject rq)
     \<or> role_admin \<in> set (project_roles s (subject_chain s (aq_subject rq)) (project_asked s (aq_resource rq)))"

lemma completed_admin:
  assumes "\<not> anonymous (aq_subject rq)"
  shows "has_role (aq_subject (complete_request (Some s) rq)) role_admin \<longleftrightarrow> admin_for s rq"
proof -
  let ?p = "(aq_subject rq)\<lparr>pr_project_admin := False, pr_project_owner := False\<rparr>"
  have a: "\<not> anonymous ?p" using assms by (simp add: anonymous_def)
  show ?thesis
    using has_role_admin_enrich [OF a, of s] completed_subject [of s rq]
    by (auto simp: has_role_def admin_for_def)
qed

lemma completed_known [simp]: "anonymous (aq_subject (complete_request (Some s) rq)) = anonymous (aq_subject rq)"
  using completed_subject(1) [of s rq] by (simp add: anonymous_def)

lemma authorize_some:
  assumes "\<not> anonymous (aq_subject rq)"
  shows "snd (authorize compiles stored (Some s) a rq) = (if admin_for s rq then Some True
     else run_enforcer stored (snd (pick_enforcer compiles a (Some s))) (complete_request (Some s) rq))"
  using completed_admin [OF assms] assms
  by (simp add: authorize_def Let_def split_def floor_is_admin role_admin_def)

text \<open>What a caller of an authorizer relies on: nobody unknown is granted, an administrator always is.\<close>

locale deciding_authorizer =
  fixes decide :: "access_request \<Rightarrow> bool option" and administers :: "principal \<Rightarrow> bool"
  assumes anonymous_denied: "anonymous (aq_subject rq) \<Longrightarrow> decide rq = Some False"
    and administrator_granted: "\<not> anonymous (aq_subject rq) \<Longrightarrow> administers (aq_subject rq) \<Longrightarrow> decide rq = Some True"
begin

lemma check_anonymous: "anonymous (aq_subject rq) \<Longrightarrow> check_access (Some decide) rq = Forbidden"
  by (simp add: check_access_def anonymous_denied)

lemma check_administrator: "\<not> anonymous (aq_subject rq) \<Longrightarrow> administers (aq_subject rq) \<Longrightarrow> check_access (Some decide) rq = Granted"
  by (simp add: check_access_def administrator_granted)

lemma granted_known: "check_access (Some decide) rq = Granted \<Longrightarrow> \<not> anonymous (aq_subject rq)"
  using check_anonymous by fastforce

end

interpretation az: deciding_authorizer "\<lambda>rq. snd (authorize compiles stored (Some s) a rq)" "admin_of s" for compiles stored s a
  by unfold_locales (auto simp: authorize_some admin_for_def, simp add: authorize_def)

interpretation fl: deciding_authorizer "\<lambda>rq. Some (floor_authorize (Some s) rq)" "admin_of s" for s
  by unfold_locales (simp_all add: floor_authorize_def floor_is_admin has_role_admin_enrich [unfolded role_admin_def])

text \<open>
  C9. No stored policy locks an administrator out: whoever holds the role of administrator on the platform, by
  its token, an Assignment of its own or of a unit above it, is granted every request, whatever policies are
  stored, compile or fail, and passes the floor that guards the policies themselves.
\<close>

theorem floor_holds:
  assumes "\<not> anonymous (aq_subject rq')" and "admin_of s (aq_subject rq')"
  shows "check_access (Some (\<lambda>rq. snd (authorize compiles stored (Some s) a rq))) rq' = Granted
     \<and> check_access (Some (\<lambda>rq. Some (floor_authorize (Some s) rq))) rq' = Granted"
  using az.check_administrator [OF assms] fl.check_administrator [OF assms] by blast

definition ask :: "principal \<Rightarrow> string \<Rightarrow> string \<Rightarrow> string \<Rightarrow> string \<Rightarrow> access_request" where
  "ask p t act project own = \<lparr>aq_subject = p, aq_action = act, aq_resource = \<lparr>ob_type = t, ob_id = [], ob_org = [], ob_namespace = [],
     ob_owner = own, ob_name = [], ob_role = [], ob_accountable = [], ob_org_chain = [], ob_project_id = project, ob_roles = []\<rparr>\<rparr>"

definition new_authorizer :: authorizer where
  "new_authorizer = \<lparr>az_commit = [], az_casbin = None\<rparr>"

text \<open>The organisation of the example with a stored policy, and ann an administrator by a platform Assignment.\<close>

definition demo_platform :: snapshot where
  "demo_platform = build_snapshot id (\<lambda>_. True) id demo_structures ''c''
     (demo_nodes [''admin''] False @ [demo_node type_policy ''POL'' [(''rule'', GStr ''true''), (''resource'', GStr ''*''),
        (''action'', GStr ''*''), (''effect'', GStr ''deny'')]])
     [demo_edge link_assigns_org ''A'' ''USR:ann'']"

theorem floor_holds_witness:
  "sn_policies demo_platform \<noteq> []
   \<and> check_access (Some (\<lambda>rq. snd (authorize (\<lambda>_. True) (\<lambda>_ _. Some False) (Some demo_platform) new_authorizer rq)))
       (ask ann ''policy'' ''write'' [] []) = Granted"
proof -
  have h: "\<not> anonymous (aq_subject (ask ann ''policy'' ''write'' [] []))"
    "admin_of demo_platform (aq_subject (ask ann ''policy'' ''write'' [] []))" "sn_policies demo_platform \<noteq> []"
    by code_simp+
  show ?thesis using floor_holds [OF h(1,2)] h(3) by blast
qed

text \<open>
  C6. Under the compiled-in policies, what comes from possessing a project (the flags of its Assignments, its
  stopping, its place) is granted to its owners only, and nobody applies their own change nor approves a step
  on it: but for those who hold the role of administrator, platform-wide or among the roles of the project.
\<close>

theorem reserved_rights:
  assumes "snd (authorize compiles stored (Some s) a rq) = Some True" and "sn_policies s = []" and "\<not> admin_for s rq"
  shows "((ob_type (aq_resource rq), aq_action rq) = (''assignment'', ''flag'') \<or> (ob_type (aq_resource rq), aq_action rq) = (''project'', ''stop'')
           \<or> (ob_type (aq_resource rq), aq_action rq) = (''project'', ''move'')
         \<longrightarrow> ob_project_id (aq_resource rq) \<noteq> []
           \<and> snd (project_flags s (subject_chain s (aq_subject rq)) (project_asked s (aq_resource rq))))
     \<and> ((ob_type (aq_resource rq), aq_action rq) = (''change'', ''apply'') \<or> (ob_type (aq_resource rq), aq_action rq) = (''step'', ''approve'')
         \<longrightarrow> pr_subject (aq_subject rq) \<noteq> ob_owner (aq_resource rq))"
proof -
  have k: "\<not> anonymous (aq_subject rq)" using assms(1) by (auto simp: authorize_def)
  let ?rq = "complete_request (Some s) rq"
  have e: "enforce default_policies ?rq"
    using assms authorize_some [OF k, of compiles stored s a] by (auto simp: pick_enforcer_def run_enforcer_def)
  have na: "\<not> has_role (aq_subject ?rq) ''admin''" using completed_admin [OF k, of s] assms(3) by (simp add: role_admin_def)
  have no: "pr_project_owner (aq_subject ?rq)"
    if "deny not_owner t act \<in> set default_policies" "ob_type (aq_resource rq) = t" "aq_action rq = act" for t act
    using enforce_denied [OF that(1), of ?rq] e na that(2,3) by (auto simp: matching_def deny_def not_owner_def)
  have nown: "pr_subject (aq_subject rq) \<noteq> ob_owner (aq_resource rq)"
    if "deny own_object t act \<in> set default_policies" "ob_type (aq_resource rq) = t" "aq_action rq = act" for t act
    using enforce_denied [OF that(1), of ?rq] e na that(2,3) completed_subject(1) [of s rq]
    by (auto simp: matching_def deny_def own_object_def)
  show ?thesis
    using no [OF default_denials(1)] no [OF default_denials(2)] no [OF default_denials(3)]
      nown [OF default_denials(4)] nown [OF default_denials(5)] completed_subject(4) [of s rq] by auto
qed

theorem reserved_rights_witness:
  "snd (authorize (\<lambda>_. True) (\<lambda>_ _. None) (Some (demo_snapshot [''dev''] True)) new_authorizer (ask ann ''change'' ''apply'' ''S'' ''bob'')) = Some True
   \<and> pr_subject ann \<noteq> ''bob''
   \<and> snd (authorize (\<lambda>_. True) (\<lambda>_ _. None) (Some (demo_snapshot [''dev''] True)) new_authorizer (ask ann ''change'' ''apply'' ''S'' ''ann'')) = Some False"
proof -
  let ?s = "demo_snapshot [''dev''] True" and ?q = "ask ann ''change'' ''apply'' ''S'' ''bob''"
  have h: "snd (authorize (\<lambda>_. True) (\<lambda>_ _. None) (Some ?s) new_authorizer ?q) = Some True" "sn_policies ?s = []" "\<not> admin_for ?s ?q"
    "snd (authorize (\<lambda>_. True) (\<lambda>_ _. None) (Some ?s) new_authorizer (ask ann ''change'' ''apply'' ''S'' ''ann'')) = Some False"
    by code_simp+
  have "pr_subject (aq_subject ?q) \<noteq> ob_owner (aq_resource ?q)" using reserved_rights [OF h(1-3)] by (simp add: ask_def)
  then show ?thesis using h(1,4) by (simp add: ask_def)
qed

text \<open>
  The role of administrator named by the Assignment of a project counts as the platform role on the
  resources of the project: an administrator of a project who is not its owner sets its flags once the
  Assignment lists that role, which the validators of the writes do not look at.
\<close>

theorem project_role_escalates:
  "let s = demo_snapshot [''admin''] True; chain = subject_chain s ann; rq = ask ann ''assignment'' ''flag'' ''P'' [] in
     snd (project_flags s chain (project_chain s ''P'')) = False \<and> platform_roles s chain = []
   \<and> snd (authorize (\<lambda>_. True) (\<lambda>_ _. None) (Some s) new_authorizer rq) = Some True
   \<and> snd (authorize (\<lambda>_. True) (\<lambda>_ _. None) (Some (demo_snapshot [''dev''] True)) new_authorizer rq) = Some False"
  unfolding Let_def by (intro conjI; code_simp)

lemma mtrue_keys_map [simp]: "mtrue (keys_map l) k \<longleftrightarrow> k \<in> set l"
proof -
  have "mtrue (foldl (\<lambda>m k. mput k True m) m l) k \<longleftrightarrow> mtrue m k \<or> k \<in> set l" for m
    by (induction l arbitrary: m) (auto simp: mtrue_def)
  then show ?thesis by (simp add: keys_map_def mtrue_def)
qed

text \<open>
  C23. The graph and the index decide the same: when no key in the reach set of the reader is empty, the
  reach of the caller of a read sees a version exactly when the namespace of the version is open (read
  whole) or the reach set of the reader holds the keys of the version; and a version seen at a scope is
  seen at every wider one from the scope of the project on (who sees a personal version need not see it
  when it is private to a unit).
\<close>

theorem reach_same_answer:
  fixes s :: snapshot and p :: principal
  defines "sets \<equiv> (\<lambda>q. Some (reach_set_of s q))" and "R \<equiv> reach_set_of s (reader p)"
  assumes "reach_of sets p = Some (Some r)" and "[] \<notin> set (rc_projects R) \<union> set (rc_trees R) \<union> set (rc_units R)"
  shows "reads_node (Some r) n = (mtrue open_namespaces (namespace_of (n_namespace n))
       \<or> reach_holds R (u_key (n_project n)) (n_visibility n) (u_key (n_responsible n)) (cr_subject (n_creator n)))
     \<and> (\<forall>i < length visibilities. \<forall>j < length visibilities. i \<le> j \<and> 2 \<le> j \<longrightarrow> reads_node (Some r) (n\<lparr>n_visibility := visibilities ! i\<rparr>)
          \<longrightarrow> reads_node (Some r) (n\<lparr>n_visibility := visibilities ! j\<rparr>))"
proof -
  have r: "r = \<lparr>rh_projects = keys_map (rc_projects R), rh_trees = keys_map (rc_trees R), rh_units = keys_map (rc_units R),
      rh_subject = rc_subject R, rh_namespaces = open_namespaces\<rparr>"
    using assms(3) by (simp add: reach_of_def Let_def sets_def R_def split: if_splits)
  have reads: "reads_node (Some r) m \<longleftrightarrow> mtrue open_namespaces (namespace_of (n_namespace m)) \<or> reach_sees (Some r) m" for m
    by (simp add: reads_node_def reach_in_def r) (simp add: reach_sees_def)
  have sees: "reach_sees (Some r) m = reach_holds R (u_key (n_project m)) (n_visibility m) (u_key (n_responsible m)) (cr_subject (n_creator m))" for m
    using assms(4) by (auto simp: reach_sees_def reach_holds_def r Let_def)
  have wider: "reach_holds R k (visibilities ! i) u c \<Longrightarrow> reach_holds R k (visibilities ! j) u c"
    if "i \<le> j" "2 \<le> j" "j < length visibilities" for i j k u c
  proof -
    define H where "H = (\<lambda>i. reach_holds R k (visibilities ! i) u c)"
    define P where "P \<longleftrightarrow> k \<noteq> [] \<and> k \<in> set (rc_projects R)"
    have H: "H 0 \<longleftrightarrow> P \<and> rc_subject R \<noteq> [] \<and> c = rc_subject R" "H 1 \<longleftrightarrow> P \<and> u \<noteq> [] \<and> u \<in> set (rc_units R)" "H 2 \<longleftrightarrow> P"
      "H 3 \<longleftrightarrow> k \<noteq> [] \<and> k \<in> set (rc_trees R) \<or> P" "H 4"
      by (simp_all add: H_def P_def visibilities_def reach_holds_def visibility_of_def)
    have "j = 2 \<or> j = 3 \<or> j = 4" "i = 0 \<or> i = 1 \<or> i = 2 \<or> i = 3 \<or> i = 4" using that by (auto simp: visibilities_def)
    then have "H i \<Longrightarrow> H j" using that(1) H by (elim disjE) simp_all
    then show "reach_holds R k (visibilities ! i) u c \<Longrightarrow> ?thesis" by (simp add: H_def)
  qed
  have "reads_node (Some r) (n\<lparr>n_visibility := v\<rparr>) \<longleftrightarrow> mtrue open_namespaces (namespace_of (n_namespace n))
      \<or> reach_holds R (u_key (n_project n)) v (u_key (n_responsible n)) (cr_subject (n_creator n))" for v
    using reads [of "n\<lparr>n_visibility := v\<rparr>"] sees [of "n\<lparr>n_visibility := v\<rparr>"] by simp
  then show ?thesis using reads [of n] sees [of n] wider by (intro conjI allI impI) blast+
qed

text \<open>A node of the project P, in a namespace of its own.\<close>

definition demo_version :: node where
  "demo_version = zero_node\<lparr>n_id := ''n'', n_namespace := ''alm'', n_visibility := ''tree'', n_project := zero_url\<lparr>u_key := ''S''\<rparr>\<rparr>"

theorem reach_same_answer_witness:
  "reach_of (\<lambda>q. Some (reach_set_of (demo_snapshot [''dev''] False) q)) (system_principal ''x'' [] \<lparr>pr_on_behalf_of := ''ann''\<rparr>) \<noteq> Some None
   \<and> rc_trees (reach_set_of (demo_snapshot [''dev''] False) ann) = [''P'', ''S'']
   \<and> reach_holds (reach_set_of (demo_snapshot [''dev''] False) ann) ''S'' ''tree'' [] []
   \<and> (\<exists>r. reads_node (Some r) demo_version)"
proof -
  let ?s = "demo_snapshot [''dev''] False" and ?p = "system_principal ''x'' [] \<lparr>pr_on_behalf_of := ''ann''\<rparr>"
  let ?o = "reach_of (\<lambda>q. Some (reach_set_of ?s q)) ?p" and ?R = "reach_set_of ?s (reader ?p)"
  have c: "?o \<noteq> Some None" "?o \<noteq> None" "\<not> mtrue open_namespaces (namespace_of (n_namespace demo_version))"
    "[] \<notin> set (rc_projects ?R) \<union> set (rc_trees ?R) \<union> set (rc_units ?R)"
    "rc_trees (reach_set_of ?s ann) = [''P'', ''S'']" "reach_holds (reach_set_of ?s ann) ''S'' ''tree'' [] []" "reader ?p = ann"
    by code_simp+
  then obtain r where r: "?o = Some (Some r)" by auto
  have "reads_node (Some r) demo_version
      = reach_holds ?R (u_key (n_project demo_version)) (n_visibility demo_version) (u_key (n_responsible demo_version)) (cr_subject (n_creator demo_version))"
    using reach_same_answer [OF r c(4)] c(3) by blast
  also have "\<dots> = reach_holds (reach_set_of ?s ann) ''S'' ''tree'' [] []"
    unfolding c(7) by (simp add: demo_version_def zero_node_def zero_url_def)
  finally show ?thesis using c by blast
qed

end
