(* ===== verification/Validators.thy ===== *)
theory Validators
  imports Access
begin

text \<open>
  The validators that judge the writes of the organisation when a change is applied (lib/access/floor\_validator.go,
  project\_validator.go): an active administrator remains, the Assignments and projects are written within the rights
  of the person, a project that had an owner keeps one. They read the state the change leaves through a query, whose
  errors end the check.
\<close>

subsection \<open>Queries and verdicts\<close>

record validated_node =
  vn_post :: node
  vn_pre :: "node option"

record validator_query =
  vq_structures :: "structure_set list option"
  vq_nodes_of_type :: "string \<Rightarrow> string \<Rightarrow> node list option"
  vq_out_links :: "node_ref \<Rightarrow> link list option"
  vq_node :: "node_ref \<Rightarrow> node option"

datatype refusal = QueryFailed | NoAdministrator | PlatformFlag string | RightsUnknown | PlatformAssignment string
  | NeedsAdminister string string | NeedsOwn string string | RootProject string | LeavesNoOwner string

text \<open>The first refusal of a loop that returns at one.\<close>

primrec first_refusal :: "('a \<Rightarrow> refusal option) \<Rightarrow> 'a list \<Rightarrow> refusal option" where
  "first_refusal f [] = None"
| "first_refusal f (x # xs) = (case f x of Some e \<Rightarrow> Some e | None \<Rightarrow> first_refusal f xs)"

text \<open>The loops that append what a query gives for each element, or fail.\<close>

primrec gather :: "('a \<Rightarrow> 'b list option) \<Rightarrow> 'a list \<Rightarrow> 'b list option" where
  "gather f [] = Some []"
| "gather f (x # xs) = (case f x of None \<Rightarrow> None | Some ys \<Rightarrow> map_option ((@) ys) (gather f xs))"

definition nodes_with_links :: "validator_query \<Rightarrow> structure_set list \<Rightarrow> string list \<Rightarrow> (node \<times> link list) list option" where
  "nodes_with_links q st types = gather (\<lambda>t. case vq_nodes_of_type q (s_namespace (structure_of st ''organisation'')) t of None \<Rightarrow> None
     | Some ns \<Rightarrow> gather (\<lambda>n. map_option (\<lambda>ls. [(n, ls)]) (vq_out_links q (node_ref_of n))) ns) types"

subsection \<open>The last administrator\<close>

definition active_admin :: "snapshot \<Rightarrow> node \<Rightarrow> bool" where
  "active_admin s n \<longleftrightarrow> n_type n = type_user \<and> n_state n = ''active''
     \<and> (case user_from_props (n_props n) of None \<Rightarrow> False
        | Some u \<Rightarrow> has_role (enrich s (zero_principal\<lparr>pr_subject := us_subject u\<rparr>)) role_admin)"

text \<open>The loop over the nodes: whether a user was met, and whether it returned at an active administrator.\<close>

fun admin_loop :: "snapshot \<Rightarrow> bool \<Rightarrow> node list \<Rightarrow> refusal option" where
  "admin_loop s users [] = (if users then Some NoAdministrator else None)"
| "admin_loop s users (n # ns) = (let users1 = users \<or> n_type n = type_user in
     if active_admin s n then None else admin_loop s users1 ns)"

definition admin_floor :: "(string \<Rightarrow> string) \<Rightarrow> (string policy \<Rightarrow> bool) \<Rightarrow> (string list \<Rightarrow> string list) \<Rightarrow> validator_query \<Rightarrow> refusal option" where
  "admin_floor digest probe walk q = (case vq_structures q of None \<Rightarrow> Some QueryFailed
     | Some st \<Rightarrow> (case nodes_with_links q st [type_user, type_assignment, s_type (structure_of st ''organisation'')] of None \<Rightarrow> Some QueryFailed
       | Some nls \<Rightarrow> admin_loop (build_snapshot digest probe walk st [] (map fst nls) (concat (map snd nls))) False (map fst nls)))"

subsection \<open>The rights on Assignments and projects\<close>

text \<open>The key of the target of the first link of a type: None the error of a query.\<close>

definition linked_key :: "validator_query \<Rightarrow> node \<Rightarrow> string \<Rightarrow> string option" where
  "linked_key q n typ = (case vq_out_links q (node_ref_of n) of None \<Rightarrow> None
     | Some ls \<Rightarrow> (case find (\<lambda>l. k_type l = typ) ls of None \<Rightarrow> Some []
       | Some l \<Rightarrow> map_option n_key (vq_node q (k_to l))))"

definition project_node :: "validator_query \<Rightarrow> string \<Rightarrow> node option option" where
  "project_node q key = map_option (find (\<lambda>n. n_key n = key)) (vq_nodes_of_type q namespace_organisation type_project_unit)"

primrec chain_after :: "nat \<Rightarrow> validator_query \<Rightarrow> snapshot \<Rightarrow> string list \<Rightarrow> string \<Rightarrow> string list option" where
  "chain_after 0 q before chain project = Some chain"
| "chain_after (Suc n) q before chain project = (if has_project before project then Some (chain @ project_chain before project)
     else let chain1 = chain @ [project] in
       (case project_node q project of None \<Rightarrow> None
        | Some None \<Rightarrow> Some chain1
        | Some (Some nd) \<Rightarrow> (case linked_key q nd link_project_part_of of None \<Rightarrow> None
          | Some par \<Rightarrow> if par = [] \<or> par = project \<or> par \<in> set chain1 then Some chain1
              else chain_after n q before chain1 par)))"

definition chain_of_project :: "validator_query \<Rightarrow> snapshot \<Rightarrow> string \<Rightarrow> string list option" where
  "chain_of_project q before project = chain_after 64 q before [] project"

text \<open>
  The snapshots of the organisation after and before the change: each node the change wrote taken back to the version
  it started from, left out when it created it.
\<close>

definition snapshots_of :: "(string \<Rightarrow> string) \<Rightarrow> (string policy \<Rightarrow> bool) \<Rightarrow> (string list \<Rightarrow> string list) \<Rightarrow> validator_query \<Rightarrow>
    validated_node list \<Rightarrow> (snapshot \<times> snapshot) option" where
  "snapshots_of digest probe walk q impacted = (let
       written = foldl (\<lambda>m v. mput (n_id (vn_post v)) (vn_pre v) m) [] impacted in
     case vq_structures q of None \<Rightarrow> None
     | Some st \<Rightarrow> (case nodes_with_links q st [type_user, type_assignment, s_type (structure_of st ''organisation''), s_type (structure_of st ''project'')] of
         None \<Rightarrow> None
       | Some nls \<Rightarrow> (case gather (\<lambda>(n, ls). case map_of written (n_id n) of None \<Rightarrow> Some [(n, ls)]
             | Some None \<Rightarrow> Some []
             | Some (Some pre) \<Rightarrow> map_option (\<lambda>pls. [(pre, pls)]) (vq_out_links q (node_ref_of pre))) nls of None \<Rightarrow> None
         | Some was \<Rightarrow> Some (build_snapshot digest probe walk st [] (map fst nls) (concat (map snd nls)),
             build_snapshot digest probe walk st [] (map fst was) (concat (map snd was))))))"

definition need_right :: "validator_query \<Rightarrow> snapshot \<Rightarrow> string list \<Rightarrow> string \<Rightarrow> bool \<Rightarrow> string \<Rightarrow> refusal option" where
  "need_right q before subject project owner what = (case chain_of_project q before project of None \<Rightarrow> Some QueryFailed
     | Some chain \<Rightarrow> (let (admin, own) = project_flags before subject chain in
         if (owner \<and> \<not> own) \<or> \<not> admin then Some (if owner then NeedsOwn what project else NeedsAdminister what project) else None))"

definition judge_assignment :: "validator_query \<Rightarrow> snapshot \<Rightarrow> string list \<Rightarrow> validated_node \<Rightarrow> refusal option" where
  "judge_assignment q before subject v = (let n = vn_post v; what = n_key n in
     case linked_key q n link_assigns_project of None \<Rightarrow> Some QueryFailed
     | Some post \<Rightarrow> (let
         retired = (n_state n = state_retired);
         post_owner = (\<not> retired \<and> node_flag n ''owner'');
         post_admin = (\<not> retired \<and> node_flag n ''admin'');
         found = assignment_project before (n_key n);
         (pre, pre_owner, pre_admin) = (case found of None \<Rightarrow> ([], False, False) | Some x \<Rightarrow> x)
       in if post = [] \<or> pre = platform_scope then Some (PlatformAssignment what)
          else let flags = (post_owner \<noteq> pre_owner \<or> post_admin \<noteq> pre_admin);
                   projects = (if found \<noteq> None \<and> pre \<noteq> post then [post, pre] else [post])
            in first_refusal (\<lambda>p. need_right q before subject p flags what) projects))"

definition judge_project :: "validator_query \<Rightarrow> snapshot \<Rightarrow> string list \<Rightarrow> validated_node \<Rightarrow> refusal option" where
  "judge_project q before subject v = (let n = vn_post v; key = n_key n in
     case linked_key q n link_project_part_of of None \<Rightarrow> Some QueryFailed
     | Some par0 \<Rightarrow> (let par = (if par0 = key then [] else par0) in
         if vn_pre v = None \<or> \<not> has_project before key then
           (if par = [] then Some (RootProject key) else need_right q before subject par False key)
         else let was = project_of before key in
           if was = [] then Some (RootProject key)
           else if par \<noteq> was \<and> par = [] then Some (RootProject key)
           else (case (if par \<noteq> was then first_refusal (\<lambda>p. need_right q before subject p True key) [was, par] else None) of
               Some e \<Rightarrow> Some e
             | None \<Rightarrow> need_right q before subject key (node_flag (the (vn_pre v)) ''stopped'' \<noteq> node_flag n ''stopped'') key)))"

definition judge_node :: "validator_query \<Rightarrow> snapshot \<Rightarrow> string list \<Rightarrow> validated_node \<Rightarrow> refusal option" where
  "judge_node q before subject v = (if n_type (vn_post v) = type_assignment then judge_assignment q before subject v
     else if n_type (vn_post v) = type_project_unit then judge_project q before subject v else None)"

text \<open>Whoever writes it, a platform Assignment carries no flag of a project.\<close>

definition platform_flag :: "validator_query \<Rightarrow> validated_node \<Rightarrow> refusal option" where
  "platform_flag q v = (let n = vn_post v in
     if n_type n = type_assignment \<and> n_state n \<noteq> state_retired \<and> (node_flag n ''owner'' \<or> node_flag n ''admin'') then
       (case linked_key q n link_assigns_project of None \<Rightarrow> Some QueryFailed
        | Some p \<Rightarrow> if p = [] then Some (PlatformFlag (n_key n)) else None)
     else None)"

definition project_scope :: "(string \<Rightarrow> string) \<Rightarrow> (string policy \<Rightarrow> bool) \<Rightarrow> (string list \<Rightarrow> string list) \<Rightarrow> principal \<Rightarrow> validator_query \<Rightarrow>
    validated_node list \<Rightarrow> refusal option" where
  "project_scope digest probe walk who q impacted = (case first_refusal (platform_flag q) impacted of Some e \<Rightarrow> Some e
     | None \<Rightarrow> if is_system who then None
       else (case snapshots_of digest probe walk q impacted of None \<Rightarrow> Some RightsUnknown
         | Some (after, before) \<Rightarrow> (let p = enrich before who in
             if has_role p role_admin then None
             else first_refusal (judge_node q before (subject_chain before p)) impacted)))"

definition project_owner_check :: "(string \<Rightarrow> string) \<Rightarrow> (string policy \<Rightarrow> bool) \<Rightarrow> (string list \<Rightarrow> string list) \<Rightarrow> validator_query \<Rightarrow>
    validated_node list \<Rightarrow> refusal option" where
  "project_owner_check digest probe walk q impacted = (case snapshots_of digest probe walk q impacted of None \<Rightarrow> Some QueryFailed
     | Some (after, before) \<Rightarrow> (let
         projects = foldl (\<lambda>ps v. case assignment_project before (n_key (vn_post v)) of None \<Rightarrow> ps
           | Some (p, owner, _) \<Rightarrow> if owner \<and> p \<noteq> platform_scope then add_new ps [p] else ps) [] impacted
       in first_refusal (\<lambda>p. if project_owned before p \<and> has_project after p \<and> \<not> project_owned after p
            then Some (LeavesNoOwner p) else None) projects))"

subsection \<open>Facts\<close>

lemma first_refusal_None: "first_refusal f xs = None \<longleftrightarrow> (\<forall>x \<in> set xs. f x = None)"
  by (induction xs) (auto split: option.splits)

lemma admin_loop_None:
  "admin_loop s users ns = None \<longleftrightarrow> (\<not> users \<and> (\<forall>n \<in> set ns. n_type n \<noteq> type_user)) \<or> (\<exists>n \<in> set ns. active_admin s n)"
  by (induction ns arbitrary: users) (auto simp: active_admin_def Let_def)

lemma need_right_None:
  "need_right q before subject project owner what = None \<longleftrightarrow>
     (\<exists>chain. chain_of_project q before project = Some chain \<and> fst (project_flags before subject chain)
        \<and> (owner \<longrightarrow> snd (project_flags before subject chain)))"
  by (auto simp: need_right_def split: option.splits prod.splits)

subsection \<open>Properties of the validators\<close>

text \<open>The snapshot the check of the administrators reads.\<close>

definition floor_snapshot :: "(string \<Rightarrow> string) \<Rightarrow> (string policy \<Rightarrow> bool) \<Rightarrow> (string list \<Rightarrow> string list) \<Rightarrow> structure_set list \<Rightarrow> (node \<times> link list) list \<Rightarrow> snapshot" where
  "floor_snapshot digest probe walk st nls = build_snapshot digest probe walk st [] (map fst nls) (concat (map snd nls))"

lemma active_admin_alt:
  "active_admin s n \<longleftrightarrow> n_type n = type_user \<and> n_state n = ''active'' \<and> (\<exists>u. user_from_props (n_props n) = Some u
     \<and> role_admin \<in> set (platform_roles s (subject_chain s (zero_principal\<lparr>pr_subject := us_subject u\<rparr>))))"
proof -
  have "has_role (enrich s (zero_principal\<lparr>pr_subject := us_subject u\<rparr>)) role_admin
      \<longleftrightarrow> role_admin \<in> set (platform_roles s (subject_chain s (zero_principal\<lparr>pr_subject := us_subject u\<rparr>)))"
    if "user_from_props ps = Some u" for ps u
  proof -
    have "us_subject u \<noteq> []" using that by (auto simp: user_from_props_def Let_def split: if_splits)
    then have "\<not> anonymous (zero_principal\<lparr>pr_subject := us_subject u\<rparr>)" by (simp add: anonymous_def)
    from has_role_admin_enrich [OF this, of s] show ?thesis by (simp add: admin_of_def zero_principal_def)
  qed
  then show ?thesis by (auto simp: active_admin_def split: option.splits)
qed

text \<open>
  A change of users or Assignments passes exactly when its queries answer and it leaves no user at all, or an
  active user to whom an Assignment, its own or of a unit above it, grants the role of administrator in the snapshot
  built from the users, the Assignments and the units alone; that snapshot holds no project, so an Assignment that
  names a project counts in it as one of the platform. A query that fails and a missing administrator are told apart.
\<close>

theorem admin_floor_exact:
  "(admin_floor digest probe walk q = None \<longleftrightarrow> (\<exists>st nls. vq_structures q = Some st
       \<and> nodes_with_links q st [type_user, type_assignment, s_type (structure_of st ''organisation'')] = Some nls
       \<and> (filter (\<lambda>n. n_type n = type_user) (map fst nls) = []
          \<or> (\<exists>n u. n \<in> set (map fst nls) \<and> n_type n = type_user \<and> n_state n = ''active'' \<and> user_from_props (n_props n) = Some u
             \<and> (let s = floor_snapshot digest probe walk st nls in
                role_admin \<in> set (platform_roles s (subject_chain s (zero_principal\<lparr>pr_subject := us_subject u\<rparr>))))))))
   \<and> (admin_floor digest probe walk q \<noteq> Some QueryFailed \<longleftrightarrow> (\<exists>st. vq_structures q = Some st
       \<and> nodes_with_links q st [type_user, type_assignment, s_type (structure_of st ''organisation'')] \<noteq> None))
   \<and> admin_floor digest probe walk q \<in> {None, Some QueryFailed, Some NoAdministrator}"
proof (cases "\<exists>st nls. vq_structures q = Some st
       \<and> nodes_with_links q st [type_user, type_assignment, s_type (structure_of st ''organisation'')] = Some nls")
  case True
  then obtain st nls where q: "vq_structures q = Some st"
    "nodes_with_links q st [type_user, type_assignment, s_type (structure_of st ''organisation'')] = Some nls" by blast
  let ?s = "floor_snapshot digest probe walk st nls"
  have e: "admin_floor digest probe walk q = admin_loop ?s False (map fst nls)"
    by (simp add: admin_floor_def q floor_snapshot_def)
  have r: "admin_loop s us ns = None \<or> admin_loop s us ns = Some NoAdministrator" for s us ns
    by (induction ns arbitrary: us) (auto simp: Let_def)
  have n: "admin_floor digest probe walk q = None \<longleftrightarrow> (\<forall>n \<in> set (map fst nls). n_type n \<noteq> type_user) \<or> (\<exists>n \<in> set (map fst nls). active_admin ?s n)"
    unfolding e admin_loop_None by blast
  show ?thesis unfolding n q option.inject Let_def using q r [of ?s False "map fst nls"] e
    by (intro conjI) (auto simp: active_admin_alt filter_empty_conv)
next
  case False
  then have "admin_floor digest probe walk q = Some QueryFailed"
    by (auto simp: admin_floor_def split: option.splits)
  then show ?thesis using False by auto
qed

definition demo_query :: "node list \<Rightarrow> link list \<Rightarrow> validator_query" where
  "demo_query ns ls = \<lparr>vq_structures = Some demo_structures,
     vq_nodes_of_type = (\<lambda>_ t. Some (filter (\<lambda>n. n_type n = t) ns)),
     vq_out_links = (\<lambda>r. Some (filter (\<lambda>l. nr_id (k_from l) = nr_id r) ls)),
     vq_node = (\<lambda>r. find (\<lambda>n. n_id n = nr_id r) ns)\<rparr>"

text \<open>
  The check of the administrators reads no project, so that an Assignment of a project counts as one of the
  platform: a change that leaves the role of administrator on a project only passes the check, although nobody holds
  the role on the platform any more.
\<close>

theorem floor_counts_project_roles:
  "let ns = map (\<lambda>n. if n_type n = type_user then n\<lparr>n_state := ''active''\<rparr> else n) (demo_nodes [''admin''] False);
       s = build_snapshot id (\<lambda>_. True) id demo_structures [] ns demo_edges in
     admin_floor id (\<lambda>_. True) id (demo_query ns demo_edges) = None
   \<and> list_all (\<lambda>n. \<not> active_admin s n) ns"
  unfolding Let_def by (intro conjI; code_simp)

text \<open>Whether a write changes the flags an Assignment gives; a retired one gives none.\<close>

definition flags_change :: "snapshot \<Rightarrow> node \<Rightarrow> bool" where
  "flags_change before n = (let (own, adm) = (case assignment_project before (n_key n) of None \<Rightarrow> (False, False) | Some (_, o', a) \<Rightarrow> (o', a)) in
     (n_state n \<noteq> state_retired \<and> node_flag n ''owner'') \<noteq> own \<or> (n_state n \<noteq> state_retired \<and> node_flag n ''admin'') \<noteq> adm)"

text \<open>
  C10. Who is neither a service nor an administrator writes an Assignment only as an administrator of the project it
  names, and of the one it named before, both as its owner when the flags of the Assignment change; and a project only as
  an administrator of it or, to create one, of the project above it, as the owner to stop it, and to move it as the owner
  of the projects above it before and after.
\<close>

theorem writes_within_rights:
  fixes before :: snapshot
  defines "holds \<equiv> \<lambda>who q p owner. \<exists>chain. chain_of_project q before p = Some chain \<and> fst (project_flags before (subject_chain before who) chain)
      \<and> (owner \<longrightarrow> snd (project_flags before (subject_chain before who) chain))"
  assumes "project_scope digest probe walk who q impacted = None" and "\<not> is_system who" and "\<not> anonymous who"
    and "snapshots_of digest probe walk q impacted = Some (after, before)" and "\<not> admin_of before who" and "v \<in> set impacted"
  shows "(n_type (vn_post v) = type_assignment \<longrightarrow> (\<exists>post. linked_key q (vn_post v) link_assigns_project = Some post \<and> post \<noteq> []
        \<and> holds who q post (flags_change before (vn_post v))
        \<and> (\<forall>p own adm. assignment_project before (n_key (vn_post v)) = Some (p, own, adm) \<longrightarrow> p \<noteq> platform_scope
             \<and> holds who q p (flags_change before (vn_post v)))))
     \<and> (n_type (vn_post v) = type_project_unit \<longrightarrow> (\<exists>par. linked_key q (vn_post v) link_project_part_of = Some par
        \<and> (if vn_pre v = None \<or> \<not> has_project before (n_key (vn_post v)) then par \<noteq> [] \<and> par \<noteq> n_key (vn_post v) \<and> holds who q par False
           else project_of before (n_key (vn_post v)) \<noteq> []
             \<and> holds who q (n_key (vn_post v)) (node_flag (the (vn_pre v)) ''stopped'' \<noteq> node_flag (vn_post v) ''stopped'')
             \<and> (par \<noteq> project_of before (n_key (vn_post v)) \<longrightarrow> par \<noteq> [] \<and> holds who q par True \<and> holds who q (project_of before (n_key (vn_post v))) True))))"
proof -
  have nr: "need_right q before (subject_chain before who) p owner what = None \<longleftrightarrow> holds who q p owner" for p owner what
    unfolding need_right_None holds_def by blast
  have "\<not> has_role (enrich before who) role_admin" using has_role_admin_enrich [OF assms(4)] assms(6) by simp
  then have j: "judge_node q before (subject_chain before who) v = None"
    using assms(2,3,5,7) by (auto simp: project_scope_def first_refusal_None Let_def split: option.splits)
  have ta: "type_project_unit \<noteq> type_assignment" by (simp add: type_project_unit_def type_assignment_def)
  show ?thesis
  proof (intro conjI impI)
    assume t: "n_type (vn_post v) = type_assignment"
    from j have a: "judge_assignment q before (subject_chain before who) v = None" by (simp add: judge_node_def t)
    then obtain post where post: "linked_key q (vn_post v) link_assigns_project = Some post"
      by (auto simp: judge_assignment_def Let_def split: option.splits)
    show "\<exists>post. linked_key q (vn_post v) link_assigns_project = Some post \<and> post \<noteq> []
        \<and> holds who q post (flags_change before (vn_post v))
        \<and> (\<forall>p own adm. assignment_project before (n_key (vn_post v)) = Some (p, own, adm) \<longrightarrow> p \<noteq> platform_scope
             \<and> holds who q p (flags_change before (vn_post v)))"
      using a post by (cases "assignment_project before (n_key (vn_post v))")
        (auto simp: judge_assignment_def flags_change_def Let_def first_refusal_None nr simp del: first_refusal.simps split: if_splits)
  next
    assume t: "n_type (vn_post v) = type_project_unit"
    from j have a: "judge_project q before (subject_chain before who) v = None" using ta by (simp add: judge_node_def t)
    then obtain par where par: "linked_key q (vn_post v) link_project_part_of = Some par"
      by (auto simp: judge_project_def Let_def split: option.splits)
    show "\<exists>par. linked_key q (vn_post v) link_project_part_of = Some par
        \<and> (if vn_pre v = None \<or> \<not> has_project before (n_key (vn_post v)) then par \<noteq> [] \<and> par \<noteq> n_key (vn_post v) \<and> holds who q par False
           else project_of before (n_key (vn_post v)) \<noteq> []
             \<and> holds who q (n_key (vn_post v)) (node_flag (the (vn_pre v)) ''stopped'' \<noteq> node_flag (vn_post v) ''stopped'')
             \<and> (par \<noteq> project_of before (n_key (vn_post v)) \<longrightarrow> par \<noteq> [] \<and> holds who q par True \<and> holds who q (project_of before (n_key (vn_post v))) True))"
      using a par by (auto simp: judge_project_def Let_def nr split: if_splits option.splits)
  qed
qed

text \<open>ann, an administrator of the project P, lists the role "dev" in a new Assignment of bob on it.\<close>

definition demo_write :: validated_node where
  "demo_write = \<lparr>vn_post = demo_node type_assignment ''B'' [(''roles'', GList [GStr ''dev''])], vn_pre = None\<rparr>"

definition demo_write_query :: "bool \<Rightarrow> validator_query" where
  "demo_write_query adm = demo_query (demo_nodes [''dev''] adm @ [demo_node type_user ''USR:bob'' [(''subject'', GStr ''bob'')], vn_post demo_write])
     (demo_edges @ [demo_edge link_assigns_org ''B'' ''USR:bob'', demo_edge link_assigns_project ''B'' ''P''])"

theorem writes_within_rights_witness:
  "project_scope id (\<lambda>_. True) id ann (demo_write_query True) [demo_write] = None
   \<and> project_scope id (\<lambda>_. True) id ann (demo_write_query False) [demo_write] = Some (NeedsAdminister ''B'' ''P'')
   \<and> (\<exists>post. linked_key (demo_write_query True) (vn_post demo_write) link_assigns_project = Some post \<and> post \<noteq> [])"
proof -
  let ?q = "demo_write_query True"
  have c: "project_scope id (\<lambda>_. True) id ann ?q [demo_write] = None"
    "project_scope id (\<lambda>_. True) id ann (demo_write_query False) [demo_write] = Some (NeedsAdminister ''B'' ''P'')"
    "\<not> is_system ann" "\<not> anonymous ann"
    "(case snapshots_of id (\<lambda>_. True) id ?q [demo_write] of None \<Rightarrow> False | Some (_, b) \<Rightarrow> \<not> admin_of b ann)"
    "n_type (vn_post demo_write) = type_assignment"
    by code_simp+
  obtain after before where b: "snapshots_of id (\<lambda>_. True) id ?q [demo_write] = Some (after, before)" using c(5) by (auto split: option.splits)
  then have "\<not> admin_of before ann" using c(5) by simp
  from writes_within_rights [OF c(1,3,4) b this, of demo_write, THEN conjunct1] c(6)
  have "\<exists>post. linked_key ?q (vn_post demo_write) link_assigns_project = Some post \<and> post \<noteq> []" by fastforce
  then show ?thesis using c(1,2) by blast
qed

end
