(* ===== verification/Cache.thy ===== *)
theory Cache
  imports Prelude
begin

text \<open>
  The bounded cache of the services (lib/cache/cache.go): a list of entries from the most to the least recently
  read, the map of their elements by key, the bytes they hold, and the counters. The elements of the list, pointers
  in the code, are numbers given once; the clock and the bounds are read by each operation and are its arguments.
  Sizes are unbounded integers. The lock is left out: the operations are atomic.
\<close>

subsection \<open>State\<close>

definition entry_bytes :: int where "entry_bytes = 96"

record bounds =
  cb_bytes :: int
  cb_ttl :: int

record ('k, 'v) cache_entry =
  ce_key :: 'k
  ce_val :: 'v
  ce_size :: int
  ce_at :: time

record cache_stats =
  cs_hits :: int
  cs_misses :: int
  cs_evicted :: int
  cs_expired :: int
  cs_too_large :: int

record ('k, 'v) cache =
  ca_ll :: "(nat \<times> ('k, 'v) cache_entry) list" \<comment> \<open>front: the most recently read\<close>
  ca_m :: "('k, nat) gomap"
  ca_bytes :: int
  ca_stats :: cache_stats
  ca_next :: nat \<comment> \<open>the next element\<close>

definition new_cache :: "('k, 'v) cache" where
  "new_cache = \<lparr>ca_ll = [], ca_m = [], ca_bytes = 0,
     ca_stats = \<lparr>cs_hits = 0, cs_misses = 0, cs_evicted = 0, cs_expired = 0, cs_too_large = 0\<rparr>, ca_next = 0\<rparr>"

definition limits :: "bounds \<Rightarrow> bounds" where
  "limits b = \<lparr>cb_bytes = max (cb_bytes b) 1, cb_ttl = max (cb_ttl b) 1\<rparr>"

text \<open>The difference of two instants is a 64-bit duration, at its largest or smallest when it does not fit.\<close>

definition time_sub :: "time \<Rightarrow> time \<Rightarrow> int" where
  "time_sub a b = max (- (2 ^ 63)) (min (2 ^ 63 - 1) (a - b))"

subsection \<open>Operations\<close>

definition element :: "('k, 'v) cache \<Rightarrow> nat \<Rightarrow> ('k, 'v) cache_entry" where
  "element c i = the (map_of (ca_ll c) i)"

definition remove_element :: "nat \<Rightarrow> ('k, 'v) cache \<Rightarrow> ('k, 'v) cache" where
  "remove_element i c = (let e = element c i in
     c\<lparr>ca_ll := filter (\<lambda>(j, _). j \<noteq> i) (ca_ll c), ca_m := mdel (ce_key e) (ca_m c), ca_bytes := ca_bytes c - ce_size e\<rparr>)"

definition count_expired :: "('k, 'v) cache \<Rightarrow> ('k, 'v) cache" where
  "count_expired c = c\<lparr>ca_stats := (ca_stats c)\<lparr>cs_expired := cs_expired (ca_stats c) + 1\<rparr>\<rparr>"

definition count_evicted :: "('k, 'v) cache \<Rightarrow> ('k, 'v) cache" where
  "count_evicted c = c\<lparr>ca_stats := (ca_stats c)\<lparr>cs_evicted := cs_evicted (ca_stats c) + 1\<rparr>\<rparr>"

definition cache_get :: "'k \<Rightarrow> time \<Rightarrow> int \<Rightarrow> ('k, 'v) cache \<Rightarrow> 'v option \<times> ('k, 'v) cache" where
  "cache_get k now ttl c = (case map_of (ca_m c) k of None \<Rightarrow> (None, c)
     | Some i \<Rightarrow> (let e = element c i in
         if ttl \<le> time_sub now (ce_at e) then (None, count_expired (remove_element i c))
         else (Some (ce_val e), c\<lparr>ca_ll := (i, e\<lparr>ce_at := now\<rparr>) # filter (\<lambda>(j, _). j \<noteq> i) (ca_ll c)\<rparr>)))"

definition get_entry :: "'k \<Rightarrow> time \<Rightarrow> bounds \<Rightarrow> ('k, 'v) cache \<Rightarrow> 'v option \<times> ('k, 'v) cache" where
  "get_entry k now b c = (let (v, c1) = cache_get k now (cb_ttl (limits b)) c; s = ca_stats c1 in
     (v, c1\<lparr>ca_stats := (if v \<noteq> None then s\<lparr>cs_hits := cs_hits s + 1\<rparr> else s\<lparr>cs_misses := cs_misses s + 1\<rparr>)\<rparr>))"

lemma filter_last_less: "xs \<noteq> [] \<Longrightarrow> length (filter (\<lambda>(j, _). j \<noteq> fst (last xs)) xs) < length xs"
  by (rule length_filter_less [of "last xs"]) (auto simp: case_prod_beta)

function evict :: "time \<Rightarrow> bounds \<Rightarrow> ('k, 'v) cache \<Rightarrow> ('k, 'v) cache" where
  "evict now b c = (if ca_ll c = [] then c
     else let (i, e) = last (ca_ll c) in
       if ca_bytes c \<le> cb_bytes b \<and> time_sub now (ce_at e) < cb_ttl b then c
       else evict now b (remove_element i (if cb_bytes b < ca_bytes c then count_evicted c else count_expired c)))"
  by pat_completeness auto
termination
proof (relation "measure (\<lambda>(now, b, c). length (ca_ll c))")
  fix now :: time and b :: bounds and c :: "('k, 'v) cache" and x i e
  assume "ca_ll c \<noteq> []" "x = last (ca_ll c)" "(i, e) = x"
  then show "((now, b, remove_element i (if cb_bytes b < ca_bytes c then count_evicted c else count_expired c)), now, b, c)
      \<in> measure (\<lambda>(now, b, c). length (ca_ll c))"
    using filter_last_less [of "ca_ll c"] by (auto simp: remove_element_def count_evicted_def count_expired_def Let_def) (metis fst_conv)+
qed simp

declare evict.simps [simp del]

definition update_entry :: "('k \<Rightarrow> 'v \<Rightarrow> int) \<Rightarrow> 'k \<Rightarrow> ('v option \<Rightarrow> 'v option) \<Rightarrow> time \<Rightarrow> bounds \<Rightarrow> ('k, 'v) cache \<Rightarrow> ('k, 'v) cache" where
  "update_entry sz k f now b0 c0 = (let b = limits b0; (old, c) = cache_get k now (cb_ttl b) c0 in
     case f old of None \<Rightarrow> c
     | Some v \<Rightarrow> (let n = sz k v + entry_bytes;
           c1 = (case map_of (ca_m c) k of None \<Rightarrow> c | Some i \<Rightarrow> remove_element i c)
         in if cb_bytes b < n then c1\<lparr>ca_stats := (ca_stats c1)\<lparr>cs_too_large := cs_too_large (ca_stats c1) + 1\<rparr>\<rparr>
            else evict now b (c1\<lparr>ca_ll := (ca_next c1, \<lparr>ce_key = k, ce_val = v, ce_size = n, ce_at = now\<rparr>) # ca_ll c1,
              ca_m := mput k (ca_next c1) (ca_m c1), ca_bytes := ca_bytes c1 + n, ca_next := ca_next c1 + 1\<rparr>)))"

definition put_entry :: "('k \<Rightarrow> 'v \<Rightarrow> int) \<Rightarrow> 'k \<Rightarrow> 'v \<Rightarrow> time \<Rightarrow> bounds \<Rightarrow> ('k, 'v) cache \<Rightarrow> ('k, 'v) cache" where
  "put_entry sz k v = update_entry sz k (\<lambda>_. Some v)"

definition remove_key :: "'k \<Rightarrow> ('k, 'v) cache \<Rightarrow> ('k, 'v) cache" where
  "remove_key k c = (case map_of (ca_m c) k of None \<Rightarrow> c | Some i \<Rightarrow> remove_element i c)"

definition clear_cache :: "('k, 'v) cache \<Rightarrow> ('k, 'v) cache" where
  "clear_cache c = c\<lparr>ca_ll := [], ca_m := [], ca_bytes := 0\<rparr>"

definition cache_len :: "('k, 'v) cache \<Rightarrow> nat" where
  "cache_len c = msize (ca_m c)"

text \<open>The estimate of the size of a decoded value.\<close>

fun size_estimate :: "gval \<Rightarrow> int" where
  "size_estimate GNil = 0"
| "size_estimate (GStr s) = 16 + int (length s)"
| "size_estimate (GMap m) = 48 + sum_list (map (\<lambda>(k, v). 48 + int (length k) + size_estimate v) m)"
| "size_estimate (GList vs) = 16 + sum_list (map (\<lambda>v. 16 + size_estimate v) vs)"
| "size_estimate (GStrs ss) = 16 + sum_list (map (\<lambda>s. 16 + int (length s)) ss)"
| "size_estimate _ = 16"

subsection \<open>The invariant\<close>

text \<open>The elements of the list are the elements of the map, by the key of their entry, and the bytes their sizes.\<close>

definition cache_ok :: "('k, 'v) cache \<Rightarrow> bool" where
  "cache_ok c \<longleftrightarrow> distinct (map fst (ca_ll c)) \<and> distinct (map (ce_key \<circ> snd) (ca_ll c))
     \<and> (\<forall>k i. map_of (ca_m c) k = Some i \<longleftrightarrow> (\<exists>e. (i, e) \<in> set (ca_ll c) \<and> ce_key e = k))
     \<and> ca_bytes c = sum_list (map (ce_size \<circ> snd) (ca_ll c)) \<and> (\<forall>(i, e) \<in> set (ca_ll c). i < ca_next c)"

lemma element_in: "cache_ok c \<Longrightarrow> (i, e) \<in> set (ca_ll c) \<Longrightarrow> element c i = e"
  by (simp add: cache_ok_def element_def)

lemma kept_element:
  assumes "cache_ok c" and "map_of (ca_m c) k = Some i"
  obtains e where "(i, e) \<in> set (ca_ll c)" "ce_key e = k" "element c i = e"
  using assms element_in by (fastforce simp: cache_ok_def)

lemma same_element: "cache_ok c \<Longrightarrow> (i, e) \<in> set (ca_ll c) \<Longrightarrow> (j, e') \<in> set (ca_ll c) \<Longrightarrow> (i = j) = (ce_key e = ce_key e')"
  using eq_key_imp_eq_value [of "ca_ll c" i e e'] by (auto simp: cache_ok_def) (metis option.inject)

lemma filter_element: "cache_ok c \<Longrightarrow> (i, e) \<in> set (ca_ll c) \<Longrightarrow>
   filter (\<lambda>(j, _). j \<noteq> i) (ca_ll c) = filter (\<lambda>x. ce_key (snd x) \<noteq> ce_key e) (ca_ll c)"
  using same_element by (intro filter_cong) (fastforce, fastforce)

lemma sum_without: "distinct (map fst xs) \<Longrightarrow> (i, e) \<in> set xs \<Longrightarrow>
   sum_list (map (ce_size \<circ> snd) (filter (\<lambda>(j, _). j \<noteq> i) xs)) = sum_list (map (ce_size \<circ> snd) xs) - ce_size e"
proof (induction xs)
  case (Cons x xs)
  then show ?case
  proof (cases "x = (i, e)")
    case True
    then have "filter (\<lambda>(j, _). j \<noteq> i) xs = xs" using Cons.prems by (auto simp: filter_id_conv image_iff)
    then show ?thesis using True by simp
  next
    case False
    then show ?thesis using Cons by (auto simp: image_iff)
  qed
qed simp

lemma remove_ok:
  assumes "cache_ok c" and "(i, e) \<in> set (ca_ll c)"
  shows "cache_ok (remove_element i c)" and "ca_ll (remove_element i c) = filter (\<lambda>x. ce_key (snd x) \<noteq> ce_key e) (ca_ll c)"
    and "ca_bytes (remove_element i c) = ca_bytes c - ce_size e"
proof -
  have el: "element c i = e" using element_in assms by blast
  then show l: "ca_ll (remove_element i c) = filter (\<lambda>x. ce_key (snd x) \<noteq> ce_key e) (ca_ll c)"
    and b: "ca_bytes (remove_element i c) = ca_bytes c - ce_size e"
    using filter_element [OF assms] by (simp_all add: remove_element_def Let_def)
  have m: "ca_m (remove_element i c) = mdel (ce_key e) (ca_m c)" using el by (simp add: remove_element_def Let_def)
  have n: "ca_next (remove_element i c) = ca_next c" by (simp add: remove_element_def Let_def)
  have "sum_list (map (ce_size \<circ> snd) (ca_ll (remove_element i c))) = ca_bytes c - ce_size e"
    using sum_without [of "ca_ll c" i e] assms by (simp add: cache_ok_def remove_element_def Let_def)
  then show "cache_ok (remove_element i c)"
    using assms(1) unfolding cache_ok_def l b m n by (auto simp: distinct_map inj_on_def)
qed

lemma counters_ok [simp]: "cache_ok (c\<lparr>ca_stats := s\<rparr>) = cache_ok c"
  by (simp add: cache_ok_def)

text \<open>The entries of a key are at most one, so taking its element out is taking its key out.\<close>

definition without :: "'k \<Rightarrow> ('k, 'v) cache \<Rightarrow> (nat \<times> ('k, 'v) cache_entry) list" where
  "without k c = filter (\<lambda>x. ce_key (snd x) \<noteq> k) (ca_ll c)"

lemma without_none: "cache_ok c \<Longrightarrow> map_of (ca_m c) k = None \<Longrightarrow> without k c = ca_ll c"
  unfolding without_def cache_ok_def by (rule filter_True) (metis option.distinct(1) prod.collapse)

lemma get_cases:
  assumes "cache_ok c"
  obtains (absent) "map_of (ca_m c) k = None" "cache_get k now ttl c = (None, c)"
  | (expired) i e where "(i, e) \<in> set (ca_ll c)" "ce_key e = k" "ttl \<le> time_sub now (ce_at e)"
      "cache_get k now ttl c = (None, count_expired (remove_element i c))"
  | (hit) i e where "(i, e) \<in> set (ca_ll c)" "ce_key e = k" "time_sub now (ce_at e) < ttl"
      "cache_get k now ttl c = (Some (ce_val e), c\<lparr>ca_ll := (i, e\<lparr>ce_at := now\<rparr>) # without k c\<rparr>)"
proof (cases "map_of (ca_m c) k")
  case None
  then show ?thesis using absent by (simp add: cache_get_def)
next
  case (Some i)
  obtain e where e: "(i, e) \<in> set (ca_ll c)" "ce_key e = k" "element c i = e" using kept_element [OF assms Some] .
  show ?thesis
  proof (cases "ttl \<le> time_sub now (ce_at e)")
    case True
    then show ?thesis using expired [OF e(1,2) True] by (simp add: cache_get_def Some e(3) Let_def)
  next
    case False
    then show ?thesis using hit [OF e(1,2)] filter_element [OF assms e(1)] e(2)
      by (simp add: cache_get_def Some e(3) Let_def without_def)
  qed
qed

lemma front_ok:
  assumes "cache_ok c" and "(i, e) \<in> set (ca_ll c)" and "ce_key e' = ce_key e" and "ce_size e' = ce_size e"
  shows "cache_ok (c\<lparr>ca_ll := (i, e') # without (ce_key e) c\<rparr>)"
proof -
  have f: "without (ce_key e) c = filter (\<lambda>(j, _). j \<noteq> i) (ca_ll c)" using filter_element [OF assms(1,2)] by (simp add: without_def)
  have s: "sum_list (map (ce_size \<circ> snd) (without (ce_key e) c)) = ca_bytes c - ce_size e"
    unfolding f using sum_without [of "ca_ll c" i e] assms(1,2) by (simp add: cache_ok_def)
  have m: "map_of (ca_m c) k = Some j \<longleftrightarrow> (\<exists>x. (j, x) \<in> set ((i, e') # without (ce_key e) c) \<and> ce_key x = k)" for k j
    using assms(1-3) same_element [OF assms(1)] unfolding cache_ok_def without_def by auto metis+
  have d: "distinct (map fst (without (ce_key e) c))" "i \<notin> fst ` set (without (ce_key e) c)"
    using assms(1) unfolding f cache_ok_def by (auto simp: distinct_map inj_on_def)
  have d2: "distinct (map (ce_key \<circ> snd) (without (ce_key e) c))" "ce_key e \<notin> (ce_key \<circ> snd) ` set (without (ce_key e) c)"
    using assms(1) unfolding cache_ok_def without_def by (auto simp: distinct_map inj_on_def)
  have n: "\<forall>(j, x) \<in> set ((i, e') # without (ce_key e) c). j < ca_next c"
    using assms(1,2) unfolding cache_ok_def without_def by auto
  show ?thesis unfolding cache_ok_def using m s d d2 n assms(3,4) by simp
qed

lemma remove_expired_ok:
  assumes "cache_ok c" and "(i, e) \<in> set (ca_ll c)"
  shows "cache_ok (count_expired (remove_element i c))" "ca_ll (count_expired (remove_element i c)) = without (ce_key e) c"
    "ca_bytes (count_expired (remove_element i c)) = ca_bytes c - ce_size e"
  using remove_ok [OF assms] by (simp_all add: count_expired_def without_def)

text \<open>The sizes of the entries are those of their values.\<close>

definition sized :: "('k \<Rightarrow> 'v \<Rightarrow> int) \<Rightarrow> ('k, 'v) cache \<Rightarrow> bool" where
  "sized sz c \<longleftrightarrow> (\<forall>(i, e) \<in> set (ca_ll c). ce_size e = sz (ce_key e) (ce_val e) + entry_bytes)"

lemma get_keeps:
  assumes "cache_ok c" and "cache_get k now ttl c = (v, c')"
  shows "cache_ok c' \<and> without k c' = without k c \<and> (v = None \<longrightarrow> without k c' = ca_ll c') \<and> (sized sz c \<longrightarrow> sized sz c')
    \<and> (sized sz c \<and> (\<forall>k v. 0 \<le> sz k v) \<longrightarrow> ca_bytes c' \<le> ca_bytes c) \<and> ca_next c' = ca_next c"
proof (rule get_cases [OF assms(1), of k now ttl], goal_cases)
  case absent: 1
  then show ?case using assms without_none [OF assms(1) absent(1)] by auto
next
  case expired: (2 i e)
  have c': "c' = count_expired (remove_element i c)" "v = None" using assms(2) expired(4) by simp_all
  have "sized sz c \<Longrightarrow> \<forall>k v. 0 \<le> sz k v \<Longrightarrow> 0 \<le> ce_size e" using expired(1) by (force simp: sized_def entry_bytes_def)
  then show ?case using remove_expired_ok [OF assms(1) expired(1)] expired(2)
    by (auto simp: c' without_def sized_def count_expired_def remove_element_def Let_def)
next
  case hit: (3 i e)
  have c': "c' = c\<lparr>ca_ll := (i, e\<lparr>ce_at := now\<rparr>) # without k c\<rparr>" "v = Some (ce_val e)" using assms(2) hit(4) by simp_all
  show ?case using front_ok [OF assms(1) hit(1), of "e\<lparr>ce_at := now\<rparr>"] hit
    by (auto simp: c' without_def sized_def)
qed

text \<open>Eviction keeps the longest part of the front that fits and whose last entry is not expired.\<close>

definition ll_bytes :: "(nat \<times> ('k, 'v) cache_entry) list \<Rightarrow> int" where
  "ll_bytes l = sum_list (map (ce_size \<circ> snd) l)"

lemma evict_keeps:
  assumes "cache_ok c"
  shows "\<exists>n \<le> length (ca_ll c). cache_ok (evict now b c) \<and> ca_ll (evict now b c) = take n (ca_ll c)
     \<and> (n = 0 \<or> ca_bytes (evict now b c) \<le> cb_bytes b)
     \<and> (\<forall>m. n < m \<and> m \<le> length (ca_ll c) \<longrightarrow> cb_bytes b < ll_bytes (take m (ca_ll c)) \<or> cb_ttl b \<le> time_sub now (ce_at (snd (ca_ll c ! (m - 1)))))"
  using assms
proof (induction now b c rule: evict.induct)
  case (1 now b c)
  let ?l = "ca_ll c"
  show ?case
  proof (cases "?l = []")
    case True
    then show ?thesis using 1(2) by (subst (1 2 3) evict.simps) simp
  next
    case False
    obtain i e where ie: "last ?l = (i, e)" by fastforce
    have bytes: "ca_bytes c = ll_bytes ?l" using 1(2) by (simp add: cache_ok_def ll_bytes_def)
    show ?thesis
    proof (cases "ca_bytes c \<le> cb_bytes b \<and> time_sub now (ce_at e) < cb_ttl b")
      case True
      then have "evict now b c = c" using False ie by (subst evict.simps) simp
      then show ?thesis using 1(2) True by (intro exI [of _ "length ?l"]) simp
    next
      case stop: False
      define d where "d = (if cb_bytes b < ca_bytes c then count_evicted c else count_expired c)"
      have d: "ca_ll d = ?l" "cache_ok d" using 1(2) by (simp_all add: d_def count_evicted_def count_expired_def)
      have el: "(i, e) \<in> set (ca_ll d)" using ie False d(1) last_in_set by metis
      have r: "cache_ok (remove_element i d)" using remove_ok(1) [OF d(2) el] .
      have bl: "ca_ll (remove_element i d) = butlast ?l"
      proof -
        have sp: "?l = butlast ?l @ [(i, e)]" using ie False by (metis append_butlast_last_id)
        have "distinct (map fst (butlast ?l @ [(i, e)]))" using 1(2) sp by (simp add: cache_ok_def)
        then have "filter (\<lambda>(j, _). j \<noteq> i) (butlast ?l @ [(i, e)]) = butlast ?l"
          by (auto simp: filter_id_conv image_iff)
        then show ?thesis using sp d(1) by (simp add: remove_element_def Let_def)
      qed
      have ev: "evict now b c = evict now b (remove_element i d)"
        using False ie stop by (subst evict.simps) (auto simp: d_def)
      obtain n where n: "n \<le> length (butlast ?l)" "cache_ok (evict now b c)" "ca_ll (evict now b c) = take n (butlast ?l)"
        "n = 0 \<or> ca_bytes (evict now b c) \<le> cb_bytes b"
        "\<forall>m. n < m \<and> m \<le> length (butlast ?l) \<longrightarrow> cb_bytes b < ll_bytes (take m (butlast ?l))
           \<or> cb_ttl b \<le> time_sub now (ce_at (snd (butlast ?l ! (m - 1))))"
        using 1(1) [OF False refl ie [symmetric] stop, folded d_def, OF r, unfolded bl, folded ev] by blast
      have "cb_bytes b < ll_bytes (take m ?l) \<or> cb_ttl b \<le> time_sub now (ce_at (snd (?l ! (m - 1))))"
        if "n < m" "m \<le> length ?l" for m
      proof (cases "m = length ?l")
        case True
        have "?l ! (m - 1) = (i, e)" using ie True False by (simp add: last_conv_nth)
        then show ?thesis using stop True bytes by auto
      next
        case False
        then have "m \<le> length (butlast ?l)" using that(2) by simp
        then show ?thesis using n(5) that(1) by (auto simp: take_butlast nth_butlast)
      qed
      moreover have "take n (butlast ?l) = take n ?l" 
      proof -
        have "length (butlast ?l) < length ?l" using False by simp
        then have "n < length ?l" using n(1) by linarith
        then show ?thesis by (simp add: take_butlast)
      qed
      ultimately show ?thesis using n by (intro exI [of _ n]) auto
    qed
  qed
qed

text \<open>What a write does, when its value is kept.\<close>

lemma update_cases:
  assumes "cache_ok c" and "cache_get k now (cb_ttl (limits b)) c = (old, c1)"
  obtains (kept) "f old = None" "update_entry sz k f now b c = c1"
  | (large) v where "f old = Some v" "cb_bytes (limits b) < sz k v + entry_bytes"
      "cache_ok (update_entry sz k f now b c)" "ca_ll (update_entry sz k f now b c) = without k c1"
      "ca_bytes (update_entry sz k f now b c) = ll_bytes (without k c1)"
  | (written) v c2 where "f old = Some v" "update_entry sz k f now b c = evict now (limits b) c2" "cache_ok c2"
      "ca_ll c2 = (ca_next c1, \<lparr>ce_key = k, ce_val = v, ce_size = sz k v + entry_bytes, ce_at = now\<rparr>) # without k c1"
proof (cases "f old")
  case None
  then show ?thesis using kept assms(2) by (simp add: update_entry_def Let_def)
next
  case (Some v)
  have ok1: "cache_ok c1" "ca_next c1 = ca_next c" using get_keeps [OF assms] by blast+
  define d where "d = (case map_of (ca_m c1) k of None \<Rightarrow> c1 | Some i \<Rightarrow> remove_element i c1)"
  have d: "cache_ok d \<and> ca_ll d = without k c1 \<and> map_of (ca_m d) k = None \<and> ca_next d = ca_next c1"
  proof (cases "map_of (ca_m c1) k")
    case None
    then show ?thesis using ok1 without_none [OF ok1(1) None] by (simp add: d_def)
  next
    case (Some i)
    obtain e where e: "(i, e) \<in> set (ca_ll c1)" "ce_key e = k" "element c1 i = e" using kept_element [OF ok1(1) Some] .
    show ?thesis using remove_ok [OF ok1(1) e(1)] e by (simp add: d_def Some without_def remove_element_def Let_def)
  qed
  show ?thesis
  proof (cases "cb_bytes (limits b) < sz k v + entry_bytes")
    case True
    then have u: "update_entry sz k f now b c = d\<lparr>ca_stats := (ca_stats d)\<lparr>cs_too_large := cs_too_large (ca_stats d) + 1\<rparr>\<rparr>"
      using assms(2) by (simp add: update_entry_def Let_def Some d_def [symmetric])
    have "ca_bytes d = ll_bytes (without k c1)" using d by (simp add: cache_ok_def ll_bytes_def)
    then show ?thesis using large [OF Some True] d unfolding u by simp
  next
    case False
    define c2 where "c2 = d\<lparr>ca_ll := (ca_next d, \<lparr>ce_key = k, ce_val = v, ce_size = sz k v + entry_bytes, ce_at = now\<rparr>) # ca_ll d,
              ca_m := mput k (ca_next d) (ca_m d), ca_bytes := ca_bytes d + (sz k v + entry_bytes), ca_next := ca_next d + 1\<rparr>"
    have fresh: "ca_next d \<notin> fst ` set (ca_ll d)" "k \<notin> (ce_key \<circ> snd) ` set (ca_ll d)"
      using d unfolding cache_ok_def without_def by auto
    have lk: "map_of (mput k (ca_next d) (ca_m d)) k' = Some i \<longleftrightarrow> (\<exists>e. (i, e) \<in> set (ca_ll c2) \<and> ce_key e = k')" for k' i
    proof (cases "k' = k")
      case True
      then show ?thesis using fresh(2) by (force simp: c2_def)
    next
      case False
      then show ?thesis using d by (auto simp: c2_def cache_ok_def)
    qed
    have nx: "\<forall>(i, e) \<in> set (ca_ll c2). i < ca_next c2" using d unfolding cache_ok_def c2_def by fastforce
    have "cache_ok c2"
    proof -
      have w: "distinct (map fst (without k c1))" "distinct (map (ce_key \<circ> snd) (without k c1))"
        "ca_bytes d = sum_list (map (ce_size \<circ> snd) (without k c1))"
        using d unfolding cache_ok_def by (metis, metis, metis)
      show ?thesis unfolding cache_ok_def using w fresh d lk nx by (simp add: c2_def)
    qed
    moreover have "update_entry sz k f now b c = evict now (limits b) c2"
      using False assms(2) by (simp add: update_entry_def Let_def Some d_def [symmetric] c2_def)
    moreover have "ca_ll c2 = (ca_next c1, \<lparr>ce_key = k, ce_val = v, ce_size = sz k v + entry_bytes, ce_at = now\<rparr>) # without k c1"
      using d by (simp add: c2_def)
    ultimately show ?thesis using written [OF Some] by blast
  qed
qed

subsection \<open>Runs\<close>

text \<open>
  The calls of a cache in the order the lock gives them, each with the instant it reads; the bounds are constant. Beside
  the cache, a run keeps the plain map of the values its writers returned.
\<close>

datatype ('k, 'v) cache_op = GetOp 'k | UpdateOp 'k "'v option \<Rightarrow> 'v option" | RemoveOp 'k | ClearOp

fun cache_step :: "('k \<Rightarrow> 'v \<Rightarrow> int) \<Rightarrow> bounds \<Rightarrow> ('k, 'v) cache \<times> ('k \<Rightarrow> 'v option) \<Rightarrow> time \<times> ('k, 'v) cache_op \<Rightarrow>
    ('k, 'v) cache \<times> ('k \<Rightarrow> 'v option)" where
  "cache_step sz b (c, w) (now, GetOp k) = (snd (get_entry k now b c), w)"
| "cache_step sz b (c, w) (now, UpdateOp k f) = (update_entry sz k f now b c,
     (case f (fst (cache_get k now (cb_ttl (limits b)) c)) of None \<Rightarrow> w | Some v \<Rightarrow> w(k \<mapsto> v)))"
| "cache_step sz b (c, w) (now, RemoveOp k) = (remove_key k c, w(k := None))"
| "cache_step sz b (c, w) (now, ClearOp) = (clear_cache c, Map.empty)"

definition cache_run :: "('k \<Rightarrow> 'v \<Rightarrow> int) \<Rightarrow> bounds \<Rightarrow> (time \<times> ('k, 'v) cache_op) list \<Rightarrow> ('k, 'v) cache \<times> ('k \<Rightarrow> 'v option)" where
  "cache_run sz b ops = foldl (cache_step sz b) (new_cache, Map.empty) ops"

text \<open>Every entry holds the value last written for its key.\<close>

definition holds_written :: "('k, 'v) cache \<Rightarrow> ('k \<Rightarrow> 'v option) \<Rightarrow> bool" where
  "holds_written c w \<longleftrightarrow> (\<forall>(i, e) \<in> set (ca_ll c). w (ce_key e) = Some (ce_val e))"

definition run_ok :: "('k \<Rightarrow> 'v \<Rightarrow> int) \<Rightarrow> bounds \<Rightarrow> ('k, 'v) cache \<times> ('k \<Rightarrow> 'v option) \<Rightarrow> bool" where
  "run_ok sz b s \<longleftrightarrow> cache_ok (fst s) \<and> sized sz (fst s) \<and> ca_bytes (fst s) \<le> cb_bytes (limits b) \<and> holds_written (fst s) (snd s)"

lemma get_written:
  assumes "cache_ok c" and "cache_get k now ttl c = (v, c')" and "holds_written c w"
  shows "holds_written c' w" and "v = Some x \<Longrightarrow> w k = Some x"
proof (atomize (full), rule get_cases [OF assms(1), of k now ttl], goal_cases)
  case 1
  then show ?case using assms by auto
next
  case (2 i e)
  then show ?case using assms(2,3) remove_ok(2) [OF assms(1) 2(1)] by (auto simp: holds_written_def count_expired_def)
next
  case (3 i e)
  then show ?case using assms(2,3) by (auto simp: holds_written_def without_def)
qed

lemma sum_filter_le: "\<forall>x \<in> set l. 0 \<le> (f x :: int) \<Longrightarrow> sum_list (map f (filter P l)) \<le> sum_list (map f l)"
  by (induction l) auto

lemma without_bytes: "sized sz c \<Longrightarrow> \<forall>k v. 0 \<le> sz k v \<Longrightarrow> ll_bytes (without k c) \<le> ll_bytes (ca_ll c)"
  unfolding ll_bytes_def without_def by (rule sum_filter_le) (force simp: sized_def entry_bytes_def)

lemma bytes_are: "cache_ok c \<Longrightarrow> ca_bytes c = ll_bytes (ca_ll c)"
  by (simp add: cache_ok_def ll_bytes_def)

lemma update_run_ok:
  assumes "run_ok sz b (c, w)" and "\<forall>k v. 0 \<le> sz k v"
  shows "run_ok sz b (cache_step sz b (c, w) (now, UpdateOp k f))"
proof -
  have ok: "cache_ok c" "sized sz c" "ca_bytes c \<le> cb_bytes (limits b)" "holds_written c w" using assms(1) by (simp_all add: run_ok_def)
  obtain old c1 where g: "cache_get k now (cb_ttl (limits b)) c = (old, c1)" by fastforce
  have c1: "cache_ok c1" "sized sz c1" "ca_bytes c1 \<le> ca_bytes c" "holds_written c1 w"
    using get_keeps [OF ok(1) g] ok(2) assms(2) get_written(1) [OF ok(1) g ok(4)] by blast+
  have sub: "sized sz (cc :: ('a, 'b) cache)" "holds_written cc (w(k \<mapsto> v))"
    if "set (ca_ll cc) \<subseteq> insert (i, \<lparr>ce_key = k, ce_val = v, ce_size = sz k v + entry_bytes, ce_at = now\<rparr>) (set (without k c1))" for cc v i
  proof -
    have "x = (i, \<lparr>ce_key = k, ce_val = v, ce_size = sz k v + entry_bytes, ce_at = now\<rparr>) \<or> x \<in> set (ca_ll c1) \<and> ce_key (snd x) \<noteq> k"
      if "x \<in> set (ca_ll cc)" for x
      using that \<open>set (ca_ll cc) \<subseteq> _\<close> by (auto simp: without_def)
    then show "sized sz cc" "holds_written cc (w(k \<mapsto> v))"
      using c1(2,4) unfolding sized_def holds_written_def by fastforce+
  qed
  show ?thesis
  proof (rule update_cases [OF ok(1) g, of f sz], goal_cases)
    case 1
    then show ?case using c1 ok(3) by (simp add: run_ok_def g)
  next
    case (2 v)
    have "ca_bytes (update_entry sz k f now b c) \<le> cb_bytes (limits b)"
      using 2(5) without_bytes [OF c1(2) assms(2), of k] bytes_are [OF c1(1)] c1(3) ok(3) by simp
    then show ?case using 2(1,3) sub [of "update_entry sz k f now b c" 0 v] 2(4) by (auto simp: run_ok_def g)
  next
    case (3 v c2)
    obtain n where n: "cache_ok (evict now (limits b) c2)" "ca_ll (evict now (limits b) c2) = take n (ca_ll c2)"
      "n = 0 \<or> ca_bytes (evict now (limits b) c2) \<le> cb_bytes (limits b)" using evict_keeps [OF 3(3)] by blast
    have "set (ca_ll (evict now (limits b) c2)) \<subseteq> insert (ca_next c1, \<lparr>ce_key = k, ce_val = v, ce_size = sz k v + entry_bytes, ce_at = now\<rparr>) (set (without k c1))"
      unfolding n(2) 3(4) using set_take_subset by fastforce
    moreover have "ca_bytes (evict now (limits b) c2) \<le> cb_bytes (limits b)"
      using n(3) bytes_are [OF n(1)] n(2) by (auto simp: ll_bytes_def limits_def)
    ultimately show ?case using 3(1,2) n(1) sub [of "evict now (limits b) c2" "ca_next c1" v] by (simp add: run_ok_def g)
  qed
qed

lemma step_run_ok:
  assumes "run_ok sz b (c, w)" and "\<forall>k v. 0 \<le> sz k v"
  shows "run_ok sz b (cache_step sz b (c, w) (now, op))"
proof (cases op)
  case (GetOp k)
  have ok: "cache_ok c" "sized sz c" "ca_bytes c \<le> cb_bytes (limits b)" "holds_written c w" using assms(1) by (simp_all add: run_ok_def)
  obtain v c1 where g: "cache_get k now (cb_ttl (limits b)) c = (v, c1)" by fastforce
  have "cache_ok c1" "sized sz c1" "ca_bytes c1 \<le> ca_bytes c" "holds_written c1 w"
    using get_keeps [OF ok(1) g] ok(2) assms(2) get_written(1) [OF ok(1) g ok(4)] by blast+
  then show ?thesis using ok(3) by (auto simp: GetOp run_ok_def get_entry_def g Let_def sized_def holds_written_def)
next
  case (UpdateOp k f)
  then show ?thesis using update_run_ok [OF assms] by simp
next
  case (RemoveOp k)
  have ok: "cache_ok c" "sized sz c" "ca_bytes c \<le> cb_bytes (limits b)" "holds_written c w" using assms(1) by (simp_all add: run_ok_def)
  show ?thesis
  proof (cases "map_of (ca_m c) k")
    case None
    then have "k \<notin> (ce_key \<circ> snd) ` set (ca_ll c)" using without_none [OF ok(1) None] by (auto simp: without_def filter_id_conv)
    then show ?thesis using ok by (force simp: RemoveOp run_ok_def remove_key_def None holds_written_def)
  next
    case (Some i)
    obtain e where e: "(i, e) \<in> set (ca_ll c)" "ce_key e = k" "element c i = e" using kept_element [OF ok(1) Some] .
    have r: "cache_ok (remove_element i c)" "ca_ll (remove_element i c) = without k c" using remove_ok [OF ok(1) e(1)] e(2) by (simp_all add: without_def)
    have "ca_bytes (remove_element i c) \<le> cb_bytes (limits b)"
      using bytes_are [OF r(1)] r(2) without_bytes [OF ok(2) assms(2), of k] bytes_are [OF ok(1)] ok(3) by simp
    then show ?thesis using r ok(2,4) by (auto simp: RemoveOp run_ok_def remove_key_def Some sized_def holds_written_def without_def)
  qed
next
  case ClearOp
  then show ?thesis by (simp add: run_ok_def clear_cache_def cache_ok_def sized_def holds_written_def limits_def)
qed

lemma run_run_ok:
  assumes "\<forall>k v. 0 \<le> sz k v"
  shows "run_ok sz b (cache_run sz b ops)"
proof -
  have "run_ok sz b (foldl (cache_step sz b) s ops)" if "run_ok sz b s" for s
    using that
  proof (induction ops arbitrary: s)
    case (Cons o' ops)
    then show ?case using step_run_ok [OF _ assms] by (cases s; cases o') simp
  qed simp
  moreover have "run_ok sz b (new_cache, Map.empty)"
    by (simp add: run_ok_def new_cache_def cache_ok_def sized_def holds_written_def limits_def)
  ultimately show ?thesis by (simp add: cache_run_def)
qed

lemma sum_at_least: "\<forall>x \<in> set l. (n :: int) \<le> f x \<Longrightarrow> n * int (length l) \<le> sum_list (map f l)"
  by (induction l) (auto simp: algebra_simps)

subsection \<open>Properties of the cache\<close>

text \<open>
  C17. After any calls the bytes of a cache are the sizes of its entries, at most those of its bounds (one at least), it
  holds one entry per key, the map and the list agree, and so it never holds more entries than fit.
\<close>

theorem cache_bounded:
  assumes "\<forall>k v. 0 \<le> sz k v"
  shows "let c = fst (cache_run sz b ops) in
     ca_bytes c = (\<Sum>(i, e) \<leftarrow> ca_ll c. sz (ce_key e) (ce_val e) + entry_bytes) \<and> ca_bytes c \<le> max (cb_bytes b) 1
   \<and> distinct (map (ce_key \<circ> snd) (ca_ll c)) \<and> dom (map_of (ca_m c)) = set (map (ce_key \<circ> snd) (ca_ll c))
   \<and> entry_bytes * int (cache_len c) \<le> max (cb_bytes b) 1"
proof -
  define c where "c = fst (cache_run sz b ops)"
  have ok: "cache_ok c" "sized sz c" "ca_bytes c \<le> max (cb_bytes b) 1"
    using run_run_ok [OF assms, of b ops] by (simp_all add: run_ok_def c_def limits_def)
  have d: "distinct (map (ce_key \<circ> snd) (ca_ll c))" using ok(1) by (simp add: cache_ok_def)
  have k: "dom (map_of (ca_m c)) = set (map (ce_key \<circ> snd) (ca_ll c))"
  proof (rule set_eqI)
    fix k
    have "k \<in> dom (map_of (ca_m c)) \<longleftrightarrow> (\<exists>i. map_of (ca_m c) k = Some i)" by (simp add: dom_def)
    also have "\<dots> \<longleftrightarrow> (\<exists>i e. (i, e) \<in> set (ca_ll c) \<and> ce_key e = k)" using ok(1) by (simp add: cache_ok_def)
    also have "\<dots> \<longleftrightarrow> k \<in> set (map (ce_key \<circ> snd) (ca_ll c))" by force
    finally show "k \<in> dom (map_of (ca_m c)) \<longleftrightarrow> k \<in> set (map (ce_key \<circ> snd) (ca_ll c))" .
  qed
  have "map (ce_size \<circ> snd) (ca_ll c) = map (\<lambda>(i, e). sz (ce_key e) (ce_val e) + entry_bytes) (ca_ll c)"
    using ok(2) by (auto simp: sized_def)
  then have b: "ca_bytes c = (\<Sum>(i, e) \<leftarrow> ca_ll c. sz (ce_key e) (ce_val e) + entry_bytes)"
    using ok(1) unfolding cache_ok_def by metis
  have "int (cache_len c) = int (length (ca_ll c))"
    unfolding cache_len_def msize_card k using distinct_card [OF d] by simp
  moreover have "entry_bytes * int (length (ca_ll c)) \<le> (\<Sum>(i, e) \<leftarrow> ca_ll c. sz (ce_key e) (ce_val e) + entry_bytes)"
    by (rule sum_at_least) (use assms in auto)
  ultimately show ?thesis unfolding Let_def c_def [symmetric] using b d k ok(3) by simp
qed

definition text_size :: "string \<Rightarrow> string \<Rightarrow> int" where
  "text_size k v = int (length k) + int (length v)"

definition demo_bounds :: bounds where
  "demo_bounds = \<lparr>cb_bytes = 200, cb_ttl = 10\<rparr>"

definition demo_calls :: "(time \<times> (string, string) cache_op) list" where
  "demo_calls = [(1, UpdateOp ''a'' (\<lambda>_. Some ''x'')), (2, UpdateOp ''b'' (\<lambda>_. Some ''y'')), (3, GetOp ''a''), (4, UpdateOp ''c'' (\<lambda>_. Some ''z''))]"

theorem cache_bounded_witness:
  "map (ce_key \<circ> snd) (ca_ll (fst (cache_run text_size demo_bounds demo_calls))) = [''c'', ''a'']
   \<and> ca_bytes (fst (cache_run text_size demo_bounds demo_calls)) \<le> 200"
proof -
  have s: "\<forall>k v. 0 \<le> text_size k v" by (simp add: text_size_def)
  have "map (ce_key \<circ> snd) (ca_ll (fst (cache_run text_size demo_bounds demo_calls))) = [''c'', ''a'']" by code_simp
  moreover have "ca_bytes (fst (cache_run text_size demo_bounds demo_calls)) \<le> max (cb_bytes demo_bounds) 1"
    using cache_bounded [OF s, of demo_bounds demo_calls] unfolding Let_def by blast
  ultimately show ?thesis by (simp add: demo_bounds_def)
qed

text \<open>
  C18. What is read is what was last written: after any calls, a read that finds a value finds the one the last kept
  write of its key returned, not dropped since, on an entry read or written within its time to live.
\<close>

theorem cache_reads_last_write:
  assumes "cache_run sz b ops = (c, w)" and "\<forall>k v. 0 \<le> sz k v" and "get_entry k now b c = (Some v, c')"
  shows "w k = Some v \<and> (\<exists>i e. (i, e) \<in> set (ca_ll c) \<and> ce_key e = k \<and> ce_val e = v \<and> time_sub now (ce_at e) < max (cb_ttl b) 1)"
proof -
  have ok: "cache_ok c" "holds_written c w" using run_run_ok [OF assms(2), of b ops] assms(1) by (simp_all add: run_ok_def)
  obtain c1 where g: "cache_get k now (cb_ttl (limits b)) c = (Some v, c1)"
    using assms(3) by (auto simp: get_entry_def Let_def split_def prod_eq_iff)
  have "\<exists>i e. (i, e) \<in> set (ca_ll c) \<and> ce_key e = k \<and> ce_val e = v \<and> time_sub now (ce_at e) < max (cb_ttl b) 1"
    by (rule get_cases [OF ok(1), of k now "cb_ttl (limits b)"]) (use g in \<open>auto simp: limits_def\<close>)
  then show ?thesis using get_written(2) [OF ok(1) g ok(2) refl] by blast
qed

theorem cache_reads_last_write_witness:
  "fst (get_entry ''a'' 9 demo_bounds (fst (cache_run text_size demo_bounds demo_calls))) = Some ''x''
   \<and> fst (get_entry ''a'' 99 demo_bounds (fst (cache_run text_size demo_bounds demo_calls))) = None
   \<and> snd (cache_run text_size demo_bounds demo_calls) ''a'' = Some ''x''"
proof -
  obtain c w where r: "cache_run text_size demo_bounds demo_calls = (c, w)" by fastforce
  have s: "\<forall>k v. 0 \<le> text_size k v" by (simp add: text_size_def)
  have "fst (get_entry ''a'' 9 demo_bounds (fst (cache_run text_size demo_bounds demo_calls))) = Some ''x''"
    "fst (get_entry ''a'' 99 demo_bounds (fst (cache_run text_size demo_bounds demo_calls))) = None" by code_simp+
  moreover from this(1) obtain c' where "get_entry ''a'' 9 demo_bounds c = (Some ''x'', c')" by (auto simp: r prod_eq_iff)
  ultimately show ?thesis using cache_reads_last_write [OF r s] r by auto
qed

text \<open>
  C40. The most recently read stay: a value that fits is put in front of the entries of the other keys, in the order they
  were read, and what is kept of that is its longest beginning that fits in the bytes and ends with an entry within its
  time to live.
\<close>

theorem cache_keeps_recent:
  assumes "cache_run sz b ops = (c, w)" and "\<forall>k v. 0 \<le> sz k v"
    and "f (fst (cache_get k now (max (cb_ttl b) 1) c)) = Some v" and "sz k v + entry_bytes \<le> max (cb_bytes b) 1"
  shows "let l = (ca_next c, \<lparr>ce_key = k, ce_val = v, ce_size = sz k v + entry_bytes, ce_at = now\<rparr>) # filter (\<lambda>x. ce_key (snd x) \<noteq> k) (ca_ll c) in
     \<exists>n \<le> length l. ca_ll (update_entry sz k f now b c) = take n l
       \<and> (\<forall>m. n < m \<and> m \<le> length l \<longrightarrow> max (cb_bytes b) 1 < ll_bytes (take m l)
            \<or> max (cb_ttl b) 1 \<le> time_sub now (ce_at (snd (l ! (m - 1)))))"
proof -
  define l where "l = (ca_next c, \<lparr>ce_key = k, ce_val = v, ce_size = sz k v + entry_bytes, ce_at = now\<rparr>) # filter (\<lambda>x. ce_key (snd x) \<noteq> k) (ca_ll c)"
  have ok: "cache_ok c" using run_run_ok [OF assms(2), of b ops] assms(1) by (simp add: run_ok_def)
  obtain old c1 where g: "cache_get k now (cb_ttl (limits b)) c = (old, c1)" by fastforce
  have c1: "without k c1 = without k c" "ca_next c1 = ca_next c" using get_keeps [OF ok g] by blast+
  have old: "f old = Some v" "\<not> cb_bytes (limits b) < sz k v + entry_bytes" using assms(3,4) g by (auto simp: limits_def)
  show ?thesis
  proof (rule update_cases [OF ok g, of f sz], goal_cases)
    case 1
    then show ?case using old by simp
  next
    case (2 v')
    then show ?case using old by simp
  next
    case (3 v' c2)
    have v: "v' = v" using 3(1) old(1) by simp
    have lim: "cb_bytes (limits b) = max (cb_bytes b) 1" "cb_ttl (limits b) = max (cb_ttl b) 1" by (simp_all add: limits_def)
    obtain n where n: "n \<le> length l" "ca_ll (evict now (limits b) c2) = take n l"
      "\<forall>m. n < m \<and> m \<le> length l \<longrightarrow> max (cb_bytes b) 1 < ll_bytes (take m l) \<or> max (cb_ttl b) 1 \<le> time_sub now (ce_at (snd (l ! (m - 1))))"
      using evict_keeps [OF 3(3), of now "limits b", unfolded 3(4) v c1 lim, unfolded without_def, folded l_def]
      by (elim exE conjE) (rule that)
    show ?case unfolding Let_def 3(2) l_def [symmetric] by (intro exI [of _ n] conjI n)
  qed
qed

theorem cache_keeps_recent_witness:
  "let c = fst (cache_run text_size demo_bounds demo_calls); c' = update_entry text_size ''d'' (\<lambda>_. Some ''t'') 5 demo_bounds c in
     map (ce_key \<circ> snd) (ca_ll c') = [''d'', ''c'']
   \<and> (\<exists>n e. ca_ll c' = take n ((ca_next c, e) # filter (\<lambda>x. ce_key (snd x) \<noteq> ''d'') (ca_ll c)))"
proof -
  obtain c w where r: "cache_run text_size demo_bounds demo_calls = (c, w)" by fastforce
  have s: "\<forall>k v. 0 \<le> text_size k v" by (simp add: text_size_def)
  have f: "text_size ''d'' ''t'' + entry_bytes \<le> max (cb_bytes demo_bounds) 1" by (simp add: text_size_def entry_bytes_def demo_bounds_def)
  have l: "map (ce_key \<circ> snd) (ca_ll (update_entry text_size ''d'' (\<lambda>_. Some ''t'') 5 demo_bounds (fst (cache_run text_size demo_bounds demo_calls)))) = [''d'', ''c'']"
    by code_simp
  obtain n where "ca_ll (update_entry text_size ''d'' (\<lambda>_. Some ''t'') 5 demo_bounds c) = take n
     ((ca_next c, \<lparr>ce_key = ''d'', ce_val = ''t'', ce_size = text_size ''d'' ''t'' + entry_bytes, ce_at = 5\<rparr>) # filter (\<lambda>x. ce_key (snd x) \<noteq> ''d'') (ca_ll c))"
    using cache_keeps_recent [OF r s, where f = "\<lambda>_. Some ''t''" and now = 5 and k = "''d''" and v = "''t''"] f unfolding Let_def by blast
  then show ?thesis using l unfolding Let_def r fst_conv by blast
qed

end
