(* ===== verification/Outbox.thy ===== *)
theory Outbox
  imports Nodes
begin

text \<open>
  lib/outbox: the messages of a service, the outbox that keeps them in memory, the sinks and the relay that delivers
  them. What a relay runs in (the sink, the lease shared by the replicas, the drains asked meanwhile, the clock) is an
  environment the relay's functions read and change; a sink may write to the outbox while it handles a message, and the
  messages written meanwhile come with its answer. A drain is None when it does not end. The log of the deliveries is
  kept beside the outbox.
\<close>

subsection \<open>Messages and the outbox\<close>

record message =
  m_seq :: int
  m_origin :: string
  m_subject :: string
  m_data :: string
  m_headers :: "(string, string) gomap"
  m_created_at :: time


record mem_msg =
  mm_m :: message
  mm_published :: time

record outbox =
  ob_seq :: int
  ob_msgs :: "mem_msg list"






subsection \<open>Sinks\<close>



subsection \<open>The relay\<close>



record 'e drained =
  dr_box :: outbox
  dr_env :: 'e
  dr_written :: "message list" \<comment> \<open>what was written to the outbox, as it numbered it\<close>
  dr_log :: "(message \<times> bool) list" \<comment> \<open>the deliveries, and whether the sink took them\<close>










subsection \<open>The messages of an outbox\<close>



definition delivered :: "'e drained \<Rightarrow> message list" where
  "delivered s = map fst (filter snd (dr_log s))"








lemma delivered_more: "delivered (s\<lparr>dr_log := dr_log s @ [(m, b)]\<rparr>) = delivered s @ (if b then [m] else [])"
  by (simp add: delivered_def)







subsection \<open>Draining\<close>




















subsection \<open>Properties\<close>






end
