(* ===== verification/Store.thy ===== *)
theory Store
  imports Flows Outbox
begin

text \<open>
  graph/graph/memory.go and repo.go: the store the graph keeps in memory, its transactions and what they write. The
  state of the store is a record of the maps and lists of the code; a transaction takes a snapshot before its first
  write and restores it when it fails. A write of a transaction answers an error or a result, and the transaction as it
  leaves it: what it wrote before it failed stays until the rollback. Locks are left out: the writers run one at a time.
\<close>

subsection \<open>The state\<close>

datatype store_error = NotFound | Conflict | Invalid | Writes

record link_set =
  ls_of :: int
  ls_base :: int
  ls_depth :: int
  ls_seq :: int

definition zero_set :: link_set where
  "zero_set = \<lparr>ls_of = 0, ls_base = 0, ls_depth = 0, ls_seq = 0\<rparr>"

record committed_version =
  cv_version :: int
  cv_deleted :: bool
  cv_revert :: bool

record log_entry =
  le_seq :: int
  le_id :: string
  le_change :: string
  le_type :: string
  le_flow :: string
  le_process :: string
  le_execution :: string
  le_subject :: string
  le_by :: string
  le_at :: time
  le_causation :: string
  le_payload :: string

record mem_drop =
  dp_row :: string
  dp_from :: node_ref
  dp_removes :: string
  dp_to :: node_ref
  dp_change :: string

record mem_join =
  mj_change :: string
  mj_at :: int
  mj_log_seq :: int

record mem_state =
  st_versions :: "(string, node list) gomap"
  st_keys :: "(string, string) gomap"
  st_links :: "link list"
  st_drops :: "mem_drop list"
  st_sets :: "(node_ref, link_set) gomap"
  st_commits :: "(string, commit) gomap"
  st_changes :: "(string, change) gomap"
  st_branches :: "(string, branch) gomap"
  st_joins :: "(string \<times> int, mem_join) gomap"
  st_seq :: int
  st_log :: "log_entry list"
  st_tags :: "tag list"

definition new_store :: mem_state where
  "new_store = \<lparr>st_versions = [], st_keys = [], st_links = [], st_drops = [], st_sets = [], st_commits = [], st_changes = [],
     st_branches = [], st_joins = [], st_seq = 0, st_log = [], st_tags = []\<rparr>"

definition versions_of :: "mem_state \<Rightarrow> string \<Rightarrow> node list" where
  "versions_of s i = (case map_of (st_versions s) i of Some vs \<Rightarrow> vs | None \<Rightarrow> [])"

definition ns_key :: "string \<Rightarrow> string \<Rightarrow> string" where
  "ns_key ns key = namespace_of ns @ CHR 0x00 # key"

definition branch_key :: "string \<Rightarrow> string \<Rightarrow> string" where
  "branch_key ns name = namespace_of ns @ CHR 0x00 # branch_of name"

subsection \<open>Transactions\<close>

record mem_tx =
  mx_st :: mem_state
  mx_snap :: "mem_state option"
  mx_read_only :: bool
  mx_wrote :: bool
  mx_outbox :: "message list"

text \<open>The snapshot of the state before the first write of the transaction; a read-only one refuses it.\<close>

definition tx_write :: "mem_tx \<Rightarrow> store_error option \<times> mem_tx" where
  "tx_write t = (if mx_read_only t then (Some Writes, t\<lparr>mx_wrote := True\<rparr>)
     else (None, if mx_snap t = None then t\<lparr>mx_snap := Some (mx_st t)\<rparr> else t))"

definition writing :: "(mem_state \<Rightarrow> (store_error + 'a) \<times> mem_state) \<Rightarrow> mem_tx \<Rightarrow> (store_error + 'a) \<times> mem_tx" where
  "writing f t = (case tx_write t of (Some e, t') \<Rightarrow> (Inl e, t')
     | (None, t') \<Rightarrow> let (r, s) = f (mx_st t') in (r, t'\<lparr>mx_st := s\<rparr>))"



definition begin_tx :: "mem_state \<Rightarrow> bool \<Rightarrow> mem_tx" where
  "begin_tx s ro = \<lparr>mx_st = s, mx_snap = None, mx_read_only = ro, mx_wrote = False, mx_outbox = []\<rparr>"



subsection \<open>Writes\<close>

text \<open>A write on the state answers an error or unit; the ones that give a value are typed apart.\<close>

type_synonym 'a writes = "mem_state \<Rightarrow> (store_error + 'a) \<times> mem_state"

definition put_branch :: "branch \<Rightarrow> unit writes" where
  "put_branch b s = (let b' = b\<lparr>b_namespace := namespace_of (b_namespace b)\<rparr>
     in (Inr (), s\<lparr>st_branches := mput (branch_key (b_namespace b') (b_name b')) b' (st_branches s)\<rparr>))"

definition put_node :: "node \<Rightarrow> link_set \<Rightarrow> unit writes" where
  "put_node n links s = (let vs = versions_of s (n_id n); k = ns_key (n_namespace n) (n_key n) in
     if n_version n \<noteq> int (length vs) + 1 then (Inl Conflict, s)
     else if n_version n = 1 \<and> map_of (st_keys s) k \<noteq> None \<and> n_key n \<noteq> [] then (Inl Conflict, s)
     else let s1 = (if n_version n = 1 \<and> n_key n \<noteq> [] then s\<lparr>st_keys := mput k (n_id n) (st_keys s)\<rparr> else s);
              n' = (if n_version n > 1 then n\<lparr>n_project := n_project (vs ! 0), n_creator := n_creator (vs ! 0)\<rparr> else n);
              s2 = s1\<lparr>st_versions := mput (n_id n) (vs @ [n']) (st_versions s1)\<rparr>;
              l' = (if ls_of links = 0 then links\<lparr>ls_of := n_version n'\<rparr> else links)
          in (Inr (), if links \<noteq> zero_set then s2\<lparr>st_sets := mput (node_ref_of n') l' (st_sets s2)\<rparr> else s2))"

definition put_links :: "link list \<Rightarrow> unit writes" where
  "put_links ls s = (Inr (), s\<lparr>st_links := st_links s @ ls\<rparr>)"

definition drop_link :: "node_ref \<Rightarrow> string \<Rightarrow> link \<Rightarrow> unit writes" where
  "drop_link frm row l s = (Inr (), s\<lparr>st_drops := st_drops s
     @ [\<lparr>dp_row = row, dp_from = frm, dp_removes = k_id l, dp_to = k_to l, dp_change = k_change l\<rparr>]\<rparr>)"

definition put_commit :: "commit \<Rightarrow> unit writes" where
  "put_commit b s = (if map_of (st_commits s) (c_id b) \<noteq> None then (Inl Conflict, s)
     else (Inr (), s\<lparr>st_commits := mput (c_id b) (b\<lparr>c_namespace := namespace_of (c_namespace b), c_nodes := []\<rparr>) (st_commits s)\<rparr>))"

definition next_commit :: "int writes" where
  "next_commit s = (Inr (st_seq s + 1), s\<lparr>st_seq := st_seq s + 1\<rparr>)"

definition put_change :: "change \<Rightarrow> unit writes" where
  "put_change c s = (Inr (), s\<lparr>st_changes := mput (ch_id c)
     (c\<lparr>ch_items := [], ch_nodes := None, ch_shared := impacts_of []\<rparr>) (st_changes s)\<rparr>)"

definition append_log :: "log_entry \<Rightarrow> log_entry writes" where
  "append_log e s = (let nxt = int (length (st_log s)) + 1; e' = e\<lparr>le_seq := nxt\<rparr> in
     if map_of (st_changes s) (le_change e) = None then (Inl Invalid, s)
     else if \<exists>x \<in> set (st_log s). le_id x = le_id e then (Inl Conflict, s)
     else if le_seq e \<noteq> 0 \<and> le_seq e \<noteq> nxt then (Inl Conflict, s)
     else (Inr e', s\<lparr>st_log := st_log s @ [e']\<rparr>))"

definition reserve_log_seq :: "int writes" where
  "reserve_log_seq s = (Inr (int (length (st_log s)) + 1), s)"

primrec join_each :: "string \<Rightarrow> mem_join \<Rightarrow> int list \<Rightarrow> (string \<times> int, mem_join) gomap \<Rightarrow> (string \<times> int, mem_join) gomap" where
  "join_each branch j [] m = m"
| "join_each branch j (q # qs) m = join_each branch j qs (if map_of m (branch, q) = None then mput (branch, q) j m else m)"

definition join_commits :: "string \<Rightarrow> string \<Rightarrow> int \<Rightarrow> int \<Rightarrow> int list \<Rightarrow> unit writes" where
  "join_commits branch change at_seq log_seq seqs s = (Inr (), s\<lparr>st_joins :=
     join_each (branch_of branch) \<lparr>mj_change = change, mj_at = at_seq, mj_log_seq = log_seq\<rparr> seqs (st_joins s)\<rparr>)"

definition put_tag :: "tag \<Rightarrow> unit writes" where
  "put_tag t s = (if \<not> (\<exists>n \<in> set (versions_of s (tg_node t)). n_version n = tg_version t) then (Inl NotFound, s)
     else (Inr (), case index_of (\<lambda>x. tg_id x = tg_id t) (st_tags s) of
         Some i \<Rightarrow> s\<lparr>st_tags := (st_tags s)[i := t]\<rparr> | None \<Rightarrow> s\<lparr>st_tags := st_tags s @ [t]\<rparr>))"

definition delete_tag :: "string \<Rightarrow> unit writes" where
  "delete_tag i s = (case index_of (\<lambda>x. tg_id x = i) (st_tags s) of
     Some k \<Rightarrow> (Inr (), s\<lparr>st_tags := delete_at k (st_tags s)\<rparr>) | None \<Rightarrow> (Inl NotFound, s))"

subsection \<open>Deleting a change\<close>

text \<open>
  The first version a change wrote of each node; what it wrote must be the tail of its nodes, in no commit. The commits
  kept hold no nodes (put\_commit), so that only their change is what refuses the purge.
\<close>

definition first_of :: "string \<Rightarrow> node list \<Rightarrow> nat option" where
  "first_of change vs = index_of (\<lambda>v. n_change v = change) vs"

definition node_used :: "mem_state \<Rightarrow> string \<Rightarrow> node list \<Rightarrow> bool" where
  "node_used s change vs \<longleftrightarrow> (\<exists>v \<in> set vs. n_change v = change \<and> (\<exists>b \<in> set (map snd (st_commits s)). commit_contains b (node_ref_of v)))
     \<or> (case first_of change vs of None \<Rightarrow> False | Some i \<Rightarrow> \<exists>v \<in> set (drop i vs). n_change v \<noteq> change)"

definition cut_of :: "mem_state \<Rightarrow> string \<Rightarrow> string \<Rightarrow> nat option" where
  "cut_of s change i = first_of change (versions_of s i)"

definition removed :: "mem_state \<Rightarrow> string \<Rightarrow> node_ref \<Rightarrow> bool" where
  "removed s change r \<longleftrightarrow> (case cut_of s change (nr_id r) of Some i \<Rightarrow> int i < nr_version r | None \<Rightarrow> False)"

primrec keep_rows :: "('r \<Rightarrow> bool) \<Rightarrow> ('r \<Rightarrow> bool) \<Rightarrow> 'r list \<Rightarrow> 'r list option" where
  "keep_rows own used [] = Some []"
| "keep_rows own used (l # ls) = (if own l then keep_rows own used ls
     else if used l then None else map_option (Cons l) (keep_rows own used ls))"

definition delete_change :: "string \<Rightarrow> string \<Rightarrow> string \<Rightarrow> unit writes" where
  "delete_change i ns branch s =
    (if (\<exists>b \<in> set (map snd (st_commits s)). c_change b = i) \<or> (\<exists>vs \<in> set (map snd (st_versions s)). node_used s i vs) then (Inl Conflict, s)
     else let gone = removed s i in
       case keep_rows (\<lambda>l. k_change l = i \<or> gone (k_from l)) (\<lambda>l. gone (k_to l)) (st_links s) of
         None \<Rightarrow> (Inl Conflict, s)
       | Some links \<Rightarrow> let s1 = s\<lparr>st_links := links\<rparr> in
         case keep_rows (\<lambda>d. dp_change d = i \<or> gone (dp_from d)) (\<lambda>d. gone (dp_to d)) (st_drops s) of
           None \<Rightarrow> (Inl Conflict, s1)
         | Some drops \<Rightarrow> let s2 = s1\<lparr>st_drops := drops,
               st_sets := filter (\<lambda>(r, _). \<not> gone r) (st_sets s),
               st_keys := filter (\<lambda>(_, nid). cut_of s i nid \<noteq> Some 0) (st_keys s),
               st_versions := List.map_filter (\<lambda>(nid, vs). case cut_of s i nid of None \<Rightarrow> Some (nid, vs)
                   | Some 0 \<Rightarrow> None | Some k \<Rightarrow> Some (nid, take k vs)) (st_versions s),
               st_joins := filter (\<lambda>(_, j). mj_change j \<noteq> i) (st_joins s),
               st_log := filter (\<lambda>e. le_change e \<noteq> i) (st_log s),
               st_tags := filter (\<lambda>t. \<not> gone (tag_ref t)) (st_tags s),
               st_branches := (if branch \<noteq> [] then mdel (branch_key ns branch) (st_branches s) else st_branches s)\<rparr>
             in if map_of (st_changes s) i = None then (Inl NotFound, s2)
                else (Inr (), s2\<lparr>st_changes := mdel i (st_changes s)\<rparr>))"

subsection \<open>Commits of branches\<close>

text \<open>
  The order a branch holds the commit of a version from: its own commit's, or the one of the merge that took it. The
  commits a branch took from another one are read within a range, the ones a third holds left out.
\<close>

definition holds :: "mem_state \<Rightarrow> node \<Rightarrow> string \<Rightarrow> int option" where
  "holds s n branch = (if n_committed n \<le> 0 then None else map_option mj_at (map_of (st_joins s) (branch, n_committed n)))"

definition on_branch :: "mem_state \<Rightarrow> node \<Rightarrow> string \<Rightarrow> bool" where
  "on_branch s n branch \<longleftrightarrow> holds s n (branch_of branch) \<noteq> None"

definition joined_commits :: "mem_state \<Rightarrow> string \<Rightarrow> string \<Rightarrow> int \<Rightarrow> int \<Rightarrow> int list" where
  "joined_commits s branch except after up_to = sort (map (snd \<circ> fst) (filter (\<lambda>((b, q), j).
     \<not> (except \<noteq> [] \<and> map_of (st_joins s) (branch_of except, q) \<noteq> None)
     \<and> b = branch_of branch \<and> after < mj_at j \<and> mj_at j \<le> up_to) (st_joins s)))"

definition take_commits_of :: "string \<Rightarrow> string \<Rightarrow> int \<Rightarrow> string \<Rightarrow> int \<Rightarrow> int \<Rightarrow> unit writes" where
  "take_commits_of branch change log_seq frm after up_to s = (let seqs = joined_commits s frm [] after up_to in
     if seqs = [] then (Inr (), s)
     else case next_commit s of (Inl e, s') \<Rightarrow> (Inl e, s')
       | (Inr at_seq, s') \<Rightarrow> join_commits branch change at_seq log_seq seqs s')"

subsection \<open>Reading the log\<close>

record log_filter =
  lf_change :: string
  lf_types :: "string list"
  lf_flows :: "string list option"
  lf_processes :: "string list"
  lf_execution :: string
  lf_after :: int
  lf_limit :: int

definition match_type :: "log_filter \<Rightarrow> string \<Rightarrow> bool" where
  "match_type f t \<longleftrightarrow> lf_types f = [] \<or> (\<exists>x \<in> set (lf_types f). x = t
     \<or> (x \<noteq> [] \<and> last x = CHR ''.'' \<and> take (length x) t = x))"

definition log_match :: "log_filter \<Rightarrow> log_entry \<Rightarrow> bool" where
  "log_match f e \<longleftrightarrow> (lf_change f = [] \<or> le_change e = lf_change f) \<and> match_type f (le_type e)
     \<and> (case lf_flows f of None \<Rightarrow> True | Some fs \<Rightarrow> le_flow e \<in> set fs)
     \<and> (lf_processes f = [] \<or> le_process e \<in> set (lf_processes f))
     \<and> (lf_execution f = [] \<or> le_execution e = lf_execution f) \<and> lf_after f < le_seq e"

primrec log_loop :: "log_filter \<Rightarrow> log_entry list \<Rightarrow> log_entry list \<Rightarrow> log_entry list" where
  "log_loop f out [] = out"
| "log_loop f out (e # es) = (if log_match f e
     then let out' = out @ [e] in if 0 < lf_limit f \<and> int (length out') = lf_limit f then out' else log_loop f out' es
     else log_loop f out es)"

definition mem_log :: "mem_state \<Rightarrow> log_filter \<Rightarrow> log_entry list" where
  "mem_log s f = log_loop f [] (st_log s)"

definition log_counts :: "mem_state \<Rightarrow> log_filter \<Rightarrow> (string, nat) gomap" where
  "log_counts s f = foldl (\<lambda>m e. if log_match (f\<lparr>lf_after := 0\<rparr>) e
     then mput (le_type e) (Suc (case map_of m (le_type e) of Some n \<Rightarrow> n | None \<Rightarrow> 0)) m else m) [] (st_log s)"

subsection \<open>What a transaction does\<close>

datatype store_op = PutBranch branch | PutNode node link_set | PutLinks "link list" | DropLink node_ref string link
  | PutCommit commit | NextCommit | PutChange change | AppendLog log_entry | ReserveLogSeq
  | JoinCommits string string int int "int list" | TakeCommits string string int string int int
  | PutTag tag | DeleteTag string | DeleteChange string string string | AppendOutbox "message list"

definition no_value :: "'a writes \<Rightarrow> unit writes" where
  "no_value f s = apfst (map_sum id (\<lambda>_. ())) (f s)"

fun op_writes :: "store_op \<Rightarrow> unit writes" where
  "op_writes (PutBranch b) = put_branch b"
| "op_writes (PutNode n ls) = put_node n ls"
| "op_writes (PutLinks ls) = put_links ls"
| "op_writes (DropLink r i l) = drop_link r i l"
| "op_writes (PutCommit b) = put_commit b"
| "op_writes NextCommit = no_value next_commit"
| "op_writes (PutChange c) = put_change c"
| "op_writes (AppendLog e) = no_value (append_log e)"
| "op_writes ReserveLogSeq = no_value reserve_log_seq"
| "op_writes (JoinCommits b c a l qs) = join_commits b c a l qs"
| "op_writes (TakeCommits b c l f a u) = take_commits_of b c l f a u"
| "op_writes (PutTag t) = put_tag t"
| "op_writes (DeleteTag i) = delete_tag i"
| "op_writes (DeleteChange i ns b) = delete_change i ns b"
| "op_writes (AppendOutbox ms) = (\<lambda>s. (Inr (), s))"

definition run_op :: "store_op \<Rightarrow> mem_tx \<Rightarrow> mem_tx" where
  "run_op x t = (let (r, t') = writing (op_writes x) t in
     case (x, r) of (AppendOutbox ms, Inr _) \<Rightarrow> t'\<lparr>mx_outbox := mx_outbox t' @ ms\<rparr> | _ \<Rightarrow> t')"

definition run_ops :: "store_op list \<Rightarrow> mem_tx \<Rightarrow> mem_tx" where
  "run_ops xs t = fold run_op xs t"


subsection \<open>The invariant of the store\<close>

text \<open>The versions of a node are numbered from 1, of one project and one creator.\<close>

definition history_ok :: "string \<Rightarrow> node list \<Rightarrow> bool" where
  "history_ok i vs \<longleftrightarrow> vs \<noteq> [] \<and> (\<forall>k < length vs. n_id (vs ! k) = i \<and> n_version (vs ! k) = int k + 1
     \<and> n_project (vs ! k) = n_project (vs ! 0) \<and> n_creator (vs ! k) = n_creator (vs ! 0))"

definition histories_ok :: "(string, node list) gomap \<Rightarrow> bool" where
  "histories_ok vm \<longleftrightarrow> distinct (map fst vm) \<and> (\<forall>i vs. map_of vm i = Some vs \<longrightarrow> history_ok i vs)"

text \<open>A key names the node whose first version has it, and every node with a key is found by it.\<close>

definition keyed :: "(string, node list) gomap \<Rightarrow> string \<Rightarrow> string \<Rightarrow> bool" where
  "keyed vm k i \<longleftrightarrow> (\<exists>v vs. map_of vm i = Some (v # vs) \<and> n_key v \<noteq> [] \<and> k = ns_key (n_namespace v) (n_key v))"

definition keys_ok :: "(string, string) gomap \<Rightarrow> (string, node list) gomap \<Rightarrow> bool" where
  "keys_ok km vm \<longleftrightarrow> distinct (map fst km) \<and> (\<forall>k i. map_of km k = Some i \<longleftrightarrow> keyed vm k i)"

definition has_version :: "(string, node list) gomap \<Rightarrow> node_ref \<Rightarrow> bool" where
  "has_version vm r \<longleftrightarrow> (\<exists>vs. map_of vm (nr_id r) = Some vs \<and> 1 \<le> nr_version r \<and> nr_version r \<le> int (length vs))"

definition sets_ok :: "(node_ref, link_set) gomap \<Rightarrow> (string, node list) gomap \<Rightarrow> bool" where
  "sets_ok sm vm \<longleftrightarrow> (\<forall>r \<in> fst ` set sm. has_version vm r)"

definition commits_ok :: "(string, commit) gomap \<Rightarrow> bool" where
  "commits_ok cm \<longleftrightarrow> distinct (map fst cm) \<and> (\<forall>i c. map_of cm i = Some c \<longrightarrow> c_id c = i \<and> c_nodes c = [])"

definition entries_ok :: "log_entry list \<Rightarrow> (string, change) gomap \<Rightarrow> bool" where
  "entries_ok l chm \<longleftrightarrow> distinct (map le_id l) \<and> (\<forall>e \<in> set l. map_of chm (le_change e) \<noteq> None)"

definition tags_ok :: "tag list \<Rightarrow> (string, node list) gomap \<Rightarrow> bool" where
  "tags_ok ts vm \<longleftrightarrow> distinct (map tg_id ts) \<and> (\<forall>t \<in> set ts. has_version vm (tag_ref t))"

definition store_ok :: "mem_state \<Rightarrow> bool" where
  "store_ok s \<longleftrightarrow> histories_ok (st_versions s) \<and> keys_ok (st_keys s) (st_versions s) \<and> sets_ok (st_sets s) (st_versions s)
     \<and> commits_ok (st_commits s) \<and> entries_ok (st_log s) (st_changes s) \<and> tags_ok (st_tags s) (st_versions s)"

lemma new_store_ok: "store_ok new_store"
  by (simp add: store_ok_def new_store_def histories_ok_def keys_ok_def keyed_def sets_ok_def commits_ok_def entries_ok_def tags_ok_def)

subsection \<open>The operations keep it\<close>

lemma history_ne: "history_ok i vs \<Longrightarrow> vs \<noteq> []"
  by (simp add: history_ok_def)

lemma history_at: "history_ok i vs \<Longrightarrow> k < length vs \<Longrightarrow> n_id (vs ! k) = i \<and> n_version (vs ! k) = int k + 1
    \<and> n_project (vs ! k) = n_project (vs ! 0) \<and> n_creator (vs ! k) = n_creator (vs ! 0)"
  unfolding history_ok_def by blast

lemma versions_of_cases:
  assumes "histories_ok (st_versions s)"
  shows "map_of (st_versions s) i = (if versions_of s i = [] then None else Some (versions_of s i))"
    and "versions_of s i = [] \<or> history_ok i (versions_of s i)"
proof -
  have h: "\<And>vs. map_of (st_versions s) i = Some vs \<Longrightarrow> history_ok i vs" using assms by (simp add: histories_ok_def)
  show "map_of (st_versions s) i = (if versions_of s i = [] then None else Some (versions_of s i))"
    using h history_ne by (cases "map_of (st_versions s) i") (auto simp: versions_of_def)
  show "versions_of s i = [] \<or> history_ok i (versions_of s i)"
    using h by (cases "map_of (st_versions s) i") (auto simp: versions_of_def)
qed

lemma history_snoc:
  assumes "vs = [] \<or> history_ok i vs" and "n_id n = i" and "n_version n = int (length vs) + 1"
    and "vs \<noteq> [] \<Longrightarrow> n_project n = n_project (vs ! 0) \<and> n_creator n = n_creator (vs ! 0)"
  shows "history_ok i (vs @ [n])"
proof -
  have "n_id ((vs @ [n]) ! k) = i \<and> n_version ((vs @ [n]) ! k) = int k + 1 \<and> n_project ((vs @ [n]) ! k) = n_project ((vs @ [n]) ! 0)
     \<and> n_creator ((vs @ [n]) ! k) = n_creator ((vs @ [n]) ! 0)" if k: "k < Suc (length vs)" for k
  proof (cases "k < length vs")
    case True
    then have "history_ok i vs" "vs \<noteq> []" using assms(1) by auto
    then show ?thesis using history_at [OF _ True, of i] True by (simp add: nth_append)
  next
    case False
    then have "k = length vs" using k by simp
    then show ?thesis using assms(2-4) by (cases "vs = []") (simp_all add: nth_append)
  qed
  then show ?thesis unfolding history_ok_def by (metis Nil_is_append_conv length_append_singleton not_Cons_self2)
qed

lemma has_version_snoc: "has_version vm r \<Longrightarrow> map_of vm i = (if vs = [] then None else Some vs) \<Longrightarrow> has_version (mput i (vs @ [n]) vm) r"
  by (auto simp: has_version_def split: if_splits)

lemma sets_ok_more: "has_version vm' r \<Longrightarrow> fst ` set sm' \<subseteq> insert r (fst ` set sm) \<Longrightarrow> sets_ok sm vm
    \<Longrightarrow> (\<And>q. has_version vm q \<Longrightarrow> has_version vm' q) \<Longrightarrow> sets_ok sm' vm'"
  unfolding sets_ok_def by blast

lemma keys_mput: "fst ` set (mput k v m) = insert k (fst ` set m)"
  by (simp add: mput_def dom_update)

lemma put_node_ok:
  assumes ok: "store_ok s" and p: "put_node n links s = (r, s')"
  shows "store_ok s'"
proof (cases "r = Inr () \<and> s' \<noteq> s")
  case False
  have "r = Inl Conflict \<Longrightarrow> s' = s" using p by (auto simp: put_node_def Let_def split: if_splits)
  moreover have "r = Inl Conflict \<or> r = Inr ()" using p by (auto simp: put_node_def Let_def split: if_splits)
  ultimately show ?thesis using False ok by metis
next
  case True
  define vs where "vs = versions_of s (n_id n)"
  define k where "k = ns_key (n_namespace n) (n_key n)"
  define n' where "n' = (if n_version n > 1 then n\<lparr>n_project := n_project (vs ! 0), n_creator := n_creator (vs ! 0)\<rparr> else n)"
  have f: "n_version n = int (length vs) + 1" and new: "\<not> (n_version n = 1 \<and> map_of (st_keys s) k \<noteq> None \<and> n_key n \<noteq> [])"
    using p True by (auto simp: put_node_def Let_def vs_def k_def split: if_splits)
  define km where "km = (if n_version n = 1 \<and> n_key n \<noteq> [] then mput k (n_id n) (st_keys s) else st_keys s)"
  define sm where "sm = (if links \<noteq> zero_set then mput (node_ref_of n') (if ls_of links = 0 then links\<lparr>ls_of := n_version n'\<rparr> else links) (st_sets s) else st_sets s)"
  let ?vm = "mput (n_id n) (vs @ [n']) (st_versions s)"
  have s': "s' = s\<lparr>st_keys := km, st_versions := ?vm, st_sets := sm\<rparr>"
    using p f new by (auto simp: put_node_def Let_def vs_def [symmetric] k_def [symmetric] n'_def km_def sm_def split: if_splits)
  have h: "histories_ok (st_versions s)" and kk: "keys_ok (st_keys s) (st_versions s)" using ok by (simp_all add: store_ok_def)
  have m: "map_of (st_versions s) (n_id n) = (if vs = [] then None else Some vs)" and hv: "vs = [] \<or> history_ok (n_id n) vs"
    using versions_of_cases [OF h, of "n_id n", folded vs_def] by simp_all
  have n': "n_id n' = n_id n" "n_version n' = n_version n" "n_key n' = n_key n" "n_namespace n' = n_namespace n" by (simp_all add: n'_def)
  have "history_ok (n_id n) (vs @ [n'])"
    by (rule history_snoc [OF hv]) (use f in \<open>auto simp: n' n'_def\<close>)
  then have h': "histories_ok ?vm" using h by (auto simp: histories_ok_def distinct_mput)
  have old: "keyed ?vm q i \<longleftrightarrow> keyed (st_versions s) q i" if "i \<noteq> n_id n" for q i using that by (simp add: keyed_def)
  have k': "keys_ok km ?vm"
  proof (cases "vs = []")
    case True
    have own: "keyed ?vm q (n_id n) \<longleftrightarrow> n_key n \<noteq> [] \<and> q = k" for q using True by (simp add: keyed_def k_def n')
    have none: "\<not> keyed (st_versions s) q (n_id n)" for q using True m by (simp add: keyed_def)
    have "n_version n = 1" using True f by simp
    then have free: "n_key n \<noteq> [] \<Longrightarrow> map_of (st_keys s) k = None" using new by blast
    have "map_of km q = Some i \<longleftrightarrow> keyed ?vm q i" for q i
    proof (cases "i = n_id n")
      case True
      then have "map_of (st_keys s) q \<noteq> Some i" using kk none [of q] by (simp add: keys_ok_def)
      then show ?thesis using True own [of q] \<open>n_version n = 1\<close> by (simp add: km_def)
    next
      case False
      then have "map_of (st_keys s) q = Some i \<longleftrightarrow> keyed ?vm q i" using kk old [of i q] by (simp add: keys_ok_def)
      then show ?thesis using False free by (auto simp: km_def)
    qed
    then show ?thesis using kk by (simp add: keys_ok_def km_def distinct_mput)
  next
    case False
    have own: "keyed ?vm q (n_id n) \<longleftrightarrow> keyed (st_versions s) q (n_id n)" for q using False m by (cases vs) (auto simp: keyed_def)
    have "keyed ?vm q i \<longleftrightarrow> keyed (st_versions s) q i" for q i using own old by (cases "i = n_id n") simp_all
    moreover have "km = st_keys s" using False f by (simp add: km_def)
    ultimately show ?thesis using kk by (simp add: keys_ok_def)
  qed
  have hvs: "has_version (st_versions s) q \<Longrightarrow> has_version ?vm q" for q by (rule has_version_snoc) (use m in auto)
  have "has_version ?vm (node_ref_of n')" using f by (auto simp: has_version_def node_ref_of_def n')
  moreover have "fst ` set sm \<subseteq> insert (node_ref_of n') (fst ` set (st_sets s))" by (simp add: sm_def keys_mput subset_insertI)
  moreover have "sets_ok (st_sets s) (st_versions s)" using ok by (simp add: store_ok_def)
  ultimately have "sets_ok sm ?vm" by (rule sets_ok_more) (rule hvs)
  moreover have "tags_ok (st_tags s) ?vm" using ok hvs by (auto simp: tags_ok_def store_ok_def)
  ultimately show ?thesis using ok h' k' by (simp add: s' store_ok_def)
qed

lemma append_log_ok: "store_ok s \<Longrightarrow> append_log e s = (r, s') \<Longrightarrow> store_ok s'"
  by (auto simp: append_log_def Let_def store_ok_def entries_ok_def split: if_splits) blast+

lemma put_commit_ok: "store_ok s \<Longrightarrow> put_commit b s = (r, s') \<Longrightarrow> store_ok s'"
  by (auto simp: put_commit_def store_ok_def commits_ok_def distinct_mput split: if_splits)

lemma put_change_ok: "store_ok s \<Longrightarrow> put_change c s = (r, s') \<Longrightarrow> store_ok s'"
  by (auto simp: put_change_def store_ok_def entries_ok_def)

lemma put_tag_ok:
  assumes ok: "store_ok s" and p: "put_tag t s = (r, s')"
  shows "store_ok s'"
proof (cases "\<exists>n \<in> set (versions_of s (tg_node t)). n_version n = tg_version t")
  case False
  then show ?thesis using p ok by (auto simp: put_tag_def split: if_splits)
next
  case True
  have h: "histories_ok (st_versions s)" and tg: "tags_ok (st_tags s) (st_versions s)" using ok by (simp_all add: store_ok_def)
  let ?vs = "versions_of s (tg_node t)"
  obtain j where j: "j < length ?vs" "n_version (?vs ! j) = tg_version t" using True by (metis in_set_conv_nth)
  then have "?vs \<noteq> []" by auto
  then have m: "map_of (st_versions s) (tg_node t) = Some ?vs" "history_ok (tg_node t) ?vs"
    using versions_of_cases [OF h, of "tg_node t"] by simp_all
  have "tg_version t = int j + 1" using history_at [OF m(2) j(1)] j(2) by simp
  then have v: "has_version (st_versions s) (tag_ref t)" using m(1) j(1) by (simp add: has_version_def tag_ref_def)
  show ?thesis
  proof (cases "index_of (\<lambda>x. tg_id x = tg_id t) (st_tags s)")
    case None
    then have "tg_id t \<notin> tg_id ` set (st_tags s)" by (auto simp: index_of_None)
    moreover have "s' = s\<lparr>st_tags := st_tags s @ [t]\<rparr>" using p True None by (simp add: put_tag_def)
    ultimately show ?thesis using ok tg v by (simp add: store_ok_def tags_ok_def)
  next
    case (Some i)
    then have i: "i < length (st_tags s)" "tg_id (st_tags s ! i) = tg_id t" using index_of_Some by fastforce+
    have s': "s' = s\<lparr>st_tags := (st_tags s)[i := t]\<rparr>" using p True Some by (simp add: put_tag_def)
    have "map tg_id ((st_tags s)[i := t]) = map tg_id (st_tags s)" by (metis i(2) list_update_id map_update)
    moreover have "set ((st_tags s)[i := t]) \<subseteq> insert t (set (st_tags s))" by (rule set_update_subset_insert)
    ultimately show ?thesis using ok tg v by (auto simp: s' store_ok_def tags_ok_def)
  qed
qed

lemma delete_tag_ok:
  assumes ok: "store_ok s" and p: "delete_tag i s = (r, s')"
  shows "store_ok s'"
proof (cases "index_of (\<lambda>x. tg_id x = i) (st_tags s)")
  case None
  then show ?thesis using p ok by (simp add: delete_tag_def)
next
  case (Some k)
  have s': "s' = s\<lparr>st_tags := delete_at k (st_tags s)\<rparr>" using p Some by (simp add: delete_tag_def)
  have "distinct (map tg_id (delete_at k (st_tags s)))" using ok distinct_delete_at [of "map tg_id (st_tags s)" k]
    by (simp add: store_ok_def tags_ok_def map_delete_at)
  then show ?thesis using ok set_delete_at_subset [of k "st_tags s"] by (auto simp: s' store_ok_def tags_ok_def)
qed

lemma cut_versions:
  assumes "distinct (map fst vm)"
  shows "map_of (List.map_filter (\<lambda>(i, vs). case c i of None \<Rightarrow> Some (i, vs) | Some 0 \<Rightarrow> None | Some k \<Rightarrow> Some (i, take k vs)) vm) i
     = (case map_of vm i of None \<Rightarrow> None | Some vs \<Rightarrow> (case c i of None \<Rightarrow> Some vs | Some k \<Rightarrow> if k = 0 then None else Some (take k vs)))"
    and "distinct (map fst (List.map_filter (\<lambda>(i, vs). case c i of None \<Rightarrow> Some (i, vs) | Some 0 \<Rightarrow> None | Some k \<Rightarrow> Some (i, take k vs)) vm))"
proof -
  have sub: "fst ` set (List.map_filter (\<lambda>(i, vs). case c i of None \<Rightarrow> Some (i, vs) | Some 0 \<Rightarrow> None | Some k \<Rightarrow> Some (i, take k vs)) m) \<subseteq> fst ` set m"
    for m by (induction m) (auto simp: List.map_filter_simps split: option.splits nat.splits)
  show "map_of (List.map_filter (\<lambda>(i, vs). case c i of None \<Rightarrow> Some (i, vs) | Some 0 \<Rightarrow> None | Some k \<Rightarrow> Some (i, take k vs)) vm) i
     = (case map_of vm i of None \<Rightarrow> None | Some vs \<Rightarrow> (case c i of None \<Rightarrow> Some vs | Some k \<Rightarrow> if k = 0 then None else Some (take k vs)))"
    using assms
  proof (induction vm)
    case (Cons x vm)
    obtain j vs where x: "x = (j, vs)" by fastforce
    have "i \<notin> fst ` set vm \<Longrightarrow> map_of vm i = None" by (simp add: map_of_eq_None_iff)
    then show ?case using Cons x by (auto simp: List.map_filter_simps split: option.splits nat.splits)
  qed (simp add: List.map_filter_simps)
  show "distinct (map fst (List.map_filter (\<lambda>(i, vs). case c i of None \<Rightarrow> Some (i, vs) | Some 0 \<Rightarrow> None | Some k \<Rightarrow> Some (i, take k vs)) vm))"
    using assms
  proof (induction vm)
    case (Cons x vm)
    then show ?case using sub [of vm] by (cases x) (auto simp: List.map_filter_simps split: option.splits nat.splits)
  qed (simp add: List.map_filter_simps)
qed

subsection \<open>Deleting a change keeps it\<close>

lemma history_take: "history_ok i vs \<Longrightarrow> 0 < k \<Longrightarrow> history_ok i (take k vs)"
proof -
  assume h: "history_ok i vs" and k: "0 < k"
  have "n_id (take k vs ! j) = i \<and> n_version (take k vs ! j) = int j + 1 \<and> n_project (take k vs ! j) = n_project (take k vs ! 0)
     \<and> n_creator (take k vs ! j) = n_creator (take k vs ! 0)" if "j < length (take k vs)" for j
    using history_at [OF h, of j] that k by simp
  then show ?thesis using history_ne [OF h] k unfolding history_ok_def by (metis less_not_refl take_eq_Nil)
qed

lemma map_of_filter_val: "distinct (map fst m) \<Longrightarrow>
   map_of (filter (\<lambda>(_, v). P v) m) k = (case map_of m k of None \<Rightarrow> None | Some v \<Rightarrow> if P v then Some v else None)"
proof (induction m)
  case (Cons x m)
  obtain j v where x: "x = (j, v)" by fastforce
  have "k \<notin> fst ` set m \<Longrightarrow> map_of m k = None" by (simp add: map_of_eq_None_iff)
  then show ?case using Cons x by (auto split: option.splits)
qed simp

definition left_versions :: "mem_state \<Rightarrow> string \<Rightarrow> (string, node list) gomap" where
  "left_versions s i = List.map_filter (\<lambda>(nid, vs). case cut_of s i nid of None \<Rightarrow> Some (nid, vs)
     | Some 0 \<Rightarrow> None | Some k \<Rightarrow> Some (nid, take k vs)) (st_versions s)"

lemma cut_less: "cut_of s i nid = Some k \<Longrightarrow> map_of (st_versions s) nid = Some vs \<Longrightarrow> k < length vs"
  using index_of_Some [of "\<lambda>v. n_change v = i" vs k] by (simp add: cut_of_def first_of_def versions_of_def)

lemma left_lookup:
  assumes "histories_ok (st_versions s)"
  shows "map_of (left_versions s i) nid = (case map_of (st_versions s) nid of None \<Rightarrow> None
     | Some vs \<Rightarrow> (case cut_of s i nid of None \<Rightarrow> Some vs | Some k \<Rightarrow> if k = 0 then None else Some (take k vs)))"
  unfolding left_versions_def by (rule cut_versions(1)) (use assms in \<open>simp add: histories_ok_def\<close>)

lemma left_ok:
  assumes "histories_ok (st_versions s)"
  shows "histories_ok (left_versions s i)"
proof -
  have "distinct (map fst (left_versions s i))"
    unfolding left_versions_def by (rule cut_versions(2)) (use assms in \<open>simp add: histories_ok_def\<close>)
  moreover have "history_ok nid vs" if "map_of (left_versions s i) nid = Some vs" for nid vs
    using that assms history_take by (auto simp: left_lookup [OF assms] histories_ok_def split: option.splits if_splits)
  ultimately show ?thesis by (simp add: histories_ok_def)
qed

lemma left_has_version:
  assumes "histories_ok (st_versions s)"
  shows "has_version (left_versions s i) r \<longleftrightarrow> has_version (st_versions s) r \<and> \<not> removed s i r"
proof (cases "map_of (st_versions s) (nr_id r)")
  case (Some vs)
  then show ?thesis using cut_less [of s i "nr_id r" _ vs]
    by (cases "cut_of s i (nr_id r)") (auto simp: has_version_def left_lookup [OF assms] removed_def)
qed (simp add: has_version_def left_lookup [OF assms])

lemma left_keyed:
  assumes "histories_ok (st_versions s)"
  shows "keyed (left_versions s i) q nid \<longleftrightarrow> keyed (st_versions s) q nid \<and> cut_of s i nid \<noteq> Some 0"
proof (cases "map_of (st_versions s) nid")
  case (Some vs)
  then have "history_ok nid vs" using assms unfolding histories_ok_def by blast
  then have "vs \<noteq> []" by (rule history_ne)
  then obtain v us where "vs = v # us" by (cases vs) auto
  then show ?thesis using Some by (cases "cut_of s i nid") (auto simp: keyed_def left_lookup [OF assms] take_Cons' split: if_splits)
qed (simp add: keyed_def left_lookup [OF assms])

text \<open>What a purge that goes through makes of the store.\<close>

definition purged :: "mem_state \<Rightarrow> string \<Rightarrow> string \<Rightarrow> string \<Rightarrow> link list \<Rightarrow> mem_drop list \<Rightarrow> mem_state" where
  "purged s i ns branch links drops = s\<lparr>st_links := links, st_drops := drops,
     st_sets := filter (\<lambda>(r, _). \<not> removed s i r) (st_sets s),
     st_keys := filter (\<lambda>(_, nid). cut_of s i nid \<noteq> Some 0) (st_keys s),
     st_versions := left_versions s i,
     st_joins := filter (\<lambda>(_, j). mj_change j \<noteq> i) (st_joins s),
     st_log := filter (\<lambda>e. le_change e \<noteq> i) (st_log s),
     st_tags := filter (\<lambda>t. \<not> removed s i (tag_ref t)) (st_tags s),
     st_branches := (if branch \<noteq> [] then mdel (branch_key ns branch) (st_branches s) else st_branches s)\<rparr>"

lemma delete_change_cases:
  assumes "delete_change i ns branch s = (r, s')"
  obtains (used) "r = Inl Conflict" "\<exists>links. s' = s\<lparr>st_links := links\<rparr>"
  | (gone) links drops where "\<forall>b \<in> set (map snd (st_commits s)). c_change b \<noteq> i"
      "\<forall>vs \<in> set (map snd (st_versions s)). \<not> node_used s i vs"
      "keep_rows (\<lambda>l. k_change l = i \<or> removed s i (k_from l)) (\<lambda>l. removed s i (k_to l)) (st_links s) = Some links"
      "keep_rows (\<lambda>d. dp_change d = i \<or> removed s i (dp_from d)) (\<lambda>d. removed s i (dp_to d)) (st_drops s) = Some drops"
      "r = (if map_of (st_changes s) i = None then Inl NotFound else Inr ())"
      "s' = (if map_of (st_changes s) i = None then purged s i ns branch links drops
          else (purged s i ns branch links drops)\<lparr>st_changes := mdel i (st_changes s)\<rparr>)"
proof (cases "(\<exists>b \<in> set (map snd (st_commits s)). c_change b = i) \<or> (\<exists>vs \<in> set (map snd (st_versions s)). node_used s i vs)")
  case True
  then have "r = Inl Conflict" "s' = s" using assms by (auto simp: delete_change_def)
  then show ?thesis by (intro used) (auto intro: exI [of _ "st_links s"])
next
  case free: False
  show ?thesis
  proof (cases "keep_rows (\<lambda>l. k_change l = i \<or> removed s i (k_from l)) (\<lambda>l. removed s i (k_to l)) (st_links s)")
    case None
    then have "r = Inl Conflict" "s' = s" using assms free by (auto simp: delete_change_def Let_def)
    then show ?thesis by (intro used) (auto intro: exI [of _ "st_links s"])
  next
    case l: (Some links)
    show ?thesis
    proof (cases "keep_rows (\<lambda>d. dp_change d = i \<or> removed s i (dp_from d)) (\<lambda>d. removed s i (dp_to d)) (st_drops s)")
      case None
      then have "r = Inl Conflict" "s' = s\<lparr>st_links := links\<rparr>" using assms free l by (auto simp: delete_change_def Let_def)
      then show ?thesis by (intro used) auto
    next
      case d: (Some drops)
      show ?thesis
        by (rule gone [OF _ _ l d]) (use assms free l d in \<open>auto simp: delete_change_def Let_def purged_def left_versions_def split: if_splits\<close>)
    qed
  qed
qed

lemma purged_ok:
  assumes "store_ok s"
  shows "store_ok (purged s i ns branch links drops)"
    and "store_ok ((purged s i ns branch links drops)\<lparr>st_changes := mdel i (st_changes s)\<rparr>)"
proof -
  have h: "histories_ok (st_versions s)" using assms by (simp add: store_ok_def)
  have k: "keys_ok (filter (\<lambda>(_, nid). cut_of s i nid \<noteq> Some 0) (st_keys s)) (left_versions s i)"
  proof -
    have ko: "keys_ok (st_keys s) (st_versions s)" using assms by (simp add: store_ok_def)
    have "map_of (filter (\<lambda>(_, nid). cut_of s i nid \<noteq> Some 0) (st_keys s)) q = Some nid \<longleftrightarrow> keyed (left_versions s i) q nid" for q nid
    proof -
      have d: "distinct (map fst (st_keys s))" using ko by (simp add: keys_ok_def)
      have "keyed (st_versions s) q nid \<longleftrightarrow> map_of (st_keys s) q = Some nid" using ko unfolding keys_ok_def by blast
      then show ?thesis
        unfolding map_of_filter_val [OF d] left_keyed [OF h] by (cases "map_of (st_keys s) q") (auto simp del: map_of_eq_Some_iff)
    qed
    then show ?thesis using ko by (simp add: keys_ok_def distinct_map_filter)
  qed
  have st: "sets_ok (filter (\<lambda>(r, _). \<not> removed s i r) (st_sets s)) (left_versions s i)"
    using assms by (auto simp: sets_ok_def store_ok_def left_has_version [OF h])
  have tg: "tags_ok (filter (\<lambda>t. \<not> removed s i (tag_ref t)) (st_tags s)) (left_versions s i)"
    using assms by (auto simp: tags_ok_def store_ok_def left_has_version [OF h] distinct_map_filter)
  have en: "entries_ok (filter (\<lambda>e. le_change e \<noteq> i) (st_log s)) (st_changes s)"
    "entries_ok (filter (\<lambda>e. le_change e \<noteq> i) (st_log s)) (mdel i (st_changes s))"
    using assms by (auto simp: entries_ok_def store_ok_def distinct_map_filter)
  show "store_ok (purged s i ns branch links drops)"
    "store_ok ((purged s i ns branch links drops)\<lparr>st_changes := mdel i (st_changes s)\<rparr>)"
    using assms k st tg en left_ok [OF h] by (simp_all add: store_ok_def purged_def)
qed

lemma delete_change_ok:
  assumes "store_ok s" and "delete_change i ns branch s = (r, s')"
  shows "store_ok s'"
  using assms(2)
proof (cases rule: delete_change_cases)
  case used
  then show ?thesis using assms(1) by (auto simp: store_ok_def)
next
  case (gone links drops)
  then show ?thesis using purged_ok [OF assms(1)] by (simp split: if_splits)
qed

lemma store_ok_frame [simp]: "store_ok (s\<lparr>st_links := x1\<rparr>) = store_ok s" "store_ok (s\<lparr>st_drops := x2\<rparr>) = store_ok s"
  "store_ok (s\<lparr>st_branches := x3\<rparr>) = store_ok s" "store_ok (s\<lparr>st_joins := x4\<rparr>) = store_ok s" "store_ok (s\<lparr>st_seq := x5\<rparr>) = store_ok s"
  by (simp_all add: store_ok_def)

lemma op_writes_ok:
  assumes "store_ok s" and "op_writes x s = (r, s')"
  shows "store_ok s'"
proof (cases x)
  case (AppendLog e)
  then show ?thesis using assms append_log_ok [OF assms(1), of e] by (auto simp: no_value_def apfst_def map_prod_def split: prod.splits)
next
  case (TakeCommits b c l f a u)
  then show ?thesis using assms
    by (auto simp: take_commits_of_def next_commit_def join_commits_def Let_def split: if_splits)
qed (use assms in \<open>auto simp: put_branch_def put_links_def drop_link_def next_commit_def reserve_log_seq_def join_commits_def no_value_def
  intro: put_node_ok put_commit_ok put_change_ok put_tag_ok delete_tag_ok delete_change_ok\<close>)

subsection \<open>Transactions are atomic\<close>

definition tx_inv :: "mem_state \<Rightarrow> mem_tx \<Rightarrow> bool" where
  "tx_inv s0 t \<longleftrightarrow> (case mx_snap t of None \<Rightarrow> mx_st t = s0 \<and> mx_outbox t = [] | Some s \<Rightarrow> s = s0 \<and> \<not> mx_read_only t)
     \<and> (store_ok s0 \<longrightarrow> store_ok (mx_st t))"

lemma run_op_inv: "tx_inv s0 t \<Longrightarrow> tx_inv s0 (run_op x t) \<and> mx_read_only (run_op x t) = mx_read_only t"
proof -
  assume i: "tx_inv s0 t"
  obtain r s' where w: "op_writes x (mx_st t) = (r, s')" by fastforce
  have ok: "store_ok s0 \<Longrightarrow> store_ok s'" using op_writes_ok [OF _ w] i by (simp add: tx_inv_def)
  show ?thesis
  proof (cases "mx_read_only t")
    case True
    then have "run_op x t = t\<lparr>mx_wrote := True\<rparr>"
      by (auto simp: run_op_def writing_def tx_write_def split: store_op.splits)
    then show ?thesis using i by (simp add: tx_inv_def split: option.splits)
  next
    case False
    define t1 where "t1 = (if mx_snap t = None then t\<lparr>mx_snap := Some (mx_st t)\<rparr> else t)\<lparr>mx_st := s'\<rparr>"
    have wr: "writing (op_writes x) t = (r, t1)" using False w by (auto simp: writing_def tx_write_def t1_def)
    have t1: "mx_snap t1 = Some s0" "\<not> mx_read_only t1" "mx_st t1 = s'" using i False by (auto simp: t1_def tx_inv_def split: option.splits)
    have e: "run_op x t = (case (x, r) of (AppendOutbox ms, Inr _) \<Rightarrow> t1\<lparr>mx_outbox := mx_outbox t1 @ ms\<rparr> | _ \<Rightarrow> t1)"
      by (simp add: run_op_def wr)
    have "\<exists>o'. run_op x t = t1\<lparr>mx_outbox := o'\<rparr>"
      unfolding e by (cases x; cases r) (auto intro: exI [of _ "mx_outbox t1"])
    then show ?thesis using t1 ok False by (auto simp: tx_inv_def)
  qed
qed

lemma run_ops_inv: "tx_inv s0 t \<Longrightarrow> tx_inv s0 (run_ops xs t) \<and> mx_read_only (run_ops xs t) = mx_read_only t"
proof (induction xs arbitrary: t)
  case (Cons x xs)
  have "tx_inv s0 (run_op x t)" "mx_read_only (run_op x t) = mx_read_only t" using run_op_inv [OF Cons.prems, of x] by simp_all
  then show ?case using Cons.IH [of "run_op x t"] by (simp add: run_ops_def)
qed (simp add: run_ops_def)

lemma begin_inv: "tx_inv s (begin_tx s ro)"
  by (simp add: tx_inv_def begin_tx_def)




definition blank_change :: "string \<Rightarrow> change" where
  "blank_change i = \<lparr>ch_id = i, ch_title = [], ch_intent = [], ch_methodology = [], ch_methodology_version = [], ch_namespace = [],
     ch_parent_id = [], ch_owner_org = zero_url, ch_project_id = zero_url, ch_lifecycle = [], ch_state = [], ch_goal = [],
     ch_guardians = [], ch_depends_on = [], ch_status = ''active'', ch_fork_commit = [], ch_branch = [], ch_landed_commit = [],
     ch_stats = zero_stats, ch_data = None, ch_seq = 0, ch_items = [], ch_nodes = None, ch_shared = impacts_of [], ch_created_at = 0\<rparr>"

definition blank_entry :: "string \<Rightarrow> string \<Rightarrow> log_entry" where
  "blank_entry i c = \<lparr>le_seq = 0, le_id = i, le_change = c, le_type = ''fact.note'', le_flow = [], le_process = [], le_execution = [],
     le_subject = [], le_by = [], le_at = 0, le_causation = [], le_payload = ''{}''\<rparr>"

definition store_node :: "string \<Rightarrow> int \<Rightarrow> string \<Rightarrow> int \<Rightarrow> node" where
  "store_node i v b c = zero_node\<lparr>n_id := i, n_version := v, n_branch := b, n_key := i, n_change := ''a'', n_committed := c\<rparr>"



text \<open>
  The memory store gives a position of the log twice: a purged change takes its entries with it and the position of
  the next entry is counted from those left, so that a reader following the log of the other change misses it.
\<close>

theorem log_position_given_twice:
  "let s = mx_st (run_ops [PutChange (blank_change ''a''), PutChange (blank_change ''b''), AppendLog (blank_entry ''1'' ''a''),
       AppendLog (blank_entry ''2'' ''b''), DeleteChange ''a'' [] [], AppendLog (blank_entry ''3'' ''b'')] (begin_tx new_store False))
   in map (\<lambda>e. (le_id e, le_seq e)) (st_log s) = [(''2'', 2), (''3'', 2)]
      \<and> mem_log s \<lparr>lf_change = ''b'', lf_types = [], lf_flows = None, lf_processes = [], lf_execution = [], lf_after = 2, lf_limit = 0\<rparr> = []"
  by code_simp

subsection \<open>What a purge removes\<close>

lemma keep_rows_Some: "keep_rows own used xs = Some ys \<Longrightarrow> ys = filter (\<lambda>x. \<not> own x) xs \<and> (\<forall>y \<in> set ys. \<not> used y)"
  by (induction xs arbitrary: ys) (auto split: if_splits)

lemma own_tail:
  assumes "\<not> node_used s i vs"
  shows "filter (\<lambda>v. n_change v \<noteq> i) vs = (case first_of i vs of None \<Rightarrow> vs | Some k \<Rightarrow> take k vs)"
proof (cases "first_of i vs")
  case None
  then have "\<forall>v \<in> set vs. n_change v \<noteq> i" by (simp add: first_of_def index_of_None)
  then show ?thesis using None by (simp add: filter_id_conv)
next
  case (Some k)
  have b: "filter (\<lambda>v. n_change v \<noteq> i) (take k vs) = take k vs"
    using index_of_Some [of "\<lambda>v. n_change v = i" vs k] Some by (auto simp: first_of_def filter_id_conv in_set_conv_nth)
  have a: "filter (\<lambda>v. n_change v \<noteq> i) (drop k vs) = []"
    using assms Some by (auto simp: node_used_def filter_empty_conv)
  have "filter (\<lambda>v. n_change v \<noteq> i) (take k vs @ drop k vs) = take k vs" unfolding filter_append a b by simp
  then show ?thesis using Some by simp
qed

text \<open>
  C20. A purge that goes through leaves, of each node, its versions of the other changes, which are its first ones; the
  links, log entries and tags it keeps name no version and no change it removed, and it keeps all the others. It goes
  through only when the change produced no commit.
\<close>

theorem purge_removes_the_change:
  assumes "store_ok s" and "delete_change i ns branch s = (Inr (), s')"
  shows "versions_of s' nid = filter (\<lambda>v. n_change v \<noteq> i) (versions_of s nid)
     \<and> (\<exists>k. versions_of s' nid = take k (versions_of s nid))
     \<and> st_links s' = filter (\<lambda>l. k_change l \<noteq> i \<and> \<not> removed s i (k_from l)) (st_links s)
     \<and> removed s i ` k_to ` set (st_links s') \<subseteq> {False}
     \<and> st_log s' = filter (\<lambda>e. le_change e \<noteq> i) (st_log s)
     \<and> st_tags s' = filter (\<lambda>t. has_version (st_versions s') (tag_ref t)) (st_tags s)
     \<and> map_of (st_changes s') = (map_of (st_changes s))(i := None)
     \<and> st_commits s' = st_commits s \<and> i \<notin> c_change ` set (map snd (st_commits s))"
  using assms(2)
proof (cases rule: delete_change_cases)
  case (gone links drops)
  have h: "histories_ok (st_versions s)" using assms(1) by (simp add: store_ok_def)
  have s': "s' = (purged s i ns branch links drops)\<lparr>st_changes := mdel i (st_changes s)\<rparr>" using gone(5,6) by (cases "map_of (st_changes s) i") simp_all
  have v: "st_versions s' = left_versions s i" by (simp add: s' purged_def)
  have own: "versions_of s' nid = filter (\<lambda>v. n_change v \<noteq> i) (versions_of s nid)"
    and pre: "\<exists>k. versions_of s' nid = take k (versions_of s nid)"
  proof -
    have "versions_of s' nid = (case cut_of s i nid of None \<Rightarrow> versions_of s nid | Some k \<Rightarrow> take k (versions_of s nid))"
      unfolding versions_of_def v left_lookup [OF h]
      by (cases "map_of (st_versions s) nid"; cases "cut_of s i nid") (auto simp del: map_of_eq_Some_iff)
    moreover have "filter (\<lambda>v. n_change v \<noteq> i) (versions_of s nid) = (case cut_of s i nid of None \<Rightarrow> versions_of s nid | Some k \<Rightarrow> take k (versions_of s nid))"
    proof (cases "map_of (st_versions s) nid")
      case (Some vs)
      then have "vs \<in> set (map snd (st_versions s))" by (force dest: map_of_SomeD)
      then have "\<not> node_used s i vs" using gone(2) by blast
      from own_tail [OF this] show ?thesis using Some by (cases "first_of i vs") (simp_all add: cut_of_def versions_of_def)
    qed (simp add: versions_of_def cut_of_def first_of_def)
    ultimately show "versions_of s' nid = filter (\<lambda>v. n_change v \<noteq> i) (versions_of s nid)"
      "\<exists>k. versions_of s' nid = take k (versions_of s nid)"
      by (auto split: option.splits intro: exI [of _ "length (versions_of s nid)"])
  qed
  have l: "links = filter (\<lambda>l. k_change l \<noteq> i \<and> \<not> removed s i (k_from l)) (st_links s)" "\<forall>l \<in> set links. \<not> removed s i (k_to l)"
    using keep_rows_Some [OF gone(3)] by auto
  have t: "filter (\<lambda>t. \<not> removed s i (tag_ref t)) (st_tags s) = filter (\<lambda>t. has_version (st_versions s') (tag_ref t)) (st_tags s)"
    using assms(1) by (intro filter_cong) (auto simp: v left_has_version [OF h] store_ok_def tags_ok_def)
  have p: "st_links s' = links" "st_log s' = filter (\<lambda>e. le_change e \<noteq> i) (st_log s)"
    "st_tags s' = filter (\<lambda>t. \<not> removed s i (tag_ref t)) (st_tags s)" "st_changes s' = mdel i (st_changes s)" "st_commits s' = st_commits s"
    by (simp_all add: s' purged_def)
  have "removed s i ` k_to ` set (st_links s') \<subseteq> {False}" using l(2) unfolding p(1) by blast
  moreover have "i \<notin> c_change ` set (map snd (st_commits s))" using gone(1) by blast
  ultimately show ?thesis using own pre unfolding p(2,4,5) p(3) [unfolded t] p(1) l(1) by simp
qed simp

definition purge_demo :: mem_state where
  "purge_demo = mx_st (run_ops [PutChange (blank_change ''a''), PutNode (store_node ''x'' 1 ''main'' 0) zero_set,
     PutTag \<lparr>tg_id = ''t'', tg_name = ''v1'', tg_namespace = [], tg_node = ''x'', tg_version = 1, tg_by = [], tg_created_at = 0\<rparr>,
     AppendLog (blank_entry ''1'' ''a'')] (begin_tx new_store False))"

lemma purge_demo_ok: "store_ok purge_demo"
  using run_ops_inv [OF begin_inv [of new_store False]] new_store_ok by (simp add: purge_demo_def tx_inv_def)

theorem purge_removes_the_change_witness:
  "\<exists>s'. delete_change ''a'' [] [] purge_demo = (Inr (), s') \<and> map n_version (versions_of purge_demo ''x'') = [1]
     \<and> versions_of s' ''x'' = [] \<and> st_tags s' = [] \<and> st_log s' = []"
proof -
  have c: "(case delete_change ''a'' [] [] purge_demo of (r, s') \<Rightarrow> (r = Inr (), map n_version (versions_of purge_demo ''x''), st_tags s'))
      = (True, [1], [])" by code_simp
  obtain r s' where d: "delete_change ''a'' [] [] purge_demo = (r, s')" by fastforce
  then have d': "delete_change ''a'' [] [] purge_demo = (Inr (), s')" "st_tags s' = []" "map n_version (versions_of purge_demo ''x'') = [1]"
    using c by auto
  have "filter (\<lambda>v. n_change v \<noteq> ''a'') (versions_of purge_demo ''x'') = [] \<and> filter (\<lambda>e. le_change e \<noteq> ''a'') (st_log purge_demo) = []"
    by code_simp
  then show ?thesis using purge_removes_the_change [OF purge_demo_ok d'(1), of "''x''"] d' by simp
qed

end
