(* ===== verification/Linkset.thy ===== *)
theory Linkset
  imports Store
begin

unbundle bit_operations_syntax

text \<open>
  The links of a version are a set (graph/graph/linkset.go), over the memory store (the links of graph/graph/memory.go):
  a version holds the rows of its own set, those of an earlier version, or a delta over one, whose base skips back along
  the bits of its order. The JSON text of the properties in the key of a link stands as its tree, and the key as a triple.
\<close>

subsection \<open>The links a version holds\<close>

definition set_of_version :: "mem_state \<Rightarrow> node_ref \<Rightarrow> link_set" where
  "set_of_version s r = (case map_of (st_sets s) r of Some x \<Rightarrow> x | None \<Rightarrow> zero_set\<lparr>ls_of := nr_version r\<rparr>)"

abbreviation (input) of_node :: "string \<Rightarrow> int \<Rightarrow> node_ref" where
  "of_node i v \<equiv> \<lparr>nr_id = i, nr_version = v\<rparr>"

function set_chain :: "mem_state \<Rightarrow> string \<Rightarrow> int list \<Rightarrow> int \<Rightarrow> int list" where
  "set_chain s i seen v = (if v = 0 \<or> v \<in> set seen then seen
     else set_chain s i (seen @ [v]) (ls_base (set_of_version s (of_node i v))))"
  by pat_completeness auto
termination
proof (relation "measure (\<lambda>(s, i, seen, v). if v = 0 \<or> v \<in> set seen then 0
    else Suc (card (insert v (ls_base ` snd ` set (st_sets s)) - set seen)))")
  fix s i seen and v :: int
  assume v: "\<not> (v = 0 \<or> v \<in> set seen)"
  let ?B = "ls_base ` snd ` set (st_sets s)" and ?w = "ls_base (set_of_version s (of_node i v))"
  have fin: "finite (insert v ?B - set seen)" by simp
  have "?w \<noteq> 0 \<Longrightarrow> ?w \<in> ?B"
    by (auto simp: set_of_version_def zero_set_def split: option.splits) (force dest: map_of_SomeD)
  then have "?w \<noteq> 0 \<Longrightarrow> insert ?w ?B - set (seen @ [v]) \<subset> insert v ?B - set seen" using v by auto
  then have "?w \<noteq> 0 \<Longrightarrow> card (insert ?w ?B - set (seen @ [v])) < card (insert v ?B - set seen)"
    by (rule psubset_card_mono [OF fin])
  then show "((s, i, seen @ [v], ?w), (s, i, seen, v)) \<in> measure (\<lambda>(s, i, seen, v). if v = 0 \<or> v \<in> set seen then 0
    else Suc (card (insert v (ls_base ` snd ` set (st_sets s)) - set seen)))" using v by simp
qed simp

declare set_chain.simps [simp del]

definition held :: "mem_state \<Rightarrow> node_ref \<Rightarrow> link list" where
  "held s r = (let chain = set_chain s (nr_id r) [] (ls_of (set_of_version s r));
       dropped = map dp_removes (filter (\<lambda>d. nr_id (dp_from d) = nr_id r \<and> nr_version (dp_from d) \<in> set chain) (st_drops s))
     in stable_sort (\<lambda>a b. k_id a < k_id b) (map (\<lambda>l. l\<lparr>k_from := r\<rparr>)
          (filter (\<lambda>l. nr_id (k_from l) = nr_id r \<and> nr_version (k_from l) \<in> set chain \<and> k_id l \<notin> set dropped) (st_links s))))"

definition link_set_of :: "mem_state \<Rightarrow> node_ref \<Rightarrow> store_error + link_set" where
  "link_set_of s r = (if nr_version r < 1 \<or> int (length (versions_of s (nr_id r))) < nr_version r then Inl NotFound
     else Inr (set_of_version s r))"

subsection \<open>Comparing links\<close>

definition link_ident :: "link \<Rightarrow> string \<times> string \<times> json option" where
  "link_ident l = (k_type l, link_points l, if pmap (k_props l) = [] then None else Some (json_of (pany (k_props l))))"

type_synonym unmatched = "(string \<times> string \<times> json option, link list) gomap"

definition left_of :: "unmatched \<Rightarrow> link \<Rightarrow> link list" where
  "left_of m l = (case map_of m (link_ident l) of Some ls \<Rightarrow> ls | None \<Rightarrow> [])"

definition gather_links :: "link list \<Rightarrow> unmatched" where
  "gather_links hl = foldl (\<lambda>m l. mput (link_ident l) (left_of m l @ [l]) m) [] hl"

fun match_adds :: "unmatched \<Rightarrow> link list \<Rightarrow> link list \<times> unmatched" where
  "match_adds m [] = ([], m)"
| "match_adds m (l # ls) = (case left_of m l of x # xs \<Rightarrow> match_adds (mput (link_ident l) xs m) ls
     | [] \<Rightarrow> apfst (Cons l) (match_adds m ls))"

fun match_drops :: "unmatched \<Rightarrow> link list \<Rightarrow> link list" where
  "match_drops m [] = []"
| "match_drops m (l # ls) = (case left_of m l of
       x # xs \<Rightarrow> if k_id x = k_id l then l # match_drops (mput (link_ident l) xs m) ls else match_drops m ls
     | [] \<Rightarrow> match_drops m ls)"

definition diff_held :: "link list \<Rightarrow> link list \<Rightarrow> link list \<times> link list" where
  "diff_held hl want = (let (adds, m) = match_adds (gather_links hl) want in (adds, match_drops m hl))"

subsection \<open>How a version to write holds its links\<close>

record link_plan =
  lp_set :: link_set
  lp_adds :: "link list"
  lp_drops :: "link list"

definition max_link_depth :: int where
  "max_link_depth = 16"

partial_function (option) base_walk :: "mem_state \<Rightarrow> string \<Rightarrow> int \<Rightarrow> link_set \<Rightarrow> (store_error + link_set) option" where
  "base_walk s i want x = (if want < ls_seq x \<and> ls_base x \<noteq> 0
     then case link_set_of s (of_node i (ls_base x)) of Inl e \<Rightarrow> Some (Inl e) | Inr y \<Rightarrow> base_walk s i want y
     else Some (Inr x))"

text \<open>The set the set of an order is a delta over, and whether it is one; None when the walk of the chain does not end.\<close>

definition base_set :: "mem_state \<Rightarrow> node_ref \<Rightarrow> link_set \<Rightarrow> int \<Rightarrow> (store_error + link_set \<times> bool) option" where
  "base_set s prev x seq = (let want = seq AND (seq - 1) in
     if want = 0 then Some (Inr (zero_set, False))
     else case (if ls_of x \<noteq> nr_version prev then link_set_of s (of_node (nr_id prev) (ls_of x)) else Inr x) of
         Inl e \<Rightarrow> Some (Inl e)
       | Inr y \<Rightarrow> map_option (map_sum id (\<lambda>z. (z, ls_seq z = want \<and> ls_depth z < max_link_depth))) (base_walk s (nr_id prev) want y))"

text \<open>The versions like the new one: the first is what its set follows, one that holds the same links shares its set.\<close>

fun like_loop :: "mem_state \<Rightarrow> node \<Rightarrow> link list \<Rightarrow> node_ref \<Rightarrow> node_ref list \<Rightarrow> store_error + node_ref \<times> link_plan option" where
  "like_loop s n links prev [] = Inr (prev, None)"
| "like_loop s n links prev (r # rs) =
    (if nr_id r \<noteq> n_id n \<or> nr_version r < 1 \<or> n_version n \<le> nr_version r then like_loop s n links prev rs
     else let prev' = (if nr_id prev = [] then r else prev) in
       if diff_held (held s r) links = ([], []) then
         (case link_set_of s r of Inl e \<Rightarrow> Inl e
          | Inr x \<Rightarrow> Inr (prev', Some \<lparr>lp_set = \<lparr>ls_of = ls_of x, ls_base = 0, ls_depth = ls_depth x, ls_seq = ls_seq x\<rparr>, lp_adds = [], lp_drops = []\<rparr>))
       else like_loop s n links prev' rs)"

definition whole_plan :: "int \<Rightarrow> link list \<Rightarrow> link_plan" where
  "whole_plan seq links = \<lparr>lp_set = \<lparr>ls_of = 0, ls_base = 0, ls_depth = 0, ls_seq = seq\<rparr>, lp_adds = links, lp_drops = []\<rparr>"

text \<open>The new set of a version: a delta over the base of its order when it has fewer rows, else its links whole.\<close>

definition plan_set :: "mem_state \<Rightarrow> node \<Rightarrow> link list \<Rightarrow> node_ref \<Rightarrow> (store_error + link_plan) option" where
  "plan_set s n links prev =
    (if nr_id prev = [] then Some (Inr (whole_plan 1 links))
     else case link_set_of s prev of Inl e \<Rightarrow> Some (Inl e)
     | Inr x \<Rightarrow> let seq = ls_seq x + 1 in
        (case base_set s prev x seq of None \<Rightarrow> None | Some (Inl e) \<Rightarrow> Some (Inl e)
         | Some (Inr (b, ok)) \<Rightarrow>
            if ok \<and> links \<noteq> [] then
              let (a, d) = diff_held (held s (of_node (n_id n) (ls_of b))) links in
              if length a + length d < length links
              then Some (Inr \<lparr>lp_set = \<lparr>ls_of = 0, ls_base = ls_of b, ls_depth = ls_depth b + 1, ls_seq = seq\<rparr>, lp_adds = a, lp_drops = d\<rparr>)
              else Some (Inr (whole_plan seq links))
            else Some (Inr (whole_plan seq links))))"

definition plan_links :: "mem_state \<Rightarrow> node \<Rightarrow> link list \<Rightarrow> node_ref list \<Rightarrow> (store_error + link_plan) option" where
  "plan_links s n links like = (case like_loop s n links zero_ref like of
     Inl e \<Rightarrow> Some (Inl e)
   | Inr (_, Some p) \<Rightarrow> Some (Inr p)
   | Inr (prev, None) \<Rightarrow>
      plan_set s n links (if nr_id prev = [] \<and> 1 < n_version n then of_node (n_id n) (n_version n - 1) else prev))"

definition stamped :: "link list \<Rightarrow> node_ref \<Rightarrow> string \<Rightarrow> link list" where
  "stamped links frm change = map (\<lambda>l. l\<lparr>k_from := frm, k_change := change\<rparr>) links"

primrec write_drops :: "node \<Rightarrow> (nat \<Rightarrow> string) \<Rightarrow> nat \<Rightarrow> link list \<Rightarrow> mem_state \<Rightarrow> mem_state" where
  "write_drops n new_id k [] s = s"
| "write_drops n new_id k (l # ls) s = write_drops n new_id (Suc k) ls (snd (drop_link (node_ref_of n) (new_id k) (l\<lparr>k_change := n_change n\<rparr>) s))"

definition write_links :: "(nat \<Rightarrow> string) \<Rightarrow> node \<Rightarrow> link_plan \<Rightarrow> mem_state \<Rightarrow> mem_state" where
  "write_links new_id n p s = (let s1 = (if lp_adds p = [] then s else snd (put_links (stamped (lp_adds p) (node_ref_of n) (n_change n)) s))
     in write_drops n new_id 0 (lp_drops p) s1)"

definition put_version :: "(nat \<Rightarrow> string) \<Rightarrow> node \<Rightarrow> link list \<Rightarrow> node_ref list \<Rightarrow> mem_state \<Rightarrow> ((store_error + unit) \<times> mem_state) option" where
  "put_version new_id n links like s = (case plan_links s n links like of
     None \<Rightarrow> None
   | Some (Inl e) \<Rightarrow> Some (Inl e, s)
   | Some (Inr p) \<Rightarrow> (case put_node n (lp_set p) s of (Inl e, s') \<Rightarrow> Some (Inl e, s')
       | (Inr _, s') \<Rightarrow> Some (Inr (), write_links new_id n p s')))"

subsection \<open>The comparison is of multisets\<close>

definition queue :: "unmatched \<Rightarrow> string \<times> string \<times> json option \<Rightarrow> link list" where
  "queue m k = (case map_of m k of Some ls \<Rightarrow> ls | None \<Rightarrow> [])"

lemma left_of_queue: "left_of m l = queue m (link_ident l)"
  by (simp add: left_of_def queue_def)

lemma queue_mput [simp]: "queue (mput k xs m) j = (if j = k then xs else queue m j)"
  by (simp add: queue_def)

lemma queue_gather: "queue (gather_links hl) k = filter (\<lambda>l. link_ident l = k) hl"
proof -
  have "queue (foldl (\<lambda>m l. mput (link_ident l) (left_of m l @ [l]) m) m hl) k = queue m k @ filter (\<lambda>l. link_ident l = k) hl" for m
    by (induction hl arbitrary: m) (auto simp: left_of_queue)
  from this [of "[]"] show ?thesis by (simp add: gather_links_def queue_def)
qed

lemma match_adds_spec:
  "match_adds m want = (a, m') \<Longrightarrow>
     queue m' k = drop (count (mset (map link_ident want)) k) (queue m k)
     \<and> count (mset (map link_ident a)) k = count (mset (map link_ident want)) k - length (queue m k)"
proof (induction want arbitrary: m a)
  case (Cons l ls)
  show ?case
  proof (cases "left_of m l")
    case Nil
    then obtain a' where "match_adds m ls = (a', m')" "a = l # a'" using Cons.prems by (auto split: prod.splits simp: apfst_def map_prod_def)
    then show ?thesis using Cons.IH [of m a'] Nil by (auto simp: left_of_queue)
  next
    case (Cons x xs)
    then have "match_adds (mput (link_ident l) xs m) ls = (a, m')" using Cons.prems by simp
    from Cons.IH [OF this] Cons show ?thesis by (auto simp: left_of_queue)
  qed
qed simp

lemma match_adds_sub: "match_adds m want = (a, m') \<Longrightarrow> set a \<subseteq> set want \<and> (distinct (map k_id want) \<longrightarrow> distinct (map k_id a)) \<and> length a \<le> length want"
proof (induction want arbitrary: m a)
  case (Cons l ls)
  show ?case
  proof (cases "left_of m l")
    case Nil
    then obtain a' where "match_adds m ls = (a', m')" "a = l # a'" using Cons.prems by (auto split: prod.splits simp: apfst_def map_prod_def)
    then show ?thesis using Cons.IH [of m a'] by auto
  next
    case (Cons x xs)
    then have "match_adds (mput (link_ident l) xs m) ls = (a, m')" using Cons.prems by simp
    from Cons.IH [OF this] show ?thesis by auto
  qed
qed simp

lemma match_drops_spec:
  assumes "distinct (map k_id hl)" and "\<forall>k. \<exists>c. queue m k = drop c (filter (\<lambda>l. link_ident l = k) hl)"
  shows "match_drops m hl = filter (\<lambda>l. l \<in> set (queue m (link_ident l))) hl"
  using assms
proof (induction hl arbitrary: m)
  case (Cons l ls)
  let ?k = "link_ident l"
  have new: "k_id l \<notin> k_id ` set ls" "l \<notin> set ls" using Cons.prems(1) by auto
  obtain c where c: "queue m ?k = drop c (l # filter (\<lambda>x. link_ident x = ?k) ls)" using Cons.prems(2) [rule_format, of ?k] by auto
  have other: "\<exists>c. queue m k = drop c (filter (\<lambda>x. link_ident x = k) ls)" if "k \<noteq> ?k" for k
    using Cons.prems(2) [rule_format, of k] that by simp
  show ?case
  proof (cases c)
    case 0
    let ?m = "mput ?k (filter (\<lambda>x. link_ident x = ?k) ls) m"
    have "\<forall>k. \<exists>c. queue ?m k = drop c (filter (\<lambda>x. link_ident x = k) ls)" using other by (auto intro: exI [of _ 0])
    then have i: "match_drops ?m ls = filter (\<lambda>x. x \<in> set (queue ?m (link_ident x))) ls" using Cons by simp
    have "match_drops m (l # ls) = l # match_drops ?m ls" using c 0 by (simp add: left_of_queue)
    moreover have "filter (\<lambda>x. x \<in> set (queue ?m (link_ident x))) ls = filter (\<lambda>x. x \<in> set (queue m (link_ident x))) ls"
      using c 0 new by (intro filter_cong) auto
    moreover have "l \<in> set (queue m ?k)" using c 0 by simp
    ultimately show ?thesis using i by simp
  next
    case (Suc c')
    then have q: "queue m ?k = drop c' (filter (\<lambda>x. link_ident x = ?k) ls)" using c by simp
    then have sub: "set (queue m ?k) \<subseteq> set ls" by (auto dest: in_set_dropD)
    have "match_drops m (l # ls) = match_drops m ls"
      using sub new by (auto simp: left_of_queue split: list.splits) (metis image_eqI)
    moreover have "\<forall>k. \<exists>c. queue m k = drop c (filter (\<lambda>x. link_ident x = k) ls)" using q other by metis
    ultimately show ?thesis using Cons sub new by auto
  qed
qed simp

lemma count_idents: "count (mset (map f xs)) k = length (filter (\<lambda>x. f x = k) xs)"
  by (induction xs) auto

lemma diff_links_mset:
  assumes d: "distinct (map k_id hl)" and df: "diff_held hl want = (a, ds)"
  shows "mset (map link_ident want) = mset (map link_ident (filter (\<lambda>l. k_id l \<notin> k_id ` set ds) hl)) + mset (map link_ident a)"
    and "set a \<subseteq> set want" and "distinct (map k_id want) \<Longrightarrow> distinct (map k_id a)" and "set ds \<subseteq> set hl"
proof -
  obtain m' where m: "match_adds (gather_links hl) want = (a, m')" and ds: "ds = match_drops m' hl"
    using df by (auto simp: diff_held_def split: prod.splits)
  note sp = match_adds_spec [OF m] and sub = match_adds_sub [OF m]
  let ?c = "\<lambda>k. count (mset (map link_ident want)) k"
  have q: "queue m' k = drop (?c k) (filter (\<lambda>l. link_ident l = k) hl)" for k using sp by (simp add: queue_gather)
  have ds': "ds = filter (\<lambda>l. l \<in> set (queue m' (link_ident l))) hl"
    unfolding ds by (rule match_drops_spec [OF d]) (use q in blast)
  have inj: "l \<in> set hl \<Longrightarrow> x \<in> set hl \<Longrightarrow> k_id l = k_id x \<Longrightarrow> l = x" for l x using d by (auto simp: distinct_map inj_on_def)
  have kept: "filter (\<lambda>l. k_id l \<notin> k_id ` set ds) hl = filter (\<lambda>l. l \<notin> set (queue m' (link_ident l))) hl"
    using inj by (intro filter_cong) (auto simp: ds')
  have "count (mset (map link_ident (filter (\<lambda>l. k_id l \<notin> k_id ` set ds) hl))) k = min (?c k) (length (filter (\<lambda>l. link_ident l = k) hl))" for k
  proof -
    let ?f = "filter (\<lambda>l. link_ident l = k) hl"
    have df: "distinct ?f" using d by (auto simp: distinct_map)
    have "filter (\<lambda>l. link_ident l = k) (filter (\<lambda>l. l \<notin> set (queue m' (link_ident l))) hl)
        = filter (\<lambda>l. l \<notin> set (drop (?c k) ?f)) ?f"
      unfolding filter_filter by (rule filter_cong) (auto simp: q)
    then have "count (mset (map link_ident (filter (\<lambda>l. k_id l \<notin> k_id ` set ds) hl))) k = length (filter (\<lambda>l. l \<notin> set (drop (?c k) ?f)) ?f)"
      unfolding kept count_idents by (rule arg_cong)
    also have "filter (\<lambda>l. l \<notin> set (drop (?c k) ?f)) ?f = take (?c k) ?f"
    proof -
      have "distinct (take (?c k) ?f @ drop (?c k) ?f)" using df by simp
      then have "filter (\<lambda>l. l \<notin> set (drop (?c k) ?f)) (take (?c k) ?f @ drop (?c k) ?f) = take (?c k) ?f"
        unfolding filter_append by (auto simp: filter_id_conv filter_empty_conv simp del: append_take_drop_id)
      then show ?thesis by simp
    qed
    finally show ?thesis by (simp add: min.commute)
  qed
  then show "mset (map link_ident want) = mset (map link_ident (filter (\<lambda>l. k_id l \<notin> k_id ` set ds) hl)) + mset (map link_ident a)"
    using sp by (intro multiset_eqI) (simp add: queue_gather)
  show "set a \<subseteq> set want" "distinct (map k_id want) \<Longrightarrow> distinct (map k_id a)" using sub by auto
  show "set ds \<subseteq> set hl" by (auto simp: ds')
qed

subsection \<open>The chain of a set\<close>

abbreviation set_at :: "mem_state \<Rightarrow> string \<Rightarrow> int \<Rightarrow> link_set" where
  "set_at s i v \<equiv> set_of_version s (of_node i v)"

definition stored :: "mem_state \<Rightarrow> string \<Rightarrow> int \<Rightarrow> bool" where
  "stored s i v \<longleftrightarrow> 1 \<le> v \<and> v \<le> int (length (versions_of s i))"

definition owner :: "mem_state \<Rightarrow> string \<Rightarrow> int \<Rightarrow> bool" where
  "owner s i v \<longleftrightarrow> stored s i v \<and> ls_of (set_at s i v) = v"

text \<open>
  A version owns its set, whole or a delta over the set of an earlier version that owns its own, or shares the set of
  such a version; a set is at most max\_link\_depth deltas deep.
\<close>

definition linked :: "mem_state \<Rightarrow> string \<Rightarrow> int \<Rightarrow> bool" where
  "linked s i v \<longleftrightarrow> (let x = set_at s i v in
     if ls_of x = v then (ls_base x = 0 \<and> ls_depth x = 0) \<or> (ls_base x < v \<and> owner s i (ls_base x)
        \<and> ls_depth x = ls_depth (set_at s i (ls_base x)) + 1 \<and> ls_depth x \<le> max_link_depth)
     else ls_of x < v \<and> owner s i (ls_of x) \<and> ls_depth x = ls_depth (set_at s i (ls_of x)))"

definition links_ok :: "mem_state \<Rightarrow> bool" where
  "links_ok s \<longleftrightarrow> (\<forall>i v. stored s i v \<longrightarrow> linked s i v)
     \<and> (\<forall>l \<in> set (st_links s). stored s (nr_id (k_from l)) (nr_version (k_from l)))
     \<and> (\<forall>d \<in> set (st_drops s). stored s (nr_id (dp_from d)) (nr_version (dp_from d)))
     \<and> distinct (map k_id (st_links s)) \<and> (\<forall>r \<in> fst ` set (st_sets s). stored s (nr_id r) (nr_version r))"

lemma owner_base: "links_ok s \<Longrightarrow> owner s i v \<Longrightarrow> ls_base (set_at s i v) = 0 \<and> ls_depth (set_at s i v) = 0
    \<or> ls_base (set_at s i v) < v \<and> owner s i (ls_base (set_at s i v))
      \<and> ls_depth (set_at s i v) = ls_depth (set_at s i (ls_base (set_at s i v))) + 1 \<and> ls_depth (set_at s i v) \<le> max_link_depth"
  unfolding links_ok_def owner_def linked_def Let_def by metis

lemma stored_owner: "links_ok s \<Longrightarrow> stored s i v \<Longrightarrow> ls_of (set_at s i v) \<le> v \<and> owner s i (ls_of (set_at s i v))
    \<and> ls_depth (set_at s i v) = ls_depth (set_at s i (ls_of (set_at s i v)))"
proof -
  assume ok: "links_ok s" and st: "stored s i v"
  show ?thesis
  proof (cases "ls_of (set_at s i v) = v")
    case True
    then have "owner s i v" using st unfolding owner_def by blast
    then show ?thesis unfolding True by simp
  next
    case False
    moreover have "linked s i v" using ok st unfolding links_ok_def by blast
    ultimately show ?thesis unfolding linked_def Let_def by auto
  qed
qed

lemma owner_pos: "owner s i v \<Longrightarrow> 1 \<le> v"
  by (simp add: owner_def stored_def)

lemma chain_zero [simp]: "set_chain s i seen 0 = seen"
  by (simp add: set_chain.simps)

lemma chain_next: "v \<noteq> 0 \<Longrightarrow> v \<notin> set seen \<Longrightarrow> set_chain s i seen v = set_chain s i (seen @ [v]) (ls_base (set_at s i v))"
  by (subst set_chain.simps) simp

lemma chain_app:
  assumes ok: "links_ok s"
  shows "v = 0 \<or> owner s i v \<Longrightarrow> \<forall>w \<in> set seen. v < w \<Longrightarrow> set_chain s i seen v = seen @ set_chain s i [] v"
proof (induction "nat v" arbitrary: v seen rule: less_induct)
  case less
  show ?case
  proof (cases "v = 0")
    case False
    let ?b = "ls_base (set_at s i v)"
    have o: "owner s i v" using less.prems False by simp
    then have v: "1 \<le> v" by (rule owner_pos)
    have b: "?b = 0 \<or> owner s i ?b \<and> ?b < v" using owner_base [OF ok o] by auto
    have lt: "nat ?b < nat v" using b v by auto
    have bw: "\<forall>w \<in> set (us @ [v]). ?b < w" if "\<forall>w \<in> set us. v < w" for us using b v that by fastforce
    have "set_chain s i us v = (us @ [v]) @ set_chain s i [] ?b" if "\<forall>w \<in> set us. v < w" for us
    proof -
      have "set_chain s i us v = set_chain s i (us @ [v]) ?b" by (rule chain_next) (use False that in auto)
      also have "\<dots> = (us @ [v]) @ set_chain s i [] ?b" by (rule less.hyps [OF lt]) (use b bw [OF that] in auto)
      finally show ?thesis .
    qed
    from this [OF less.prems(2)] this [of "[]"] show ?thesis by simp
  qed simp
qed

lemma chain_owner: "links_ok s \<Longrightarrow> owner s i v \<Longrightarrow> set_chain s i [] v = v # set_chain s i [] (ls_base (set_at s i v))"
proof -
  assume ok: "links_ok s" and o: "owner s i v"
  let ?b = "ls_base (set_at s i v)"
  have v: "1 \<le> v" using o by (rule owner_pos)
  have b: "?b = 0 \<or> owner s i ?b \<and> ?b < v" using owner_base [OF ok o] by auto
  have "set_chain s i [] v = set_chain s i [v] ?b" using v by (subst chain_next) auto
  also have "\<dots> = [v] @ set_chain s i [] ?b" by (rule chain_app [OF ok]) (use b v in auto)
  finally show ?thesis by simp
qed

lemma chain_facts:
  assumes ok: "links_ok s"
  shows "owner s i v \<Longrightarrow> (\<forall>w \<in> set (set_chain s i [] v). 1 \<le> w \<and> w \<le> v)
     \<and> int (length (set_chain s i [] v)) = ls_depth (set_at s i v) + 1 \<and> ls_depth (set_at s i v) \<le> max_link_depth"
proof (induction "nat v" arbitrary: v rule: less_induct)
  case less
  let ?b = "ls_base (set_at s i v)"
  have v: "1 \<le> v" using less.prems by (rule owner_pos)
  consider "?b = 0" "ls_depth (set_at s i v) = 0"
    | "?b < v" "owner s i ?b" "ls_depth (set_at s i v) = ls_depth (set_at s i ?b) + 1" "ls_depth (set_at s i v) \<le> max_link_depth"
    using owner_base [OF ok less.prems] by blast
  then show ?case
  proof cases
    case 1
    then show ?thesis using v by (simp add: chain_owner [OF ok less.prems] max_link_depth_def)
  next
    case 2
    have "nat ?b < nat v" using 2(1) v by simp
    from less.hyps [OF this 2(2)] show ?thesis using 2 v by (auto simp: chain_owner [OF ok less.prems])
  qed
qed

text \<open>A chain reads the sets of its versions only.\<close>

lemma chain_same:
  assumes ok: "links_ok s" and same: "\<And>w. 1 \<le> w \<Longrightarrow> w \<le> v \<Longrightarrow> set_at s' i w = set_at s i w"
  shows "owner s i v \<Longrightarrow> set_chain s' i [] v = set_chain s i [] v"
proof -
  have "owner s i v \<Longrightarrow> v \<le> u \<Longrightarrow> (\<And>w. 1 \<le> w \<Longrightarrow> w \<le> u \<Longrightarrow> set_at s' i w = set_at s i w) \<Longrightarrow> \<forall>w \<in> set seen. v < w
      \<Longrightarrow> set_chain s' i seen v = set_chain s i seen v" for u v seen
  proof (induction "nat v" arbitrary: v seen rule: less_induct)
    case less
    let ?b = "ls_base (set_at s i v)"
    have v: "1 \<le> v" using less.prems(1) by (rule owner_pos)
    have b: "?b = 0 \<or> owner s i ?b \<and> ?b < v" using owner_base [OF ok less.prems(1)] by auto
    have e: "set_at s' i v = set_at s i v" using less.prems v by simp
    have st: "set_chain s' i seen v = set_chain s' i (seen @ [v]) ?b" "set_chain s i seen v = set_chain s i (seen @ [v]) ?b"
      using v less.prems(4) by (subst chain_next; force simp: e)+
    show ?case
    proof (cases "?b = 0")
      case False
      then have "nat ?b < nat v" "owner s i ?b" "?b \<le> u" "\<forall>w \<in> set (seen @ [v]). ?b < w" using b v less.prems(2,4) by force+
      from less.hyps [OF this(1-3) less.prems(3) this(4)] show ?thesis unfolding st by simp
    qed (simp add: st)
  qed
  from this [of v v "[]"] same show "owner s i v \<Longrightarrow> set_chain s' i [] v = set_chain s i [] v" by auto
qed

subsection \<open>Plans\<close>

definition plan_good :: "mem_state \<Rightarrow> node \<Rightarrow> link list \<Rightarrow> link_plan \<Rightarrow> bool" where
  "plan_good s n links p \<longleftrightarrow>
     (\<exists>v. stored s (n_id n) v \<and> diff_held (held s (of_node (n_id n) v)) links = ([], [])
        \<and> p = \<lparr>lp_set = \<lparr>ls_of = ls_of (set_at s (n_id n) v), ls_base = 0, ls_depth = ls_depth (set_at s (n_id n) v),
              ls_seq = ls_seq (set_at s (n_id n) v)\<rparr>, lp_adds = [], lp_drops = []\<rparr>)
   \<or> (\<exists>q. p = whole_plan q links)
   \<or> (\<exists>b q a d. owner s (n_id n) b \<and> ls_depth (set_at s (n_id n) b) < max_link_depth
        \<and> diff_held (held s (of_node (n_id n) b)) links = (a, d) \<and> length a + length d < length links
        \<and> p = \<lparr>lp_set = \<lparr>ls_of = 0, ls_base = b, ls_depth = ls_depth (set_at s (n_id n) b) + 1, ls_seq = q\<rparr>, lp_adds = a, lp_drops = d\<rparr>)"

lemma link_set_of_stored: "stored s i v \<Longrightarrow> link_set_of s (of_node i v) = Inr (set_at s i v)"
  by (simp add: link_set_of_def stored_def)

lemma base_walk_good:
  assumes ok: "links_ok s"
  shows "owner s i v \<Longrightarrow> \<exists>w. base_walk s i want (set_at s i v) = Some (Inr (set_at s i w)) \<and> owner s i w"
proof (induction "nat v" arbitrary: v rule: less_induct)
  case less
  let ?x = "set_at s i v"
  show ?case
  proof (cases "want < ls_seq ?x \<and> ls_base ?x \<noteq> 0")
    case False
    then have "base_walk s i want ?x = Some (Inr ?x)" by (subst base_walk.simps) auto
    then show ?thesis using less.prems by blast
  next
    case True
    then have b: "owner s i (ls_base ?x)" "ls_base ?x < v" using owner_base [OF ok less.prems] by auto
    have "stored s i (ls_base ?x)" using b(1) by (simp add: owner_def)
    then have "base_walk s i want ?x = base_walk s i want (set_at s i (ls_base ?x))"
      using True by (subst base_walk.simps) (simp add: link_set_of_stored)
    moreover have "nat (ls_base ?x) < nat v" using b owner_pos [OF less.prems] by simp
    ultimately show ?thesis using less.hyps [OF _ b(1)] by simp
  qed
qed

lemma like_good:
  assumes "n_version n = int (length (versions_of s (n_id n))) + 1"
    and "nr_id prev = [] \<or> nr_id prev = n_id n \<and> stored s (n_id n) (nr_version prev)"
  shows "\<exists>prev' p. like_loop s n links prev rs = Inr (prev', p) \<and> (\<forall>x. p = Some x \<longrightarrow> plan_good s n links x)
     \<and> (nr_id prev' = [] \<or> nr_id prev' = n_id n \<and> stored s (n_id n) (nr_version prev'))"
  using assms(2)
proof (induction rs arbitrary: prev)
  case (Cons r rs)
  show ?case
  proof (cases "nr_id r \<noteq> n_id n \<or> nr_version r < 1 \<or> n_version n \<le> nr_version r")
    case True
    then show ?thesis using Cons.IH [OF Cons.prems] by simp
  next
    case False
    then have st: "stored s (n_id n) (nr_version r)" and r: "r = of_node (n_id n) (nr_version r)"
      using assms(1) by (simp_all add: stored_def)
    let ?prev = "if nr_id prev = [] then r else prev"
    have p: "nr_id ?prev = [] \<or> nr_id ?prev = n_id n \<and> stored s (n_id n) (nr_version ?prev)"
      using Cons.prems st False by auto
    show ?thesis
    proof (cases "diff_held (held s r) links = ([], [])")
      case False
      then show ?thesis using Cons.IH [OF p] \<open>\<not> (nr_id r \<noteq> n_id n \<or> nr_version r < 1 \<or> n_version n \<le> nr_version r)\<close> by (simp add: Let_def)
    next
      case True
      let ?x = "set_at s (n_id n) (nr_version r)"
      let ?p = "\<lparr>lp_set = \<lparr>ls_of = ls_of ?x, ls_base = 0, ls_depth = ls_depth ?x, ls_seq = ls_seq ?x\<rparr>, lp_adds = [], lp_drops = []\<rparr>"
      have "link_set_of s r = Inr ?x" using link_set_of_stored [OF st] r by simp
      then have "like_loop s n links prev (r # rs) = Inr (?prev, Some ?p)" using True False by (simp add: Let_def)
      moreover have "plan_good s n links ?p" unfolding plan_good_def using st True r by metis
      ultimately show ?thesis using p by auto
    qed
  qed
qed auto

lemma base_set_good:
  assumes ok: "links_ok s" and st: "stored s i v"
  shows "\<exists>z b. base_set s (of_node i v) (set_at s i v) seq = Some (Inr (z, b))
     \<and> (b \<longrightarrow> owner s i (ls_of z) \<and> z = set_at s i (ls_of z) \<and> ls_depth z < max_link_depth)"
proof (cases "seq AND (seq - 1) = 0")
  case False
  have o: "owner s i (ls_of (set_at s i v))" using stored_owner [OF ok st] by simp
  then have "link_set_of s (of_node i (ls_of (set_at s i v))) = Inr (set_at s i (ls_of (set_at s i v)))"
    by (simp add: owner_def link_set_of_stored)
  then have y: "(if ls_of (set_at s i v) \<noteq> v then link_set_of s (of_node i (ls_of (set_at s i v))) else Inr (set_at s i v))
      = Inr (set_at s i (ls_of (set_at s i v)))" by simp
  obtain w where w: "base_walk s i (seq AND (seq - 1)) (set_at s i (ls_of (set_at s i v))) = Some (Inr (set_at s i w))" "owner s i w"
    using base_walk_good [OF ok o] by blast
  have "ls_of (set_at s i w) = w" using w(2) by (simp add: owner_def)
  then show ?thesis unfolding base_set_def Let_def node_ref.select_convs y using False w by simp
qed (auto simp: base_set_def intro: exI [of _ False])

lemma plan_links_good:
  assumes ok: "links_ok s" and ver: "n_version n = int (length (versions_of s (n_id n))) + 1"
  shows "\<exists>p. plan_links s n links like = Some (Inr p) \<and> plan_good s n links p"
proof -
  obtain prev0 p0 where l: "like_loop s n links zero_ref like = Inr (prev0, p0)" "\<forall>x. p0 = Some x \<longrightarrow> plan_good s n links x"
    "nr_id prev0 = [] \<or> nr_id prev0 = n_id n \<and> stored s (n_id n) (nr_version prev0)"
    using like_good [OF ver, of zero_ref links like] by (auto simp: zero_ref_def)
  have whole: "plan_good s n links (whole_plan q links)" for q unfolding plan_good_def by blast
  show ?thesis
  proof (cases p0)
    case (Some x)
    then show ?thesis using l by (simp add: plan_links_def)
  next
    case None
    define prev where "prev = (if nr_id prev0 = [] \<and> 1 < n_version n then of_node (n_id n) (n_version n - 1) else prev0)"
    have pl: "plan_links s n links like = plan_set s n links prev" using l(1) None by (simp add: plan_links_def prev_def)
    show ?thesis
    proof (cases "nr_id prev = []")
      case True
      then show ?thesis using whole by (simp add: pl plan_set_def)
    next
      case False
      have st: "stored s (n_id n) (nr_version prev)" and pr: "prev = of_node (n_id n) (nr_version prev)"
        using False l(3) ver by (auto simp: prev_def stored_def Suc_le_eq split: if_splits)
      let ?x = "set_at s (n_id n) (nr_version prev)" and ?q = "ls_seq (set_at s (n_id n) (nr_version prev)) + 1"
      obtain z b where zb: "base_set s prev ?x ?q = Some (Inr (z, b))"
        "b \<longrightarrow> owner s (n_id n) (ls_of z) \<and> z = set_at s (n_id n) (ls_of z) \<and> ls_depth z < max_link_depth"
        using base_set_good [OF ok st, of ?q] pr by auto
      have lx: "link_set_of s prev = Inr ?x" using link_set_of_stored [OF st] pr by simp
      obtain a d where ad: "diff_held (held s (of_node (n_id n) (ls_of z))) links = (a, d)" by fastforce
      show ?thesis
      proof (cases "b \<and> links \<noteq> [] \<and> length a + length d < length links")
        case True
        let ?p = "\<lparr>lp_set = \<lparr>ls_of = 0, ls_base = ls_of z, ls_depth = ls_depth z + 1, ls_seq = ?q\<rparr>, lp_adds = a, lp_drops = d\<rparr>"
        have z: "owner s (n_id n) (ls_of z)" "z = set_at s (n_id n) (ls_of z)" "ls_depth z < max_link_depth" using True zb(2) by auto
        have "plan_good s n links ?p" unfolding plan_good_def using z ad True by metis
        then show ?thesis using True False lx zb ad by (simp add: pl plan_set_def Let_def)
      next
        case nd: False
        then show ?thesis using False lx zb ad whole by (auto simp: pl plan_set_def Let_def)
      qed
    qed
  qed
qed

subsection \<open>Writing a version and its links\<close>

definition rows :: "mem_state \<Rightarrow> string \<Rightarrow> int set \<Rightarrow> link list" where
  "rows s i C = filter (\<lambda>l. nr_id (k_from l) = i \<and> nr_version (k_from l) \<in> C
     \<and> k_id l \<notin> dp_removes ` {d \<in> set (st_drops s). nr_id (dp_from d) = i \<and> nr_version (dp_from d) \<in> C}) (st_links s)"

lemma held_rows: "held s (of_node i v) = stable_sort (\<lambda>a b. k_id a < k_id b)
    (map (\<lambda>l. l\<lparr>k_from := of_node i v\<rparr>) (rows s i (set (set_chain s i [] (ls_of (set_at s i v))))))"
proof -
  have "set (map dp_removes (filter (\<lambda>d. nr_id (dp_from d) = i \<and> nr_version (dp_from d) \<in> C) (st_drops s)))
      = dp_removes ` {d \<in> set (st_drops s). nr_id (dp_from d) = i \<and> nr_version (dp_from d) \<in> C}" for C by auto
  then show ?thesis unfolding held_def rows_def Let_def node_ref.select_convs by (simp only:)
qed

lemma ident_stamp [simp]: "link_ident (l\<lparr>k_from := r\<rparr>) = link_ident l" "link_ident (l\<lparr>k_change := c\<rparr>) = link_ident l"
  by (simp_all add: link_ident_def link_points_def link_external_def)

lemma mset_ident_stamp: "mset (map link_ident (map (\<lambda>l. l\<lparr>k_from := r\<rparr>) ls)) = mset (map link_ident ls)"
  by (simp add: comp_def)

lemma held_idents: "mset (map link_ident (held s (of_node i v)))
    = mset (map link_ident (rows s i (set (set_chain s i [] (ls_of (set_at s i v))))))"
  unfolding held_rows by (metis mset_ident_stamp mset_map mset_stable_sort)

lemma held_filter_idents:
  "mset (map link_ident (filter (\<lambda>l. k_id l \<notin> X) (held s (of_node i v))))
    = mset (map link_ident (filter (\<lambda>l. k_id l \<notin> X) (rows s i (set (set_chain s i [] (ls_of (set_at s i v)))))))"
proof -
  have "mset (filter (\<lambda>l. k_id l \<notin> X) (held s (of_node i v)))
      = mset (filter (\<lambda>l. k_id l \<notin> X) (map (\<lambda>l. l\<lparr>k_from := of_node i v\<rparr>) (rows s i (set (set_chain s i [] (ls_of (set_at s i v)))))))"
    unfolding held_rows by (metis mset_filter mset_stable_sort)
  then show ?thesis by (simp add: filter_map comp_def image_mset.compositionality flip: mset_filter)
qed

lemma held_ids: "mset (map k_id (held s (of_node i v))) = mset (map k_id (rows s i (set (set_chain s i [] (ls_of (set_at s i v))))))"
proof -
  have "mset (map k_id (map (\<lambda>l. l\<lparr>k_from := of_node i v\<rparr>) ls)) = mset (map k_id ls)" for ls by (simp add: comp_def)
  then show ?thesis unfolding held_rows by (metis mset_map mset_stable_sort)
qed

lemma held_distinct: "links_ok s \<Longrightarrow> distinct (map k_id (held s (of_node i v)))"
proof -
  assume ok: "links_ok s"
  have "distinct (map k_id (rows s i C))" for C using ok by (simp add: links_ok_def rows_def distinct_map_filter)
  then show ?thesis using held_ids [of s i v] by (metis mset_eq_imp_distinct_iff)
qed

lemma held_ids_sub: "k_id ` set (held s (of_node i v)) \<subseteq> k_id ` set (st_links s)"
proof -
  have "k_id ` set (held s (of_node i v)) = set_mset (mset (map k_id (held s (of_node i v))))" by simp
  also have "\<dots> = k_id ` set (rows s i (set (set_chain s i [] (ls_of (set_at s i v)))))" unfolding held_ids by simp
  finally show ?thesis by (auto simp: rows_def)
qed

lemma write_drops_fields:
  "\<exists>ds. st_drops (write_drops n f k dl s) = st_drops s @ ds \<and> map dp_removes ds = map k_id dl \<and> (\<forall>d \<in> set ds. dp_from d = node_ref_of n)
     \<and> st_links (write_drops n f k dl s) = st_links s \<and> st_sets (write_drops n f k dl s) = st_sets s
     \<and> st_versions (write_drops n f k dl s) = st_versions s"
proof (induction dl arbitrary: k s)
  case (Cons l dl)
  let ?s = "snd (drop_link (node_ref_of n) (f k) (l\<lparr>k_change := n_change n\<rparr>) s)"
  let ?d = "\<lparr>dp_row = f k, dp_from = node_ref_of n, dp_removes = k_id l, dp_to = k_to l, dp_change = n_change n\<rparr>"
  have s: "st_drops ?s = st_drops s @ [?d]" "st_links ?s = st_links s" "st_sets ?s = st_sets s" "st_versions ?s = st_versions s"
    by (simp_all add: drop_link_def)
  obtain ds where ds: "st_drops (write_drops n f (Suc k) dl ?s) = st_drops ?s @ ds" "map dp_removes ds = map k_id dl"
    "\<forall>d \<in> set ds. dp_from d = node_ref_of n" "st_links (write_drops n f (Suc k) dl ?s) = st_links ?s"
    "st_sets (write_drops n f (Suc k) dl ?s) = st_sets ?s" "st_versions (write_drops n f (Suc k) dl ?s) = st_versions ?s"
    using Cons.IH [of "Suc k" ?s] by blast
  show ?case by (rule exI [of _ "?d # ds"]) (use ds s in simp)
qed simp

lemma write_links_fields:
  "\<exists>ds. st_drops (write_links f n p s) = st_drops s @ ds \<and> map dp_removes ds = map k_id (lp_drops p)
     \<and> (\<forall>d \<in> set ds. dp_from d = node_ref_of n)
     \<and> st_links (write_links f n p s) = st_links s @ stamped (lp_adds p) (node_ref_of n) (n_change n)
     \<and> st_sets (write_links f n p s) = st_sets s \<and> st_versions (write_links f n p s) = st_versions s"
proof -
  let ?s = "if lp_adds p = [] then s else snd (put_links (stamped (lp_adds p) (node_ref_of n) (n_change n)) s)"
  have s: "st_drops ?s = st_drops s" "st_links ?s = st_links s @ stamped (lp_adds p) (node_ref_of n) (n_change n)"
    "st_sets ?s = st_sets s" "st_versions ?s = st_versions s" by (simp_all add: put_links_def stamped_def)
  show ?thesis using write_drops_fields [of n f 0 "lp_drops p" ?s] unfolding write_links_def Let_def s .
qed

lemma put_node_fields:
  assumes "put_node n x s = (Inr (), s')"
  shows "n_version n = int (length (versions_of s (n_id n))) + 1" "st_links s' = st_links s" "st_drops s' = st_drops s"
    "\<exists>n'. versions_of s' i = (if i = n_id n then versions_of s i @ [n'] else versions_of s i)"
    "set_of_version s' r = (if r = node_ref_of n \<and> x \<noteq> zero_set then (if ls_of x = 0 then x\<lparr>ls_of := n_version n\<rparr> else x) else set_of_version s r)"
    "fst ` set (st_sets s') \<subseteq> insert (node_ref_of n) (fst ` set (st_sets s))"
proof -
  show "n_version n = int (length (versions_of s (n_id n))) + 1" using assms by (auto simp: put_node_def Let_def split: if_splits)
  show "st_links s' = st_links s" "st_drops s' = st_drops s" using assms by (auto simp: put_node_def Let_def split: if_splits)
  define n' where "n' = (if n_version n > 1 then n\<lparr>n_project := n_project (versions_of s (n_id n) ! 0), n_creator := n_creator (versions_of s (n_id n) ! 0)\<rparr> else n)"
  have v: "st_versions s' = mput (n_id n) (versions_of s (n_id n) @ [n']) (st_versions s)"
    and x: "st_sets s' = (if x \<noteq> zero_set then mput (node_ref_of n') (if ls_of x = 0 then x\<lparr>ls_of := n_version n'\<rparr> else x) (st_sets s) else st_sets s)"
    using assms by (auto simp: put_node_def Let_def n'_def split: if_splits)
  show "\<exists>n'. versions_of s' i = (if i = n_id n then versions_of s i @ [n'] else versions_of s i)"
    by (auto simp: versions_of_def v)
  have "node_ref_of n' = node_ref_of n" "n_version n' = n_version n" by (simp_all add: n'_def node_ref_of_def)
  then show "set_of_version s' r = (if r = node_ref_of n \<and> x \<noteq> zero_set then (if ls_of x = 0 then x\<lparr>ls_of := n_version n\<rparr> else x) else set_of_version s r)"
    by (auto simp: set_of_version_def x)
  show "fst ` set (st_sets s') \<subseteq> insert (node_ref_of n) (fst ` set (st_sets s))"
    by (simp add: x keys_mput \<open>node_ref_of n' = node_ref_of n\<close> subset_insertI)
qed

text \<open>A store with one more version, its set, its rows and its drops.\<close>

definition set_extends :: "mem_state \<Rightarrow> mem_state \<Rightarrow> node \<Rightarrow> link_set \<Rightarrow> link list \<Rightarrow> mem_drop list \<Rightarrow> bool" where
  "set_extends s t n x adds ds \<longleftrightarrow> 1 \<le> n_version n \<and> (\<forall>v. stored s (n_id n) v \<longrightarrow> v < n_version n)
     \<and> (\<forall>i v. stored t i v \<longleftrightarrow> stored s i v \<or> i = n_id n \<and> v = n_version n)
     \<and> (\<forall>i v. set_at t i v = (if i = n_id n \<and> v = n_version n then x else set_at s i v))
     \<and> (\<forall>r \<in> fst ` set (st_sets t). stored t (nr_id r) (nr_version r))
     \<and> st_links t = st_links s @ stamped adds (node_ref_of n) (n_change n)
     \<and> st_drops t = st_drops s @ ds \<and> (\<forall>d \<in> set ds. dp_from d = node_ref_of n)"

lemma ext_set: "set_extends s t n x adds ds \<Longrightarrow> stored s i v \<Longrightarrow> w \<le> v \<Longrightarrow> set_at t i w = set_at s i w"
  unfolding set_extends_def by (metis leD order_trans)

lemma ext_owner: "set_extends s t n x adds ds \<Longrightarrow> owner s i v \<Longrightarrow> owner t i v"
proof -
  assume e: "set_extends s t n x adds ds" and o: "owner s i v"
  then have st: "stored s i v" by (simp add: owner_def)
  have "stored t i v" using e st unfolding set_extends_def by blast
  then show ?thesis using o ext_set [OF e st order.refl] unfolding owner_def by simp
qed

lemma ext_chain:
  assumes ok: "links_ok s" and e: "set_extends s t n x adds ds" and o: "owner s i v"
  shows "set_chain t i [] v = set_chain s i [] v"
  by (rule chain_same [OF ok _ o]) (use ext_set [OF e] o in \<open>auto simp: owner_def\<close>)

lemma ext_rows:
  assumes e: "set_extends s t n x adds ds" and new: "i = n_id n \<Longrightarrow> n_version n \<notin> C"
  shows "rows t i C = rows s i C"
proof -
  have d: "{d \<in> set (st_drops t). nr_id (dp_from d) = i \<and> nr_version (dp_from d) \<in> C} = {d \<in> set (st_drops s). nr_id (dp_from d) = i \<and> nr_version (dp_from d) \<in> C}"
    using e new by (auto simp: set_extends_def node_ref_of_def)
  have "filter (\<lambda>l. nr_id (k_from l) = i \<and> nr_version (k_from l) \<in> C \<and> P l) (stamped adds (node_ref_of n) (n_change n)) = []" for P
    using new by (auto simp: stamped_def filter_empty_conv node_ref_of_def)
  then show ?thesis using e unfolding rows_def d by (simp add: set_extends_def)
qed

lemma ext_held:
  assumes ok: "links_ok s" and e: "set_extends s t n x adds ds" and st: "stored s i v"
  shows "held t (of_node i v) = held s (of_node i v)"
proof -
  have o: "owner s i (ls_of (set_at s i v))" "ls_of (set_at s i v) \<le> v" using stored_owner [OF ok st] by auto
  have c: "set_chain t i [] (ls_of (set_at s i v)) = set_chain s i [] (ls_of (set_at s i v))" by (rule ext_chain [OF ok e o(1)])
  have "rows t i (set (set_chain s i [] (ls_of (set_at s i v)))) = rows s i (set (set_chain s i [] (ls_of (set_at s i v))))"
    by (rule ext_rows [OF e]) (use chain_facts [OF ok o(1)] o(2) st e in \<open>fastforce simp: set_extends_def\<close>)
  then show ?thesis unfolding held_rows ext_set [OF e st order.refl] c by simp
qed

lemma ext_linked:
  assumes e: "set_extends s t n x adds ds" and st: "stored s i v" and l: "linked s i v"
  shows "linked t i v"
proof -
  have v: "set_at t i v = set_at s i v" by (rule ext_set [OF e st order.refl])
  have w: "owner s i w \<Longrightarrow> w < v \<Longrightarrow> owner t i w \<and> set_at t i w = set_at s i w" for w
    using ext_owner [OF e] ext_set [OF e st] by simp
  show ?thesis using l w unfolding linked_def v Let_def by (auto split: if_splits)
qed

lemma ext_ok:
  assumes ok: "links_ok s" and e: "set_extends s t n x adds ds" and new: "linked t (n_id n) (n_version n)"
    and "distinct (map k_id adds)" and "k_id ` set adds \<inter> k_id ` set (st_links s) = {}"
  shows "links_ok t"
proof -
  have "stored t i v \<Longrightarrow> linked t i v" for i v
    using e ok new ext_linked [OF e] by (auto simp: set_extends_def links_ok_def)
  moreover have "stored t (nr_id (k_from l)) (nr_version (k_from l))" if "l \<in> set (st_links t)" for l
    using that e ok by (auto simp: set_extends_def links_ok_def stamped_def node_ref_of_def)
  moreover have "stored t (nr_id (dp_from d)) (nr_version (dp_from d))" if "d \<in> set (st_drops t)" for d
    using that e ok by (auto simp: set_extends_def links_ok_def node_ref_of_def)
  moreover have "distinct (map k_id (st_links t))"
    using e ok assms(4,5) by (auto simp: set_extends_def links_ok_def stamped_def comp_def)
  moreover have "\<forall>r \<in> fst ` set (st_sets t). stored t (nr_id r) (nr_version r)" using e unfolding set_extends_def by blast
  ultimately show ?thesis unfolding links_ok_def by blast
qed

text \<open>The plan of a version, written, makes it hold the links asked.\<close>

lemma ext_plan:
  assumes ok: "links_ok s" and good: "plan_good s n links p"
    and e: "set_extends s t n \<lparr>ls_of = (if ls_of (lp_set p) = 0 then n_version n else ls_of (lp_set p)), ls_base = ls_base (lp_set p),
        ls_depth = ls_depth (lp_set p), ls_seq = ls_seq (lp_set p)\<rparr> (lp_adds p) ds"
    and ds: "map dp_removes ds = map k_id (lp_drops p)"
    and fresh: "distinct (map k_id links)" "k_id ` set links \<inter> k_id ` set (st_links s) = {}" "k_id ` set links \<inter> dp_removes ` set (st_drops s) = {}"
  shows "links_ok t \<and> mset (map link_ident (held t (node_ref_of n))) = mset (map link_ident links)
     \<and> length (lp_adds p) + length (lp_drops p) \<le> length links"
proof -
  let ?i = "n_id n" and ?v = "n_version n"
  have r: "node_ref_of n = of_node ?i ?v" by (simp add: node_ref_of_def)
  have v: "1 \<le> ?v" "\<And>w. stored s ?i w \<Longrightarrow> w < ?v" "stored t ?i ?v" using e by (auto simp: set_extends_def)
  have nst: "\<not> stored s ?i ?v" using v(2) by blast
  have oldl: "\<forall>l \<in> set (st_links s). \<not> (nr_id (k_from l) = ?i \<and> nr_version (k_from l) = ?v)"
    and oldd: "\<forall>d \<in> set (st_drops s). \<not> (nr_id (dp_from d) = ?i \<and> nr_version (dp_from d) = ?v)"
    using ok nst unfolding links_ok_def by metis+
  have x: "set_at t ?i ?v = \<lparr>ls_of = (if ls_of (lp_set p) = 0 then ?v else ls_of (lp_set p)), ls_base = ls_base (lp_set p),
        ls_depth = ls_depth (lp_set p), ls_seq = ls_seq (lp_set p)\<rparr>" using e by (simp add: set_extends_def)
  from good consider
      (share) w where "stored s ?i w" "diff_held (held s (of_node ?i w)) links = ([], [])"
        "lp_set p = \<lparr>ls_of = ls_of (set_at s ?i w), ls_base = 0, ls_depth = ls_depth (set_at s ?i w), ls_seq = ls_seq (set_at s ?i w)\<rparr>"
        "lp_adds p = []" "lp_drops p = []"
    | (whole) q where "p = whole_plan q links"
    | (delta) b q a d where "owner s ?i b" "ls_depth (set_at s ?i b) < max_link_depth"
        "diff_held (held s (of_node ?i b)) links = (a, d)" "length a + length d < length links"
        "lp_set p = \<lparr>ls_of = 0, ls_base = b, ls_depth = ls_depth (set_at s ?i b) + 1, ls_seq = q\<rparr>" "lp_adds p = a" "lp_drops p = d"
    unfolding plan_good_def by auto
  then show ?thesis
  proof cases
    case share
    let ?o = "ls_of (set_at s ?i w)"
    have o: "owner s ?i ?o" "?o \<le> w" "ls_depth (set_at s ?i w) = ls_depth (set_at s ?i ?o)" using stored_owner [OF ok share(1)] by auto
    have lt: "1 \<le> ?o" "?o < ?v" using owner_pos [OF o(1)] v(2) [OF share(1)] o(2) by auto
    have x': "set_at t ?i ?v = \<lparr>ls_of = ?o, ls_base = 0, ls_depth = ls_depth (set_at s ?i ?o), ls_seq = ls_seq (set_at s ?i w)\<rparr>"
      using lt o(3) by (simp add: x share(3))
    have lk: "linked t ?i ?v" using lt ext_owner [OF e o(1)] ext_set [OF e share(1) o(2)] by (simp add: linked_def x' Let_def)
    have ch: "set_chain t ?i [] ?o = set_chain s ?i [] ?o" by (rule ext_chain [OF ok e o(1)])
    have "rows t ?i (set (set_chain s ?i [] ?o)) = rows s ?i (set (set_chain s ?i [] ?o))"
      by (rule ext_rows [OF e]) (use chain_facts [OF ok o(1)] lt in fastforce)
    then have "mset (map link_ident (held t (of_node ?i ?v))) = mset (map link_ident (held s (of_node ?i w)))"
      unfolding held_idents by (simp add: x' ch)
    moreover have "mset (map link_ident links) = mset (map link_ident (held s (of_node ?i w)))"
      using diff_links_mset(1) [OF held_distinct [OF ok] share(2)] by simp
    moreover have "links_ok t" by (rule ext_ok [OF ok e lk]) (simp_all add: share(4))
    ultimately show ?thesis by (simp add: r share(4,5))
  next
    case whole
    then have p: "lp_adds p = links" "lp_drops p = []" "ds = []" using ds by (simp_all add: whole_plan_def)
    have x': "set_at t ?i ?v = \<lparr>ls_of = ?v, ls_base = 0, ls_depth = 0, ls_seq = q\<rparr>" by (simp add: x whole whole_plan_def)
    have lk: "linked t ?i ?v" by (simp add: linked_def x')
    have okt: "links_ok t" by (rule ext_ok [OF ok e lk]) (use fresh in \<open>simp_all add: p\<close>)
    have ow: "owner t ?i ?v" using v(3) by (simp add: owner_def x')
    have old: "filter (\<lambda>l. nr_id (k_from l) = ?i \<and> nr_version (k_from l) = ?v \<and> P l) (st_links s) = []" for P
      using oldl by (auto simp: filter_empty_conv)
    have nod: "{d \<in> set (st_drops t). nr_id (dp_from d) = ?i \<and> nr_version (dp_from d) \<in> {?v}} = {}"
      using oldd e by (auto simp: set_extends_def p)
    have "rows t ?i {?v} = stamped links (node_ref_of n) (n_change n)"
      unfolding rows_def nod using e old [of "\<lambda>_. True"] by (auto simp: set_extends_def p stamped_def node_ref_of_def filter_id_conv)
    then have "mset (map link_ident (held t (of_node ?i ?v))) = mset (map link_ident links)"
      unfolding held_idents by (simp add: x' chain_owner [OF okt ow] stamped_def comp_def)
    then show ?thesis using okt by (simp add: r p)
  next
    case delta
    have b: "1 \<le> b" "b < ?v" "stored s ?i b" using owner_pos [OF delta(1)] v(2) [of b] delta(1) by (auto simp: owner_def)
    have sb: "ls_of (set_at s ?i b) = b" using delta(1) by (simp add: owner_def)
    have x': "set_at t ?i ?v = \<lparr>ls_of = ?v, ls_base = b, ls_depth = ls_depth (set_at s ?i b) + 1, ls_seq = q\<rparr>" by (simp add: x delta(5))
    have lk: "linked t ?i ?v" using b delta(2) ext_owner [OF e delta(1)] ext_set [OF e b(3) order.refl] by (simp add: linked_def x' Let_def)
    note df = diff_links_mset [OF held_distinct [OF ok] delta(3)]
    have fr: "distinct (map k_id a)" "k_id ` set a \<inter> k_id ` set (st_links s) = {}" "k_id ` set a \<inter> dp_removes ` set (st_drops s) = {}"
      using df(3) [OF fresh(1)] df(2) fresh(2,3) by blast+
    have okt: "links_ok t" by (rule ext_ok [OF ok e lk]) (use fr in \<open>simp_all add: delta(6)\<close>)
    have ow: "owner t ?i ?v" using v(3) by (simp add: owner_def x')
    let ?C = "set (set_chain s ?i [] b)"
    have ch: "set_chain t ?i [] ?v = ?v # set_chain s ?i [] b" using chain_owner [OF okt ow] ext_chain [OF ok e delta(1)] by (simp add: x')
    have C: "?v \<notin> ?C" using chain_facts [OF ok delta(1)] b(2) by auto
    have rd: "dp_removes ` set ds = k_id ` set d" using ds delta(7) by (metis list.set_map)
    have old: "{d \<in> set (st_drops s). nr_id (dp_from d) = ?i \<and> nr_version (dp_from d) \<in> insert ?v ?C}
        = {d \<in> set (st_drops s). nr_id (dp_from d) = ?i \<and> nr_version (dp_from d) \<in> ?C}"
      using oldd by auto
    have dr: "dp_removes ` {d \<in> set (st_drops t). nr_id (dp_from d) = ?i \<and> nr_version (dp_from d) \<in> insert ?v ?C}
        = dp_removes ` {d \<in> set (st_drops s). nr_id (dp_from d) = ?i \<and> nr_version (dp_from d) \<in> ?C} \<union> k_id ` set d"
    proof -
      have "{d \<in> set (st_drops t). nr_id (dp_from d) = ?i \<and> nr_version (dp_from d) \<in> insert ?v ?C}
        = {d \<in> set (st_drops s). nr_id (dp_from d) = ?i \<and> nr_version (dp_from d) \<in> insert ?v ?C} \<union> set ds"
        using e by (auto simp: set_extends_def node_ref_of_def)
      then show ?thesis unfolding old image_Un rd [symmetric] by (simp only: image_Un)
    qed
    let ?D = "dp_removes ` {d \<in> set (st_drops s). nr_id (dp_from d) = ?i \<and> nr_version (dp_from d) \<in> ?C}"
    have f1: "filter (\<lambda>l. nr_id (k_from l) = ?i \<and> nr_version (k_from l) \<in> insert ?v ?C \<and> k_id l \<notin> ?D \<union> k_id ` set d) (st_links s)
        = filter (\<lambda>l. k_id l \<notin> k_id ` set d) (rows s ?i ?C)"
      unfolding rows_def filter_filter using oldl by (intro filter_cong) auto
    have "k_id ` set d \<subseteq> k_id ` set (st_links s)" using df(4) held_ids_sub [of s ?i b] by blast
    then have f2: "filter (\<lambda>l. nr_id (k_from l) = ?i \<and> nr_version (k_from l) \<in> insert ?v ?C \<and> k_id l \<notin> ?D \<union> k_id ` set d)
        (stamped a (node_ref_of n) (n_change n)) = stamped a (node_ref_of n) (n_change n)"
      using fr by (auto simp: filter_id_conv stamped_def node_ref_of_def)
    have "rows t ?i (insert ?v ?C) = filter (\<lambda>l. k_id l \<notin> k_id ` set d) (rows s ?i ?C) @ stamped a (node_ref_of n) (n_change n)"
      unfolding rows_def [of t] dr using e f1 f2 by (simp add: set_extends_def delta(6))
    then have "mset (map link_ident (held t (of_node ?i ?v)))
        = mset (map link_ident (filter (\<lambda>l. k_id l \<notin> k_id ` set d) (rows s ?i ?C))) + mset (map link_ident a)"
      unfolding held_idents by (simp add: x' ch stamped_def comp_def)
    also have "\<dots> = mset (map link_ident links)" using df(1) held_filter_idents [of "k_id ` set d" s ?i b] by (simp add: sb)
    finally show ?thesis using okt delta(4,6,7) by (simp add: r)
  qed
qed

lemma put_version_extends:
  assumes ok: "links_ok s" and p: "put_node n (lp_set p) s = (Inr (), s')"
  shows "\<exists>ds. set_extends s (write_links f n p s') n \<lparr>ls_of = (if ls_of (lp_set p) = 0 then n_version n else ls_of (lp_set p)),
      ls_base = ls_base (lp_set p), ls_depth = ls_depth (lp_set p), ls_seq = ls_seq (lp_set p)\<rparr> (lp_adds p) ds
    \<and> map dp_removes ds = map k_id (lp_drops p) \<and> length ds = length (lp_drops p)"
proof -
  note pf = put_node_fields [OF p]
  let ?t = "write_links f n p s'" and ?v = "n_version n" and ?i = "n_id n"
  obtain ds where w: "st_drops ?t = st_drops s' @ ds" "map dp_removes ds = map k_id (lp_drops p)" "\<forall>d \<in> set ds. dp_from d = node_ref_of n"
    "st_links ?t = st_links s' @ stamped (lp_adds p) (node_ref_of n) (n_change n)" "st_sets ?t = st_sets s'" "st_versions ?t = st_versions s'"
    using write_links_fields [of f n p s'] by blast
  have vs: "versions_of ?t j = versions_of s' j" for j by (simp add: versions_of_def w(6))
  have st: "stored ?t j v \<longleftrightarrow> stored s j v \<or> j = ?i \<and> v = ?v" for j v
  proof -
    obtain n' where "versions_of s' j = (if j = ?i then versions_of s j @ [n'] else versions_of s j)" using pf(4) [of j] by blast
    then show ?thesis using pf(1) by (auto simp: stored_def vs)
  qed
  have lt: "stored s ?i v \<Longrightarrow> v < ?v" for v using pf(1) by (simp add: stored_def)
  have none: "map_of (st_sets s) (of_node ?i ?v) = None"
    using ok lt [of ?v] by (force simp: links_ok_def map_of_eq_None_iff)
  have sv: "set_of_version ?t r = set_of_version s' r" for r by (simp add: set_of_version_def w(5))
  have x: "set_at ?t j v = (if j = ?i \<and> v = ?v then \<lparr>ls_of = (if ls_of (lp_set p) = 0 then n_version n else ls_of (lp_set p)),
      ls_base = ls_base (lp_set p), ls_depth = ls_depth (lp_set p), ls_seq = ls_seq (lp_set p)\<rparr> else set_at s j v)" for j v
  proof -
    have z: "set_at s ?i ?v = zero_set\<lparr>ls_of := ?v\<rparr>" using none by (simp add: set_of_version_def)
    show ?thesis unfolding sv pf(5) node_ref_of_def using z by (cases "lp_set p") (auto simp: zero_set_def)
  qed
  have dom: "\<forall>r \<in> fst ` set (st_sets ?t). stored ?t (nr_id r) (nr_version r)"
  proof
    fix r assume "r \<in> fst ` set (st_sets ?t)"
    then have "r \<in> insert (node_ref_of n) (fst ` set (st_sets s))" unfolding w(5) by (rule subsetD [OF pf(6)])
    then show "stored ?t (nr_id r) (nr_version r)"
    proof
      assume "r = node_ref_of n"
      then show ?thesis by (simp add: st node_ref_of_def)
    next
      assume "r \<in> fst ` set (st_sets s)"
      then have "stored s (nr_id r) (nr_version r)" using ok unfolding links_ok_def by blast
      then show ?thesis by (simp only: st simp_thms)
    qed
  qed
  have "set_extends s ?t n \<lparr>ls_of = (if ls_of (lp_set p) = 0 then n_version n else ls_of (lp_set p)),
      ls_base = ls_base (lp_set p), ls_depth = ls_depth (lp_set p), ls_seq = ls_seq (lp_set p)\<rparr> (lp_adds p) ds"
    unfolding set_extends_def
  proof (intro conjI allI impI, goal_cases)
    case 1 show ?case using pf(1) by simp
  next
    case (2 v) then show ?case by (rule lt)
  next
    case (3 i v) show ?case by (rule st)
  next
    case (4 i v) show ?case by (rule x)
  next
    case 5 show ?case by (rule dom)
  next
    case 6 show ?case by (simp add: w(4) pf(2))
  next
    case 7 show ?case by (simp add: w(1) pf(3))
  next
    case 8 show ?case by (rule w(3))
  qed
  then show ?thesis using w(2) by (metis length_map)
qed

text \<open>
  C4. In a store whose sets of links are sound, writing the next version of a node with links of new ids returns and
  keeps the sets sound. It is refused, and nothing is written, exactly when it is the first version of a key that is
  taken. A version written holds the links asked, as a multiset of their types, targets and properties, whatever set
  it shares or delta it writes; it takes no more rows than it has links; every other version holds the very links it
  held; and the chain a read of a version walks is its set and at most max\_link\_depth deltas below it.
\<close>

theorem version_holds_its_links:
  assumes "links_ok s" and "n_version n = int (length (versions_of s (n_id n))) + 1" and "distinct (map k_id links)"
    and "k_id ` set links \<inter> k_id ` set (st_links s) = {}" and "k_id ` set links \<inter> dp_removes ` set (st_drops s) = {}"
  shows "\<exists>r t. put_version new_id n links like s = Some (r, t) \<and> links_ok t
     \<and> (r = Inr () \<longrightarrow> mset (map link_ident (held t (node_ref_of n))) = mset (map link_ident links)
          \<and> length (st_links t) + length (st_drops t) \<le> length (st_links s) + length (st_drops s) + length links)
     \<and> (r = Inr ()) = (\<not> (n_version n = 1 \<and> n_key n \<noteq> [] \<and> map_of (st_keys s) (ns_key (n_namespace n) (n_key n)) \<noteq> None))
     \<and> (r \<noteq> Inr () \<longrightarrow> t = s)
     \<and> (\<forall>i v. stored s i v \<longrightarrow> held t (of_node i v) = held s (of_node i v))
     \<and> (\<forall>i v. stored t i v \<longrightarrow> int (length (set_chain t i [] (ls_of (set_at t i v)))) \<le> max_link_depth + 1)"
proof -
  obtain p where p: "plan_links s n links like = Some (Inr p)" "plan_good s n links p" using plan_links_good [OF assms(1,2)] by blast
  have chains: "links_ok t \<Longrightarrow> stored t i v \<Longrightarrow> int (length (set_chain t i [] (ls_of (set_at t i v)))) \<le> max_link_depth + 1" for t i v
    using stored_owner [of t i v] chain_facts [of t i "ls_of (set_at t i v)"] by auto
  obtain r s' where n: "put_node n (lp_set p) s = (r, s')" by fastforce
  have taken: "(r = Inr ()) = (\<not> (n_version n = 1 \<and> n_key n \<noteq> [] \<and> map_of (st_keys s) (ns_key (n_namespace n) (n_key n)) \<noteq> None))"
    using n assms(2) by (auto simp: put_node_def Let_def split: if_splits)
  show ?thesis
  proof (cases r)
    case (Inl e)
    then have "s' = s" using n by (auto simp: put_node_def Let_def split: if_splits)
    then have "put_version new_id n links like s = Some (Inl e, s)" using p n Inl by (simp add: put_version_def)
    then show ?thesis using assms(1) chains taken Inl by auto
  next
    case (Inr u)
    then have n': "put_node n (lp_set p) s = (Inr (), s')" using n by simp
    let ?t = "write_links new_id n p s'"
    obtain ds where e: "set_extends s ?t n \<lparr>ls_of = (if ls_of (lp_set p) = 0 then n_version n else ls_of (lp_set p)),
        ls_base = ls_base (lp_set p), ls_depth = ls_depth (lp_set p), ls_seq = ls_seq (lp_set p)\<rparr> (lp_adds p) ds"
      "map dp_removes ds = map k_id (lp_drops p)" "length ds = length (lp_drops p)" using put_version_extends [OF assms(1) n'] by blast
    have run: "put_version new_id n links like s = Some (Inr (), ?t)" using p n' by (simp add: put_version_def)
    have res: "links_ok ?t" "mset (map link_ident (held ?t (node_ref_of n))) = mset (map link_ident links)"
      "length (lp_adds p) + length (lp_drops p) \<le> length links"
      using ext_plan [OF assms(1) p(2) e(1,2) assms(3-5)] by auto
    have len: "length (st_links ?t) + length (st_drops ?t) \<le> length (st_links s) + length (st_drops s) + length links"
      using e(1,3) res(3) by (simp add: set_extends_def stamped_def)
    show ?thesis using run res(1,2) len ext_held [OF assms(1) e(1)] chains [OF res(1)] taken Inr by (intro exI [of _ "Inr ()"] exI [of _ ?t]) simp
  qed
qed

text \<open>A node whose first two versions write their links whole; its third drops a link and adds one, a delta of two rows.\<close>

definition demo_row :: "string \<Rightarrow> string \<Rightarrow> link" where
  "demo_row i k = \<lparr>k_id = i, k_type = ''uses'', k_from = zero_ref, k_to = of_node k 1, k_target = zero_url, k_props = None, k_change = []\<rparr>"

definition demo_wanted :: "int \<Rightarrow> link list" where
  "demo_wanted v = (if v = 1 then [demo_row ''1'' ''a'', demo_row ''2'' ''b'']
     else if v = 2 then [demo_row ''3'' ''a'', demo_row ''4'' ''b'', demo_row ''5'' ''c'', demo_row ''6'' ''d'']
     else [demo_row ''7'' ''a'', demo_row ''8'' ''b'', demo_row ''9'' ''c'', demo_row ''10'' ''e''])"

definition demo_put :: "int \<Rightarrow> mem_state \<Rightarrow> ((store_error + unit) \<times> mem_state) option" where
  "demo_put v s = put_version (\<lambda>k. ''row'') (store_node ''x'' v ''main'' v) (demo_wanted v) [of_node ''x'' (v - 1)] s"

definition demo_links :: "nat \<Rightarrow> mem_state" where
  "demo_links k = foldl (\<lambda>s v. snd (the (demo_put v s))) new_store (take k [1, 2, 3])"

declare base_walk.simps [code]

lemma demo_facts:
  "map_option fst (demo_put 1 (demo_links 0)) = Some (Inr ())" "map_option fst (demo_put 2 (demo_links 1)) = Some (Inr ())"
  "map_option fst (demo_put 3 (demo_links 2)) = Some (Inr ())"
  "map (\<lambda>k. (length (versions_of (demo_links k) ''x''), map k_id (st_links (demo_links k)), st_drops (demo_links k) = [])) [0, 1, 2]
     = [(0, [], True), (1, [''1'', ''2''], True), (2, [''1'', ''2'', ''3'', ''4'', ''5'', ''6''], True)]"
  "map k_id (st_links (demo_links 3)) = [''1'', ''2'', ''3'', ''4'', ''5'', ''6'', ''10'']"
  "map dp_removes (st_drops (demo_links 3)) = [''6'']"
  by code_simp+

theorem version_holds_its_links_witness:
  "demo_put 3 (demo_links 2) = Some (Inr (), demo_links 3)
     \<and> mset (map link_ident (held (demo_links 3) (of_node ''x'' 3))) = mset (map link_ident (demo_wanted 3))
     \<and> map k_id (st_links (demo_links 3)) = [''1'', ''2'', ''3'', ''4'', ''5'', ''6'', ''10'']
     \<and> map dp_removes (st_drops (demo_links 3)) = [''6'']"
proof -
  have len: "length (versions_of (demo_links 0) ''x'') = 0" "length (versions_of (demo_links 1) ''x'') = 1"
    "length (versions_of (demo_links 2) ''x'') = 2" and ids: "map k_id (st_links (demo_links 0)) = []"
    "map k_id (st_links (demo_links 1)) = [''1'', ''2'']" "map k_id (st_links (demo_links 2)) = [''1'', ''2'', ''3'', ''4'', ''5'', ''6'']"
    and dr: "st_drops (demo_links 0) = []" "st_drops (demo_links 1) = []" "st_drops (demo_links 2) = []"
    using demo_facts(4) by simp_all
  have idset: "k_id ` set (st_links (demo_links k)) = set (map k_id (st_links (demo_links k)))" for k by simp
  have nxt: "demo_links 1 = snd (the (demo_put 1 (demo_links 0)))" "demo_links 2 = snd (the (demo_put 2 (demo_links 1)))"
    "demo_links 3 = snd (the (demo_put 3 (demo_links 2)))" by (simp_all add: demo_links_def numeral_eq_Suc)
  have nd: "n_id (store_node ''x'' v ''main'' v) = ''x''" "n_version (store_node ''x'' v ''main'' v) = v" for v by (simp_all add: store_node_def)
  have ok0: "links_ok (demo_links 0)" by (auto simp: demo_links_def links_ok_def linked_def new_store_def stored_def versions_of_def)
  have h1: "n_version (store_node ''x'' 1 ''main'' 1) = int (length (versions_of (demo_links 0) (n_id (store_node ''x'' 1 ''main'' 1)))) + 1"
    "distinct (map k_id (demo_wanted 1))" "k_id ` set (demo_wanted 1) \<inter> k_id ` set (st_links (demo_links 0)) = {}"
    "k_id ` set (demo_wanted 1) \<inter> dp_removes ` set (st_drops (demo_links 0)) = {}"
    unfolding nd idset len ids dr by (simp_all add: demo_wanted_def demo_row_def)
  obtain r1 t1 where t1: "demo_put 1 (demo_links 0) = Some (r1, t1)" "links_ok t1"
    using version_holds_its_links [OF ok0 h1, of "\<lambda>k. ''row''" "[of_node ''x'' (1 - 1)]"] unfolding demo_put_def by blast
  have ok1: "links_ok (demo_links 1)" unfolding nxt(1) t1(1) using t1(2) by (simp only: option.sel snd_conv)
  have h2: "n_version (store_node ''x'' 2 ''main'' 2) = int (length (versions_of (demo_links 1) (n_id (store_node ''x'' 2 ''main'' 2)))) + 1"
    "distinct (map k_id (demo_wanted 2))" "k_id ` set (demo_wanted 2) \<inter> k_id ` set (st_links (demo_links 1)) = {}"
    "k_id ` set (demo_wanted 2) \<inter> dp_removes ` set (st_drops (demo_links 1)) = {}"
    unfolding nd idset len ids dr by (simp_all add: demo_wanted_def demo_row_def)
  obtain r2 t2 where t2: "demo_put 2 (demo_links 1) = Some (r2, t2)" "links_ok t2"
    using version_holds_its_links [OF ok1 h2, of "\<lambda>k. ''row''" "[of_node ''x'' (2 - 1)]"] unfolding demo_put_def by blast
  have ok2: "links_ok (demo_links 2)" unfolding nxt(2) t2(1) using t2(2) by (simp only: option.sel snd_conv)
  have h3: "n_version (store_node ''x'' 3 ''main'' 3) = int (length (versions_of (demo_links 2) (n_id (store_node ''x'' 3 ''main'' 3)))) + 1"
    "distinct (map k_id (demo_wanted 3))" "k_id ` set (demo_wanted 3) \<inter> k_id ` set (st_links (demo_links 2)) = {}"
    "k_id ` set (demo_wanted 3) \<inter> dp_removes ` set (st_drops (demo_links 2)) = {}"
    unfolding nd idset len ids dr by (simp_all add: demo_wanted_def demo_row_def)
  obtain r3 t3 where t3: "demo_put 3 (demo_links 2) = Some (r3, t3)"
    "r3 = Inr () \<longrightarrow> mset (map link_ident (held t3 (node_ref_of (store_node ''x'' 3 ''main'' 3)))) = mset (map link_ident (demo_wanted 3))"
    using version_holds_its_links [OF ok2 h3, of "\<lambda>k. ''row''" "[of_node ''x'' (3 - 1)]"] unfolding demo_put_def by blast
  have "r3 = Inr ()" using demo_facts(3) unfolding t3(1) by simp
  moreover have "t3 = demo_links 3" unfolding nxt(3) t3(1) by (simp only: option.sel snd_conv)
  ultimately have "r3 = Inr ()" "t3 = demo_links 3" by simp_all
  then show ?thesis using t3 demo_facts(5,6) by (simp add: nd node_ref_of_def)
qed

end
