(* ===== verification/Spec2Isabelle.thy ===== *)
theory Spec2Isabelle
  imports Planner Lnk Lifecycle Moves View Cow Deciding Validators Cache Linkset
begin

text \<open>
  A verification development for goap, a platform where changes to a graph of versioned nodes are planned, worked on
  by people and agents, decided, reviewed and applied. The theories model the core of its Go code, source file by
  source file; this one imports them all.

  \<^bold>\<open>The program\<close>

  A change holds an append-only log of impact events and a list of typed items (contracts/domain). Replaying the events
  gives the impacts of the change (what it does to which node), their drafts, the conflicts a rebase left and the
  reviews; replaying the items gives the flows (branches of work with their options), the boards each flow sees, the
  decision points, the reviews by record and the moves of the change through the lifecycle of its type. The graph
  (graph/graph) keeps the versions, links, commits and log in a store, writes to it in transactions, and keeps a view of
  each change, folded in place as facts arrive, in containers that its copies share; what a transaction announces goes
  to an outbox, which a relay delivers (lib/outbox).
  The engine picks what to do next with a GOAP planner (engine/goap). The organisation, itself data of the graph, says
  who may do what (lib/access, contracts/authz). The caches of the services are bounded (lib/cache).

  \<^bold>\<open>Theories and code\<close>

  \<^item> Prelude: Go maps as association lists, dynamic values and their JSON trees, slices, strings, a stable sort for
    any strict weak order (locale weak\_order). Float64: the binary64 sum of Go on rationals. Gotime: the RFC 3339
    texts and durations of package time. Heap: container/heap.
  \<^item> Planner (engine/goap/planner.go): states, actions, the search with its open list and best costs, the best plan.
    plan\_optimal says what its answers mean.
  \<^item> Lnk (contracts/lnk): logical URLs, parsing and printing with the escapes of net/url.
  \<^item> Lifecycle (lifecycle.go, visibility.go, typeref.go of contracts/domain): state machines of node types and their
    check. Nodes (domain.go, lnk.go, structure.go, hierarchy.go): versions, links, commits, the trees of units and projects.
  \<^item> Events (changeimpact.go, impactevent.go): the events, their validation and the fold of the impacts. Impacts
    (impacts.go): the list in blocks of 16 and the lookups it may answer from. Drafts (draft.go), Merge (draftmerge.go),
    Diff (draftdiff.go, changestats.go): the drafts, their three-way merge, patches and differences.
  \<^item> Items (change.go, flow.go, decision.go, reviewrecord.go): the typed items and their validation. Reviews, Flows,
    Boards, Moves (transition.go): what their replay gives; opening a flow of graph/graph/flow.go.
  \<^item> View (graph/graph/draftcache.go): the view of a change with its indexes. Cow (cowmap.go and the event log of
    draftcache.go): sharded copy-on-write maps and a shared array, on an explicit store.
  \<^item> Outbox (lib/outbox): the outbox in memory, its sinks and the drain of its relay. Store (graph/graph/memory.go,
    contracts/domain/changelog.go): the store in memory, its transactions, its writes and the purge of a change. Linkset
    (graph/graph/linkset.go): how a version holds its links, whole, shared or as a delta.
  \<^item> Decisions (contracts/domain/decision.go), Rulings (contracts/decision), Deciding (graph/graph/decision.go):
    decision points, the policy of the platform, the operations.
  \<^item> Authz (contracts/authz): principals, resources, the compiled-in policies and their effect. Access (lib/access,
    graph/graph/reach.go, graph/graphsvc/reach.go): the snapshot of the organisation, the decision of a request, what
    a caller reads. Validators (lib/access/floor\_validator.go, project\_validator.go): what the writes of the
    organisation must keep.
  \<^item> Cache (lib/cache): the bounded cache.

  State is passed explicitly, as records with the fields of the structs; a nil pointer is None; a panic is None and an
  error a value of a datatype; the events a log may hold that the code does not know have a constructor of their own.

  \<^bold>\<open>What is proved\<close>

  \<^item> The view folded in place is the fold of the whole log, for any interleaving of events and facts, the verdicts of
    the submitted reviews included, and its indexes answer what a walk of the list finds (view\_refines\_fold,
    view\_lookups\_exact); the blocked list is a list (impacts\_refine\_list); copies that share their maps read their own writes only, when no
    map is written after it was copied (cow\_refines\_maps; write\_after\_share\_leaks shows the need).
  \<^item> A transaction of the store is all or nothing and keeps its invariant; a purge removes a change and nothing else; a
    version holds the links it was written with, whatever is written after it; the relay delivers the messages written,
    in order, none lost.
  \<^item> A log of valid events replays without a nil dereference (valid\_log\_replays) and keeps its drafts to live impacts;
    an edit reopens its review; what is decided stays decided: flows, decision points, submitted reviews.
  \<^item> The merge is field by field with exactly its conflicts; a patch gives back the draft it was made for, up to
    the ids of its links; the differences are empty exactly for equal shapes; URLs and review deltas round trip.
  \<^item> A plan returned is executable and no plan is cheaper; no plan is missed (under
    distinct state keys). A checked lifecycle traps no state.
  \<^item> An agent settles a point only when its confidence reaches the threshold and nobody reserved it; boards settle by
    their rule; rounds without a decision escalate.
  \<^item> No stored policy locks the administrators out; the rights of the owners and the four-eyes rules hold but for
    administrators; rights flow down the projects; the two filters of reads agree; the writes of the organisation are
    within the rights of their author.
  \<^item> A cache stays within its bytes and reads only what was last written, the most recently read first.

  Lemmas that show a fault on one input: project\_role\_escalates and floor\_counts\_project\_roles (a role named admin on
  a project), plan\_key\_collision (two states under one key), ratify\_needs\_name, freeze\_of\_a\_move\_undone and
  log\_position\_given\_twice (after a purge).

  \<^bold>\<open>Interfaces\<close>

  Locales state what a client relies on, and are interpreted on the model of the code: weak\_order for the comparators
  (pq and pl in Planner), cost\_addition for the addition of costs (fc, on binary64), impact\_lookup for the lookups of
  a blocked list (vl in View), policy\_laws for the policy of the decision points (minimal in Decisions, boards in
  Rulings), deciding\_authorizer for whoever decides a request (az and fl in Access).

  \<^bold>\<open>Bounds and parameters\<close>

  The effective state of a flow walks at most 64 parents, and the chain of a project a change creates at most 64, as in
  the code; the blocks of impacts hold 16, the shards of a map are 64. The recursion of the boards, which the code does
  not bound, is a partial function, and boards\_end shows it returns on a log the operations wrote. The expansions of the
  planner are bounded as in the code, 10000 when it sets no bound, and the loop recurses on the expansions left: beyond,
  the answer is the error the code returns, which plan\_optimal tells apart from no plan.

  Parameters stand for what is not in the repository: the hash of a key, the ids drawn, the clock, the digest of a policy
  key, Unicode case folding, the enforcement of stored policies by Casbin, the order of a range over a map where it can be
  seen, the sinks, the lease and the clock of a relay. Numbers read from JSON are rationals; sizes and counters are
  unbounded integers where the code uses 64 bits.

  \<^bold>\<open>Not modelled\<close>

  The stores in PostgreSQL and SQLite, the wider reads of the store in memory, and the operations of the graph over them
  (the checkout, the queries, the bookkeeping of commits and branches); the guards and conditions, CEL expressions evaluated by a third-party
  library; the compilation of methodologies and domains; the run of processes by the engine; the RPC services, their
  clients and conversions, generated code, connectors, the gateway and the web application. They are I/O, concurrency or
  other languages around the decisions modelled here. Locks are left out: an operation under a lock is one step.
\<close>

end
